(* ===== verification/Ress_Prelude.thy ===== *)
theory Ress_Prelude
  imports Main "HOL-Library.Word" "HOL-Library.Finite_Map" "HOL-Library.Monad_Syntax"
begin

text \<open>
  The prelude of the development: the machine types of the Rust sources, the model of the
  standard collections they use, and the lemmas every component shares.

  \<^item> \<open>B256\<close> and \<open>U256\<close> are 256-bit words, \<open>u64\<close>, \<open>u32\<close> and \<open>u8\<close> are words of their width.
  \<^item> A \<open>HashMap\<close> or \<open>BTreeMap\<close> is a finite map, a \<open>HashSet\<close> a finite set. What only a
    \<open>BTreeMap\<close> offers, its first entry, is \<open>first_entry\<close>.
  \<^item> The iteration order of a \<open>HashSet\<close> is not specified by Rust. Every definition that
    iterates over one takes the order as an argument, and \<open>iteration_order\<close> says what every
    order guarantees: each element once.
  \<^item> A loop that the code does not bound returns an option, \<open>None\<close> meaning that it never
    returns; the theorems about such a loop prove that it returns.
\<close>

section \<open>Machine types\<close>

type_synonym b256 = "256 word"
type_synonym u256 = "256 word"
type_synonym u64 = "64 word"
type_synonym u32 = "32 word"
type_synonym bytes = "8 word list"

text \<open>\<open>u64::saturating_sub\<close> of the Rust standard library.\<close>

definition saturating_sub :: "u64 \<Rightarrow> u64 \<Rightarrow> u64" where
  "saturating_sub a b = (if b \<le> a then a - b else 0)"

text \<open>\<open>m\<close> is \<open>n + 1\<close>, and the addition did not wrap.\<close>

definition next_number :: "u64 \<Rightarrow> u64 \<Rightarrow> bool" where
  "next_number n m \<longleftrightarrow> m = n + 1 \<and> n < m"

text \<open>The collections of lemmas the component proofs are carried by.\<close>

named_theorems view_simps \<open>how an operation changes each view of a state\<close>
named_theorems wf_intros \<open>what keeps a well-formedness invariant\<close>

section \<open>Machine integers\<close>

lemma unat_saturating_sub: "unat (saturating_sub a b) = unat a - unat b"
  by (simp add: saturating_sub_def unat_sub word_le_nat_alt)

lemma saturating_sub_le: "saturating_sub a b \<le> a"
  by (simp add: word_le_nat_alt unat_saturating_sub)

lemma unat_minus_one_less: "n \<noteq> (0::u64) \<Longrightarrow> unat (n - 1) < unat n"
  using unat_minus_one [of n] unat_gt_0 [of n] by simp

lemma next_number_unat: "next_number n m \<Longrightarrow> unat m = Suc (unat n)"
  by (metis add.commute next_number_def unatSuc word_not_simps(1))

lemma next_number_less: "next_number n m \<Longrightarrow> n < m"
  unfolding next_number_def by blast

lemma next_number_pred: "next_number n m \<Longrightarrow> m - 1 = n \<and> m \<noteq> 0"
  by (auto simp: next_number_def)

section \<open>Maps and sets\<close>

text \<open>The library's congruence rule keeps the simplifier from rewriting the filtered map.\<close>

declare fmfilter_cong [cong del]

lemma fmlookup_fmmap_dom: "x |\<in>| fmdom m \<Longrightarrow> \<exists>y. fmlookup m x = Some y"
  by (simp add: fmlookup_dom_iff)

lemma fcard_fmdom_drop:
  assumes "fmlookup m k = Some v"
  shows "fcard (fmdom (fmdrop k m)) < fcard (fmdom m)"
proof -
  have "k |\<in>| fmdom m" using assms by (rule fmdomI)
  then have "fcard (fmdom m |-| {|k|}) < fcard (fmdom m)"
    by (rule fcard_fminus1_less)
  then show ?thesis by simp
qed

text \<open>The entries of a map of sets: \<open>entry(k).or_default().insert(x)\<close> adds, and the code's
  \<open>remove_from_\<dots>\<close> helpers remove and drop a set that becomes empty.\<close>

definition entry_insert :: "'k \<Rightarrow> 'a \<Rightarrow> ('k, 'a fset) fmap \<Rightarrow> ('k, 'a fset) fmap" where
  "entry_insert k x m =
     fmupd k (finsert x (case fmlookup m k of None \<Rightarrow> {||} | Some s \<Rightarrow> s)) m"

definition entry_remove :: "'k \<Rightarrow> 'a \<Rightarrow> ('k, 'a fset) fmap \<Rightarrow> ('k, 'a fset) fmap" where
  "entry_remove k x m =
     (case fmlookup m k of
        None \<Rightarrow> m
      | Some s \<Rightarrow> let s' = s |-| {|x|} in if s' = {||} then fmdrop k m else fmupd k s' m)"

text \<open>The relation a map of sets stands for.\<close>

definition entry :: "('k, 'a fset) fmap \<Rightarrow> 'k \<Rightarrow> 'a \<Rightarrow> bool" where
  "entry m k x \<longleftrightarrow> (case fmlookup m k of None \<Rightarrow> False | Some s \<Rightarrow> x |\<in>| s)"

definition no_empty_entry :: "('k, 'a fset) fmap \<Rightarrow> bool" where
  "no_empty_entry m \<longleftrightarrow> {||} |\<notin>| fmran m"

lemma no_empty_entry_alt: "no_empty_entry m \<longleftrightarrow> (\<forall>k s. fmlookup m k = Some s \<longrightarrow> s \<noteq> {||})"
  by (auto simp: no_empty_entry_def fmlookup_ran_iff)

lemma entry_fmempty [simp]: "\<not> entry fmempty k x"
  by (simp add: entry_def)

lemma entryE: "entry m k x \<Longrightarrow> (\<And>s. fmlookup m k = Some s \<Longrightarrow> x |\<in>| s \<Longrightarrow> R) \<Longrightarrow> R"
  by (auto simp: entry_def split: option.splits)

lemma no_empty_entry_fmempty [simp]: "no_empty_entry fmempty"
  by (simp add: no_empty_entry_def)

lemma entry_entry_insert [view_simps]:
  "entry (entry_insert k x m) k' y \<longleftrightarrow> (k' = k \<and> y = x) \<or> entry m k' y"
  by (auto simp: entry_def entry_insert_def split: option.splits if_splits)

lemma entry_entry_remove [view_simps]:
  "entry (entry_remove k x m) k' y \<longleftrightarrow> entry m k' y \<and> \<not> (k' = k \<and> y = x)"
  by (auto simp: entry_def entry_remove_def Let_def split: option.splits if_splits)

lemma entry_fmdrop [view_simps]: "entry (fmdrop k m) k' y \<longleftrightarrow> k' \<noteq> k \<and> entry m k' y"
  by (auto simp: entry_def split: option.splits)

lemma entry_fmfilter [view_simps]: "entry (fmfilter P m) k y \<longleftrightarrow> P k \<and> entry m k y"
  by (auto simp: entry_def split: option.splits)

lemma no_empty_entry_insert [wf_intros]:
  "no_empty_entry m \<Longrightarrow> no_empty_entry (entry_insert k x m)"
  by (auto simp: no_empty_entry_alt entry_insert_def)

lemma no_empty_entry_remove [wf_intros]:
  "no_empty_entry m \<Longrightarrow> no_empty_entry (entry_remove k x m)"
  by (auto simp: no_empty_entry_alt entry_remove_def Let_def split: option.splits)

lemma no_empty_entry_fmdrop [wf_intros]: "no_empty_entry m \<Longrightarrow> no_empty_entry (fmdrop k m)"
  by (auto simp: no_empty_entry_alt)

lemma no_empty_entry_fmfilter [wf_intros]: "no_empty_entry m \<Longrightarrow> no_empty_entry (fmfilter P m)"
  by (auto simp: no_empty_entry_alt)

lemma entry_lookup_None: "fmlookup m k = None \<Longrightarrow> \<not> entry m k x"
  by (simp add: entry_def)

lemma entry_lookup_Some: "fmlookup m k = Some s \<Longrightarrow> entry m k x \<longleftrightarrow> x |\<in>| s"
  by (simp add: entry_def)

lemma entry_remove_dom: "fmdom (entry_remove k x m) |\<subseteq>| fmdom m"
  by (auto simp: entry_remove_def Let_def fmlookup_dom_iff split: option.splits if_splits)

lemma entry_remove_absent: "fmlookup m k = None \<Longrightarrow> entry_remove k x m = m"
  by (simp add: entry_remove_def)

section \<open>Iteration over a hash set\<close>

definition iteration_order :: "('a fset \<Rightarrow> 'a list) \<Rightarrow> bool" where
  "iteration_order it \<longleftrightarrow> (\<forall>S. set (it S) = fset S \<and> distinct (it S))"

lemma iteration_order_set: "iteration_order it \<Longrightarrow> set (it S) = fset S"
  by (simp add: iteration_order_def)

lemma iteration_order_distinct: "iteration_order it \<Longrightarrow> distinct (it S)"
  by (simp add: iteration_order_def)

lemma iteration_order_sorted: "iteration_order (sorted_list_of_fset :: 'a::linorder fset \<Rightarrow> 'a list)"
  by (simp add: iteration_order_def sorted_list_of_fset.rep_eq)

section \<open>Draining an ordered map from below\<close>

text \<open>\<open>BTreeMap::first_key_value\<close> and \<open>first_entry\<close>: the least key and its value.\<close>

definition first_entry :: "('k::linorder, 'v) fmap \<Rightarrow> ('k \<times> 'v) option" where
  "first_entry m =
     (if fmdom m = {||} then None
      else let k = fMin (fmdom m) in map_option (Pair k) (fmlookup m k))"

lemma first_entry_Some:
  assumes "first_entry m = Some (k, v)"
  shows "fmlookup m k = Some v" and "\<And>k' v'. fmlookup m k' = Some v' \<Longrightarrow> k \<le> k'"
proof -
  show "fmlookup m k = Some v"
    using assms by (auto simp: first_entry_def Let_def split: if_splits)
  show "k \<le> k'" if "fmlookup m k' = Some v'" for k' v'
  proof -
    have "k' |\<in>| fmdom m" using that by (rule fmdomI)
    moreover have "k = fMin (fmdom m)"
      using assms by (auto simp: first_entry_def Let_def split: if_splits)
    ultimately show ?thesis by simp
  qed
qed

lemma first_entry_None: "first_entry m = None \<longleftrightarrow> m = fmempty"
proof
  assume *: "first_entry m = None"
  have "fmdom m = {||}"
  proof (rule ccontr)
    assume "fmdom m \<noteq> {||}"
    then have "fMin (fmdom m) |\<in>| fmdom m" by simp
    then have "first_entry m \<noteq> None"
      using \<open>fmdom m \<noteq> {||}\<close> by (auto simp: first_entry_def Let_def fmlookup_dom_iff)
    with * show False by simp
  qed
  then show "m = fmempty" by (intro fmap_ext) (simp add: fmdom_notD)
qed (simp add: first_entry_def)

text \<open>The loop \<open>while m.first_key_value() satisfies P { body(m.pop_first()) }\<close>, which the
  sources write three times: the body updates a state beside the map.\<close>

function drain_first :: "('k::linorder \<Rightarrow> bool) \<Rightarrow> ('v \<Rightarrow> 's \<Rightarrow> 's)
    \<Rightarrow> ('k, 'v) fmap \<Rightarrow> 's \<Rightarrow> ('k, 'v) fmap \<times> 's" where
  "drain_first P body m s =
     (case first_entry m of
        None \<Rightarrow> (m, s)
      | Some (k, v) \<Rightarrow> if P k then drain_first P body (fmdrop k m) (body v s) else (m, s))"
  by pat_completeness auto
termination
  by (relation "measure (\<lambda>(P, body, m, s). fcard (fmdom m))")
     (auto dest!: first_entry_Some(1) fcard_fmdom_drop simp del: fmdom_drop)

declare drain_first.simps [simp del]

text \<open>A threshold condition drains exactly the entries below the threshold.\<close>

definition down_closed :: "('k::linorder \<Rightarrow> bool) \<Rightarrow> bool" where
  "down_closed P \<longleftrightarrow> (\<forall>a b. a \<le> b \<longrightarrow> P b \<longrightarrow> P a)"

lemma down_closed_less: "down_closed (\<lambda>k. k < (n::'k::linorder))"
  by (auto simp: down_closed_def)

lemma down_closed_le: "down_closed (\<lambda>k. k \<le> (n::'k::linorder))"
  by (auto simp: down_closed_def)

lemma drain_first_step:
  assumes "first_entry m = Some (k, v)"
  shows "drain_first P body m s =
    (if P k then drain_first P body (fmdrop k m) (body v s) else (m, s))"
  by (subst drain_first.simps) (simp add: assms)

lemma drain_first_done: "first_entry m = None \<Longrightarrow> drain_first P body m s = (m, s)"
  by (subst drain_first.simps) simp

lemma first_entry_cases:
  obtains (empty) "first_entry m = None" "m = fmempty"
  | (least) k v where "first_entry m = Some (k, v)"
  by (cases "first_entry m") (auto simp: first_entry_None)

lemma drain_first_map:
  "down_closed P \<Longrightarrow> fst (drain_first P body m s) = fmfilter (\<lambda>k. \<not> P k) m"
proof (induction P body m s rule: drain_first.induct)
  case (1 P body m s)
  show ?case
  proof (cases m rule: first_entry_cases)
    case empty
    then show ?thesis by (simp add: drain_first_done)
  next
    case (least k v)
    show ?thesis
    proof (cases "P k")
      case True
      with least 1 have "fst (drain_first P body m s) = fmfilter (\<lambda>k. \<not> P k) (fmdrop k m)"
        by (simp add: drain_first_step)
      also have "\<dots> = fmfilter (\<lambda>k. \<not> P k) m"
        using True by (intro fmap_ext) auto
      finally show ?thesis .
    next
      case False
      have "\<not> P k'" if "fmlookup m k' = Some v'" for k' v'
        using first_entry_Some(2) [OF least that] False "1.prems" by (auto simp: down_closed_def)
      then have "fmfilter (\<lambda>k. \<not> P k) m = m"
        by (intro fmap_ext) (metis fmlookup_filter option.exhaust)
      with least False show ?thesis by (simp add: drain_first_step)
    qed
  qed
qed

text \<open>What the body does to the state: an invariant indexed by the map that is left.\<close>

lemma drain_first_invariant:
  assumes "I m s"
    and "\<And>m k v s. I m s \<Longrightarrow> fmlookup m k = Some v \<Longrightarrow> P k \<Longrightarrow> I (fmdrop k m) (body v s)"
  shows "I (fst (drain_first P body m s)) (snd (drain_first P body m s))"
  using assms
proof (induction P body m s rule: drain_first.induct)
  case (1 P body m s)
  show ?case
  proof (cases m rule: first_entry_cases)
    case empty
    with "1.prems"(1) show ?thesis by (simp add: drain_first_done)
  next
    case (least k v)
    show ?thesis
    proof (cases "P k")
      case True
      have "I (fmdrop k m) (body v s)"
        using "1.prems" True first_entry_Some(1) [OF least] by blast
      then have "I (fst (drain_first P body (fmdrop k m) (body v s)))
                   (snd (drain_first P body (fmdrop k m) (body v s)))"
        by (rule "1.IH" [OF least refl True]) (rule "1.prems"(2))
      with True show ?thesis by (simp add: drain_first_step [OF least])
    next
      case False
      with "1.prems"(1) show ?thesis by (simp add: drain_first_step [OF least])
    qed
  qed
qed

section \<open>Reachable states\<close>

inductive reachable :: "('s \<Rightarrow> bool) \<Rightarrow> ('s \<Rightarrow> 's \<Rightarrow> bool) \<Rightarrow> 's \<Rightarrow> bool"
  for init step where
  reachable_init: "init s \<Longrightarrow> reachable init step s"
| reachable_step: "reachable init step s \<Longrightarrow> step s t \<Longrightarrow> reachable init step t"

text \<open>What a component promises of its states: the invariant holds at the start and every step
  keeps it. Every stateful component of the development is an instance.\<close>

locale invariant_system =
  fixes init :: "'s \<Rightarrow> bool"
    and step :: "'s \<Rightarrow> 's \<Rightarrow> bool"
    and inv :: "'s \<Rightarrow> bool"
  assumes init_inv: "init s \<Longrightarrow> inv s"
    and step_inv: "inv s \<Longrightarrow> step s t \<Longrightarrow> inv t"
begin

lemma reachable_inv: "reachable init step s \<Longrightarrow> inv s"
  by (induction rule: reachable.induct) (auto intro: init_inv step_inv)

end

end
