(* ===== verification/Primitives.thy ===== *)
theory Primitives
  imports Ress_Prelude
begin

text \<open>
  The data every component exchanges, and the execution witness
  (\<open>src/crates/primitives/src/witness.rs\<close>, \<open>witness_rpc.rs\<close>).

  Headers and blocks are types of the reth and alloy crates; the model keeps the fields the
  sources of ress read and one opaque field for the rest. Rust's dereferencing chain, a
  recovered block to its sealed block, to its sealed header, to its header, is record
  extension: \<open>number b\<close> reads the block number of any of the four, and \<open>truncate\<close> is the
  clone of the smaller part.

  Hashing and RLP are code of other crates. They are the fields of the record \<open>codec\<close>, an
  argument of every definition that uses them.
\<close>

section \<open>Headers and blocks\<close>

record header =
  parent_hash :: b256
  number :: u64
  state_root :: b256
  difficulty :: u256
  header_rest :: bytes

record sealed_header = header +
  hash :: b256

record block_body =
  transactions :: "bytes list"
  body_rest :: bytes

record sealed_block = sealed_header +
  body :: block_body

record recovered_block = sealed_block +
  senders :: "bytes list"

record block_num_hash =
  bnh_number :: u64
  bnh_hash :: b256

text \<open>\<open>num_hash()\<close>: the number and the hash stored in a sealed header or block.\<close>

definition num_hash :: "'a sealed_header_scheme \<Rightarrow> block_num_hash" where
  "num_hash b = \<lparr>bnh_number = number b, bnh_hash = hash b\<rparr>"

text \<open>
  \<open>parent_num_hash()\<close> is a method of alloy's header, hence an argument \<open>pnh\<close> of the
  definitions below. What its documentation says of it: the parent's number and hash, and for a
  genesis block the number 0.
\<close>

type_synonym parent_num_hash = "header \<Rightarrow> block_num_hash"

definition parent_num_hash_spec :: "parent_num_hash \<Rightarrow> bool" where
  "parent_num_hash_spec pnh \<longleftrightarrow>
     (\<forall>h. bnh_hash (pnh h) = parent_hash h \<and>
          bnh_number (pnh h) = (if number h = 0 then 0 else number h - 1))"

text \<open>An instance, for the witnesses of theorems that take such a function.\<close>

definition plain_parent_num_hash :: parent_num_hash where
  "plain_parent_num_hash h =
     \<lparr>bnh_number = (if number h = 0 then 0 else number h - 1), bnh_hash = parent_hash h\<rparr>"

text \<open>A block with the given hash, parent hash and number, for the witnesses.\<close>

definition sample_block :: "b256 \<Rightarrow> b256 \<Rightarrow> u64 \<Rightarrow> recovered_block" where
  "sample_block h p n =
     \<lparr>parent_hash = p, number = n, state_root = 0, difficulty = 0, header_rest = [], hash = h,
      body = \<lparr>transactions = [], body_rest = []\<rparr>, senders = []\<rparr>"

section \<open>Hashing and RLP\<close>

datatype trie_node = EmptyRoot | BranchNode bytes | ExtensionNode bytes | LeafNode bytes bytes

record trie_account =
  ta_nonce :: u64
  ta_balance :: u256
  ta_storage_root :: b256
  ta_code_hash :: b256

type_synonym rlp_error = string

record codec =
  keccak256 :: "bytes \<Rightarrow> b256"
  KECCAK_EMPTY :: b256
  decode_trie_node :: "bytes \<Rightarrow> rlp_error + trie_node"
  decode_trie_account :: "bytes \<Rightarrow> rlp_error + trie_account"
  encode_trie_account :: "trie_account \<Rightarrow> bytes"
  decode_u256 :: "bytes \<Rightarrow> rlp_error + u256"
  encode_u256 :: "u256 \<Rightarrow> bytes"
  original_bytes :: "bytes \<Rightarrow> bytes"
  new_raw :: "bytes \<Rightarrow> bytes"
  code_hash_slow :: "bytes \<Rightarrow> b256"
  rlp_length :: "bytes list \<Rightarrow> nat"
  hash_slow :: "header \<Rightarrow> b256"

text \<open>\<open>SealedHeader::seal_slow\<close>: a header with the hash computed from it.\<close>

definition seal_slow :: "codec \<Rightarrow> header \<Rightarrow> sealed_header" where
  "seal_slow c h =
     \<lparr>parent_hash = parent_hash h, number = number h, state_root = state_root h,
      difficulty = difficulty h, header_rest = header_rest h, hash = hash_slow c h\<rparr>"

section \<open>The execution witness\<close>

text \<open>The lazily initialised set of code hashes (\<open>OnceLock\<close>) is an option: the first read fills
  it, later reads return what is there.\<close>

record execution_witness =
  ew_state_witness :: "bytes list"
  ew_rlp_size_bytes :: nat
  ew_bytecode_hashes :: "b256 fset option"

definition ew_new :: "bytes list \<Rightarrow> nat \<Rightarrow> execution_witness" where
  "ew_new sw n = \<lparr>ew_state_witness = sw, ew_rlp_size_bytes = n, ew_bytecode_hashes = None\<rparr>"

text \<open>The code hash one witness entry contributes: that of an account leaf with code.\<close>

definition entry_code_hash :: "codec \<Rightarrow> bytes \<Rightarrow> b256 option" where
  "entry_code_hash c encoded =
     (case decode_trie_node c encoded of
        Inr (LeafNode key value) \<Rightarrow>
          (case decode_trie_account c value of
             Inr account \<Rightarrow>
               if ta_code_hash account \<noteq> KECCAK_EMPTY c then Some (ta_code_hash account) else None
           | Inl _ \<Rightarrow> None)
      | _ \<Rightarrow> None)"

fun collect_code_hashes :: "codec \<Rightarrow> bytes list \<Rightarrow> b256 fset \<Rightarrow> b256 fset" where
  "collect_code_hashes c [] acc = acc"
| "collect_code_hashes c (encoded # rest) acc =
     collect_code_hashes c rest
       (case entry_code_hash c encoded of None \<Rightarrow> acc | Some h \<Rightarrow> finsert h acc)"

definition bytecode_hashes :: "codec \<Rightarrow> execution_witness \<Rightarrow> b256 fset \<times> execution_witness" where
  "bytecode_hashes c w =
     (case ew_bytecode_hashes w of
        Some hs \<Rightarrow> (hs, w)
      | None \<Rightarrow> let hs = collect_code_hashes c (ew_state_witness w) {||}
                 in (hs, w\<lparr>ew_bytecode_hashes := Some hs\<rparr>))"

text \<open>A witness obtained from \<open>ew_new\<close> by reading its code hashes.\<close>

definition ew_wf :: "codec \<Rightarrow> execution_witness \<Rightarrow> bool" where
  "ew_wf c w \<longleftrightarrow>
     (\<forall>hs. ew_bytecode_hashes w = Some hs \<longrightarrow>
           hs = collect_code_hashes c (ew_state_witness w) {||})"

section \<open>Lemmas\<close>

lemma sample_block_sel [simp]:
  "hash (sample_block h p n) = h" "parent_hash (sample_block h p n) = p"
  "number (sample_block h p n) = n" "state_root (sample_block h p n) = 0"
  "difficulty (sample_block h p n) = 0"
  by (simp_all add: sample_block_def)

lemma num_hash_sel [simp]:
  "bnh_number (num_hash b) = number b" "bnh_hash (num_hash b) = hash b"
  by (simp_all add: num_hash_def)

lemma truncate_sel [simp]:
  "parent_hash (header.truncate h) = parent_hash h" "number (header.truncate h) = number h"
  "state_root (header.truncate h) = state_root h" "difficulty (header.truncate h) = difficulty h"
  by (simp_all add: header.defs)

lemma sealed_truncate_sel [simp]:
  "parent_hash (sealed_header.truncate h) = parent_hash h"
  "number (sealed_header.truncate h) = number h"
  "state_root (sealed_header.truncate h) = state_root h"
  "difficulty (sealed_header.truncate h) = difficulty h"
  "hash (sealed_header.truncate h) = hash h"
  by (simp_all add: sealed_header.defs)

lemma block_truncate_sel [simp]:
  "parent_hash (sealed_block.truncate b) = parent_hash b"
  "number (sealed_block.truncate b) = number b"
  "hash (sealed_block.truncate b) = hash b"
  "body (sealed_block.truncate b) = body b"
  by (simp_all add: sealed_block.defs)

lemma seal_slow_sel [simp]:
  "hash (seal_slow c h) = hash_slow c h" "parent_hash (seal_slow c h) = parent_hash h"
  "number (seal_slow c h) = number h" "header.truncate (seal_slow c h) = h"
  by (simp_all add: seal_slow_def header.defs)

lemma parent_num_hash_hash: "parent_num_hash_spec pnh \<Longrightarrow> bnh_hash (pnh h) = parent_hash h"
  by (simp add: parent_num_hash_spec_def)

lemma parent_num_hash_number:
  "parent_num_hash_spec pnh \<Longrightarrow> bnh_number (pnh h) = (if number h = 0 then 0 else number h - 1)"
  by (simp add: parent_num_hash_spec_def)

lemma plain_parent_num_hash_spec: "parent_num_hash_spec plain_parent_num_hash"
  by (simp add: parent_num_hash_spec_def plain_parent_num_hash_def)

lemma collect_code_hashes_mem:
  "h |\<in>| collect_code_hashes c es acc \<longleftrightarrow> h |\<in>| acc \<or> (\<exists>e\<in>set es. entry_code_hash c e = Some h)"
  by (induction es arbitrary: acc) (auto split: option.splits)

lemma ew_wf_new: "ew_wf c (ew_new sw n)"
  by (simp add: ew_wf_def ew_new_def)

lemma ew_wf_read: "ew_wf c w \<Longrightarrow> ew_wf c (snd (bytecode_hashes c w))"
  by (simp add: ew_wf_def bytecode_hashes_def Let_def split: option.splits)

end
