(* ===== verification/Ancestry.thy ===== *)
theory Ancestry
  imports Primitives
begin

text \<open>
  Following parent hashes through a store of headers. Five loops of the sources do it: the
  block buffer's \<open>lowest_ancestor\<close>, the chain state's \<open>block_hash\<close>, and \<open>is_fork\<close> and
  \<open>on_new_head\<close> of the engine tree. What they rely on is the interface \<open>header_chain\<close>: a store
  keyed by block hash in which a child's number is one above its parent's. Its lemmas give the
  induction the loops terminate by and the uniqueness of the ancestor at a height. The stores
  interpret it in their own theories.
\<close>

section \<open>Ancestors in a store\<close>

inductive ancestor :: "(b256 \<Rightarrow> ('a sealed_header_scheme) option) \<Rightarrow> b256 \<Rightarrow> b256 \<Rightarrow> bool"
  for get where
  ancestor_refl: "ancestor get h h"
| ancestor_step: "get h = Some b \<Longrightarrow> ancestor get (parent_hash b) a \<Longrightarrow> ancestor get h a"

inductive_cases ancestorE: "ancestor get h a"

lemma ancestor_None: "get h = None \<Longrightarrow> ancestor get h a \<longleftrightarrow> a = h"
  by (auto intro: ancestor_refl elim: ancestorE)

lemma ancestor_Some:
  "get h = Some b \<Longrightarrow> ancestor get h a \<longleftrightarrow> a = h \<or> ancestor get (parent_hash b) a"
  by (auto intro: ancestor.intros elim: ancestorE)

lemma ancestor_trans: "ancestor get h a \<Longrightarrow> ancestor get a c \<Longrightarrow> ancestor get h c"
  by (induction rule: ancestor.induct) (auto intro: ancestor_step)

lemma ancestor_cong:
  assumes "\<And>h. map_option parent_hash (get h) = map_option parent_hash (get' h)"
  shows "ancestor get h a \<longleftrightarrow> ancestor get' h a"
proof
  show "ancestor get' h a" if "ancestor get h a" using that
  proof (induction rule: ancestor.induct)
    case (ancestor_step h b a)
    then have "map_option parent_hash (get' h) = Some (parent_hash b)"
      using assms [of h] by simp
    with ancestor_step.IH show ?case by (auto intro: ancestor.ancestor_step)
  qed (rule ancestor_refl)
  show "ancestor get h a" if "ancestor get' h a" using that
  proof (induction rule: ancestor.induct)
    case (ancestor_step h b a)
    then have "map_option parent_hash (get h) = Some (parent_hash b)"
      using assms [of h] by simp
    with ancestor_step.IH show ?case by (auto intro: ancestor.ancestor_step)
  qed (rule ancestor_refl)
qed

section \<open>A chain of headers\<close>

text \<open>\<open>linked base xs\<close>: the headers \<open>xs\<close>, oldest first, form a chain on top of the block
  \<open>base\<close>.\<close>

fun linked :: "b256 \<Rightarrow> ('a sealed_header_scheme) list \<Rightarrow> bool" where
  "linked base [] \<longleftrightarrow> True"
| "linked base (x # xs) \<longleftrightarrow> parent_hash x = base \<and> linked (hash x) xs"

text \<open>The hash a chain ends in.\<close>

definition chain_tip :: "b256 \<Rightarrow> ('a sealed_header_scheme) list \<Rightarrow> b256" where
  "chain_tip base xs = (if xs = [] then base else hash (last xs))"

lemma chain_tip_simps [simp]:
  "chain_tip base [] = base" "chain_tip base (x # xs) = chain_tip (hash x) xs"
  "chain_tip base (xs @ [x]) = hash x"
  by (simp_all add: chain_tip_def)

lemma linked_append: "linked base (xs @ ys) \<longleftrightarrow> linked base xs \<and> linked (chain_tip base xs) ys"
  by (induction xs arbitrary: base) auto

section \<open>The interface of a header store\<close>

locale header_chain =
  fixes get :: "'s \<Rightarrow> b256 \<Rightarrow> ('a sealed_header_scheme) option"
    and inv :: "'s \<Rightarrow> bool"
  assumes keyed: "inv s \<Longrightarrow> get s h = Some b \<Longrightarrow> hash b = h"
    and child_number: "inv s \<Longrightarrow> get s h = Some b \<Longrightarrow> get s (parent_hash b) = Some p
          \<Longrightarrow> next_number (number p) (number b)"
begin

lemma unat_child_number:
  "inv s \<Longrightarrow> get s h = Some b \<Longrightarrow> get s (parent_hash b) = Some p
   \<Longrightarrow> unat (number b) = Suc (unat (number p))"
  by (rule next_number_unat) (rule child_number)

lemma child_number_less:
  "inv s \<Longrightarrow> get s h = Some b \<Longrightarrow> get s (parent_hash b) = Some p \<Longrightarrow> number p < number b"
  by (rule next_number_less) (rule child_number)

text \<open>The induction along parent hashes, by which every walk over the store terminates.\<close>

lemma parent_induct [consumes 1, case_names parent]:
  assumes "inv s"
    and step: "\<And>h. (\<And>b. get s h = Some b \<Longrightarrow> P (parent_hash b)) \<Longrightarrow> P h"
  shows "P h"
proof (cases "get s h")
  case None
  show ?thesis by (rule step) (simp add: None)
next
  case (Some b)
  then show ?thesis
  proof (induction "unat (number b)" arbitrary: h b rule: less_induct)
    case less
    show ?case
    proof (rule step)
      fix b' assume "get s h = Some b'"
      with less.prems have [simp]: "b' = b" by simp
      show "P (parent_hash b')"
      proof (cases "get s (parent_hash b)")
        case None
        show ?thesis by (rule step) (simp add: None)
      next
        case (Some p)
        have "unat (number p) < unat (number b)"
          using unat_child_number [OF \<open>inv s\<close> less.prems Some] by simp
        then have "P (parent_hash b)" using Some by (rule less.hyps)
        then show ?thesis by simp
      qed
    qed
  qed
qed

lemma ancestor_number_le:
  assumes "inv s" "ancestor (get s) h a" "get s h = Some b" "get s a = Some c"
  shows "number c \<le> number b"
  using assms(2,3,4)
proof (induction arbitrary: b rule: ancestor.induct)
  case (ancestor_refl h)
  then show ?case by simp
next
  case (ancestor_step h b' a)
  then have [simp]: "b' = b" by simp
  show ?case
  proof (cases "get s (parent_hash b)")
    case None
    with ancestor_step.hyps(2) ancestor_step.prems show ?thesis by (simp add: ancestor_None)
  next
    case (Some p)
    with ancestor_step have "number c \<le> number p" by simp
    also have "number p < number b"
      using \<open>inv s\<close> ancestor_step.prems(1) Some by (rule child_number_less)
    finally show ?thesis by simp
  qed
qed

text \<open>At most one ancestor of a block has a given number.\<close>

lemma ancestor_number_unique:
  assumes "inv s" "ancestor (get s) h a" "ancestor (get s) h c"
    and "get s a = Some x" "get s c = Some y" "number x = number y"
  shows "a = c"
  using assms(2-)
proof (induction rule: ancestor.induct)
  case (ancestor_refl h)
  from ancestor_refl.prems(1) show ?case
  proof (cases rule: ancestor.cases)
    case (ancestor_step b)
    with ancestor_refl.prems have [simp]: "b = x" by simp
    from ancestor_step ancestor_refl.prems obtain p where p: "get s (parent_hash x) = Some p"
      by (cases "get s (parent_hash x)") (auto simp: ancestor_None)
    have "number y \<le> number p"
      using ancestor_number_le [OF \<open>inv s\<close> _ p] ancestor_step ancestor_refl.prems by auto
    moreover have "number p < number x"
      using \<open>inv s\<close> ancestor_refl.prems(2) p by (rule child_number_less)
    ultimately show ?thesis using ancestor_refl.prems by simp
  qed simp
next
  case (ancestor_step h b a)
  from ancestor_step.prems(1) show ?case
  proof (cases rule: ancestor.cases)
    case ancestor_refl
    with ancestor_step have [simp]: "b = y" by simp
    from ancestor_step obtain p where p: "get s (parent_hash y) = Some p"
      by (cases "get s (parent_hash y)") (auto simp: ancestor_None)
    have "number x \<le> number p"
      using ancestor_number_le [OF \<open>inv s\<close> _ p, of a x] ancestor_step.hyps(2) ancestor_step.prems(2)
      by simp
    moreover have "number p < number y"
      using child_number_less [OF \<open>inv s\<close> _ p] ancestor_step ancestor_refl by blast
    ultimately show ?thesis using ancestor_step.prems by simp
  next
    case (ancestor_step b')
    with \<open>get s h = Some b\<close> have "ancestor (get s) (parent_hash b) c" by simp
    then show ?thesis using ancestor_step.IH ancestor_step.prems by blast
  qed
qed

end

end
