(* ===== verification/Block_Index.thy ===== *)
theory Block_Index
  imports Ancestry
begin

text \<open>
  Secondary indexes of a map of blocks. The chain state indexes its blocks by number, the block
  buffer by number and by parent hash: in each case a map from the key to the set of the hashes
  that have it. \<open>index_sound\<close> says that the index names only stored blocks, under their own key
  and with no empty set left behind; \<open>index_complete\<close> that it names every stored block.
\<close>

type_synonym block_map = "(b256, recovered_block) fmap"

definition index_sound :: "(recovered_block \<Rightarrow> 'k) \<Rightarrow> ('k, b256 fset) fmap \<Rightarrow> block_map \<Rightarrow> bool" where
  "index_sound key idx bs \<longleftrightarrow>
     fmpred (\<lambda>k hs. hs \<noteq> {||} \<and> fBall hs (\<lambda>h. map_option key (fmlookup bs h) = Some k)) idx"

definition index_complete :: "(recovered_block \<Rightarrow> 'k) \<Rightarrow> ('k, b256 fset) fmap \<Rightarrow> block_map \<Rightarrow> bool" where
  "index_complete key idx bs \<longleftrightarrow> fmpred (\<lambda>h b. entry idx (key b) h) bs"

text \<open>A map keyed by block hash.\<close>

definition keyed_by_hash :: "block_map \<Rightarrow> bool" where
  "keyed_by_hash bs \<longleftrightarrow> fmpred (\<lambda>h b. hash b = h) bs"

text \<open>A child's number is one above its parent's, where the map has both.\<close>

definition numbers_linked :: "block_map \<Rightarrow> bool" where
  "numbers_linked bs \<longleftrightarrow>
     fmpred (\<lambda>h b. case fmlookup bs (parent_hash b) of
                     None \<Rightarrow> True
                   | Some p \<Rightarrow> next_number (number p) (number b)) bs"

text \<open>The block hash determines the header: a block of the map with the hash of \<open>b\<close> has the
  number and the parent of \<open>b\<close>. It is what the collision resistance of Keccak gives.\<close>

definition no_hash_clash :: "block_map \<Rightarrow> recovered_block \<Rightarrow> bool" where
  "no_hash_clash bs b \<longleftrightarrow>
     (case fmlookup bs (hash b) of
        None \<Rightarrow> True
      | Some b' \<Rightarrow> number b' = number b \<and> parent_hash b' = parent_hash b)"

text \<open>A hash commits to the header it is the hash of, so a block cannot be its own ancestor.
  \<open>hash_ranked rank bs\<close> states it for the blocks of a map: the rank of the parent hash is
  below the rank of the hash.\<close>

definition hash_ranked :: "(b256 \<Rightarrow> nat) \<Rightarrow> block_map \<Rightarrow> bool" where
  "hash_ranked rank bs \<longleftrightarrow> fmpred (\<lambda>h b. rank (parent_hash b) < rank h) bs"

lemma hash_rankedD: "hash_ranked rank bs \<Longrightarrow> fmlookup bs h = Some b \<Longrightarrow> rank (parent_hash b) < rank h"
  by (auto simp: hash_ranked_def)

section \<open>Indexes\<close>

lemma index_sound_alt:
  "index_sound key idx bs \<longleftrightarrow>
     no_empty_entry idx \<and> (\<forall>k h. entry idx k h \<longrightarrow> (\<exists>b. fmlookup bs h = Some b \<and> key b = k))"
  by (fastforce simp: index_sound_def no_empty_entry_alt fmpred_iff entry_def split: option.splits)

lemma index_soundD:
  "index_sound key idx bs \<Longrightarrow> entry idx k h \<Longrightarrow> \<exists>b. fmlookup bs h = Some b \<and> key b = k"
  by (simp add: index_sound_alt)

lemma index_completeD:
  "index_complete key idx bs \<Longrightarrow> fmlookup bs h = Some b \<Longrightarrow> entry idx (key b) h"
  by (auto simp: index_complete_def)

lemma index_exact:
  assumes "index_sound key idx bs" "index_complete key idx bs"
  shows "entry idx k h \<longleftrightarrow> (\<exists>b. fmlookup bs h = Some b \<and> key b = k)"
  using assms by (auto dest: index_soundD index_completeD)

lemma index_empty [simp]:
  "index_sound key fmempty bs" "index_complete key idx fmempty"
  by (auto simp: index_sound_def index_complete_def)

lemma index_sound_insert [wf_intros]:
  assumes "index_sound key idx bs"
    and "\<And>b'. fmlookup bs (hash b) = Some b' \<Longrightarrow> key b' = key b"
  shows "index_sound key (entry_insert (key b) (hash b) idx) (fmupd (hash b) b bs)"
  using assms
  by (fastforce simp: index_sound_alt view_simps intro: wf_intros)

lemma index_complete_insert [wf_intros]:
  "index_complete key idx bs \<Longrightarrow>
   index_complete key (entry_insert (key b) (hash b) idx) (fmupd (hash b) b bs)"
  by (auto simp: index_complete_def fmpred_iff view_simps)

lemma index_sound_remove [wf_intros]:
  assumes "index_sound key idx bs" "fmlookup bs h = Some b"
  shows "index_sound key (entry_remove (key b) h idx) (fmdrop h bs)"
  using assms
  by (fastforce simp: index_sound_alt view_simps intro: wf_intros)

lemma index_complete_remove [wf_intros]:
  "index_complete key idx bs \<Longrightarrow> index_complete key (entry_remove k h idx) (fmdrop h bs)"
  by (auto simp: index_complete_def fmpred_iff view_simps)

lemma index_sound_drop [wf_intros]:
  "index_sound key idx bs \<Longrightarrow> index_sound key (fmdrop k idx) bs"
  by (auto simp: index_sound_alt view_simps intro: wf_intros)

lemma index_sound_filter [wf_intros]:
  "index_sound key idx bs \<Longrightarrow> index_sound key (fmfilter P idx) bs"
  by (auto simp: index_sound_alt view_simps intro: wf_intros)

text \<open>Removing the blocks of the keys that satisfy \<open>P\<close>, and these keys.\<close>

lemma index_filter [wf_intros]:
  assumes "index_sound key idx bs" "index_complete key idx bs"
    and "\<And>h. fmlookup bs' h = (case fmlookup bs h of None \<Rightarrow> None
                               | Some b \<Rightarrow> if P (key b) then None else Some b)"
  shows "index_sound key (fmfilter (\<lambda>k. \<not> P k) idx) bs'"
    and "index_complete key (fmfilter (\<lambda>k. \<not> P k) idx) bs'"
proof -
  have *: "entry idx k h \<longleftrightarrow> (\<exists>b. fmlookup bs h = Some b \<and> key b = k)" for k h
    using assms(1,2) by (rule index_exact)
  show "index_sound key (fmfilter (\<lambda>k. \<not> P k) idx) bs'"
    using assms(1) by (auto simp: index_sound_alt view_simps * assms(3) intro: wf_intros)
  show "index_complete key (fmfilter (\<lambda>k. \<not> P k) idx) bs'"
    by (auto simp: index_complete_def fmpred_iff view_simps * assms(3) split: option.splits if_splits)
qed

section \<open>Maps keyed by hash, with linked numbers\<close>

lemma keyed_by_hashD: "keyed_by_hash bs \<Longrightarrow> fmlookup bs h = Some b \<Longrightarrow> hash b = h"
  by (auto simp: keyed_by_hash_def)

lemma keyed_by_hash_empty [simp]: "keyed_by_hash fmempty"
  by (simp add: keyed_by_hash_def)

lemma keyed_by_hash_upd [wf_intros]: "keyed_by_hash bs \<Longrightarrow> keyed_by_hash (fmupd (hash b) b bs)"
  by (auto simp: keyed_by_hash_def)

lemma keyed_by_hash_drop [wf_intros]: "keyed_by_hash bs \<Longrightarrow> keyed_by_hash (fmdrop h bs)"
  by (auto simp: keyed_by_hash_def)

lemma keyed_by_hash_subset: "keyed_by_hash bs \<Longrightarrow> bs' \<subseteq>\<^sub>f bs \<Longrightarrow> keyed_by_hash bs'"
  by (auto simp: keyed_by_hash_def intro: fmsubset_pred)

lemma numbers_linkedD:
  "numbers_linked bs \<Longrightarrow> fmlookup bs h = Some b \<Longrightarrow> fmlookup bs (parent_hash b) = Some p
   \<Longrightarrow> next_number (number p) (number b)"
  by (force simp: numbers_linked_def)

lemma numbers_linked_empty [simp]: "numbers_linked fmempty"
  by (simp add: numbers_linked_def)

lemma numbers_linkedI:
  assumes "\<And>h b p. fmlookup bs h = Some b \<Longrightarrow> fmlookup bs (parent_hash b) = Some p
             \<Longrightarrow> next_number (number p) (number b)"
  shows "numbers_linked bs"
  using assms unfolding numbers_linked_def by (intro fmpredI) (simp split: option.splits)

lemma numbers_linked_subset: "numbers_linked bs \<Longrightarrow> bs' \<subseteq>\<^sub>f bs \<Longrightarrow> numbers_linked bs'"
  by (rule numbers_linkedI) (auto simp: fmsubset_alt_def fmpred_iff intro: numbers_linkedD)

end
