(* ===== verification/Block_Buffer.thy ===== *)
theory Block_Buffer
  imports Block_Index
begin

text \<open>
  The buffer of pending blocks, \<open>src/crates/engine/src/tree/block_buffer.rs\<close>.

  The LRU map is the crate schnellru's. Its methods are the fields of \<open>lru_ops\<close>, over a type
  of their own, and \<open>lru_spec\<close> states what their documentation promises, through the list of
  the keys from the least to the most recently used. The gauges of \<open>BlockBufferMetrics\<close> are left
  out: nothing reads them.
\<close>

section \<open>The LRU map\<close>

record 'l lru_ops =
  lru_new :: "u32 \<Rightarrow> 'l"
  lru_peek :: "'l \<Rightarrow> b256 \<Rightarrow> unit option"
  lru_max_length :: "'l \<Rightarrow> u32"
  lru_len :: "'l \<Rightarrow> nat"
  lru_pop_oldest :: "'l \<Rightarrow> (b256 \<times> unit) option \<times> 'l"
  lru_get_or_insert :: "b256 \<Rightarrow> 'l \<Rightarrow> 'l"
  lru_remove :: "b256 \<Rightarrow> 'l \<Rightarrow> 'l"

text \<open>The documented behaviour: \<open>peek\<close> and \<open>len\<close> read the map, \<open>pop_oldest\<close> takes the least
  recently used key, \<open>get_or_insert\<close> makes the key the most recently used one and inserts it
  when it is new and there is room, \<open>remove\<close> removes it; no operation changes the limit.\<close>

definition lru_spec :: "'l lru_ops \<Rightarrow> ('l \<Rightarrow> b256 list) \<Rightarrow> bool" where
  "lru_spec ops keys \<longleftrightarrow>
     (\<forall>n. keys (lru_new ops n) = [] \<and> lru_max_length ops (lru_new ops n) = n) \<and>
     (\<forall>m k. lru_peek ops m k = (if k \<in> set (keys m) then Some () else None)) \<and>
     (\<forall>m. lru_len ops m = length (keys m)) \<and>
     (\<forall>m. case keys m of
            [] \<Rightarrow> fst (lru_pop_oldest ops m) = None \<and> keys (snd (lru_pop_oldest ops m)) = []
          | k # ks \<Rightarrow> fst (lru_pop_oldest ops m) = Some (k, ()) \<and>
                      keys (snd (lru_pop_oldest ops m)) = ks) \<and>
     (\<forall>m k. k \<in> set (keys m) \<longrightarrow> keys (lru_get_or_insert ops k m) = removeAll k (keys m) @ [k]) \<and>
     (\<forall>m k. k \<notin> set (keys m) \<longrightarrow> length (keys m) < unat (lru_max_length ops m) \<longrightarrow>
            keys (lru_get_or_insert ops k m) = keys m @ [k]) \<and>
     (\<forall>m k. keys (lru_remove ops k m) = removeAll k (keys m)) \<and>
     (\<forall>m. lru_max_length ops (snd (lru_pop_oldest ops m)) = lru_max_length ops m) \<and>
     (\<forall>m k. lru_max_length ops (lru_get_or_insert ops k m) = lru_max_length ops m \<and>
            lru_max_length ops (lru_remove ops k m) = lru_max_length ops m)"

section \<open>The buffer\<close>

record 'l block_buffer =
  blocks :: "(b256, recovered_block) fmap"
  witnesses :: "(b256, execution_witness) fmap"
  missing_bytecodes :: "(b256, b256 fset) fmap"
  parent_to_child :: "(b256, b256 fset) fmap"
  earliest_blocks :: "(u64, b256 fset) fmap"
  lru :: 'l

definition bb_new :: "'l lru_ops \<Rightarrow> u32 \<Rightarrow> 'l block_buffer" where
  "bb_new ops limit =
     \<lparr>blocks = fmempty, witnesses = fmempty, missing_bytecodes = fmempty,
      parent_to_child = fmempty, earliest_blocks = fmempty, lru = lru_new ops limit\<rparr>"

definition bb_witness :: "'l block_buffer \<Rightarrow> b256 \<Rightarrow> execution_witness option" where
  "bb_witness s h = fmlookup (witnesses s) h"

text \<open>The loop of \<open>lowest_ancestor\<close>; it never returns when the buffered parents form a cycle.\<close>

partial_function (option) bb_walk_lowest ::
  "(b256, recovered_block) fmap \<Rightarrow> recovered_block \<Rightarrow> recovered_block option" where
  "bb_walk_lowest bs current =
     (case fmlookup bs (parent_hash current) of
        None \<Rightarrow> Some current
      | Some parent \<Rightarrow> bb_walk_lowest bs parent)"

definition bb_lowest_ancestor :: "'l block_buffer \<Rightarrow> b256 \<Rightarrow> recovered_block option option" where
  "bb_lowest_ancestor s h =
     (case fmlookup (blocks s) h of
        None \<Rightarrow> Some None
      | Some current \<Rightarrow> map_option Some (bb_walk_lowest (blocks s) current))"

definition bb_remove_from_earliest_blocks :: "u64 \<Rightarrow> b256 \<Rightarrow> 'l block_buffer \<Rightarrow> 'l block_buffer" where
  "bb_remove_from_earliest_blocks n h s =
     s\<lparr>earliest_blocks := entry_remove n h (earliest_blocks s)\<rparr>"

definition bb_remove_from_parent :: "b256 \<Rightarrow> b256 \<Rightarrow> 'l block_buffer \<Rightarrow> 'l block_buffer" where
  "bb_remove_from_parent parent h s =
     s\<lparr>parent_to_child := entry_remove parent h (parent_to_child s)\<rparr>"

definition bb_evict_block ::
  "'l lru_ops \<Rightarrow> b256 \<Rightarrow> 'l block_buffer \<Rightarrow> recovered_block option \<times> 'l block_buffer" where
  "bb_evict_block ops h s =
     (case fmlookup (blocks s) h of
        None \<Rightarrow> (None, s)
      | Some block \<Rightarrow>
          let s = s\<lparr>blocks := fmdrop h (blocks s)\<rparr>;
              s = s\<lparr>witnesses := fmdrop h (witnesses s)\<rparr>;
              s = s\<lparr>missing_bytecodes := fmdrop h (missing_bytecodes s)\<rparr>;
              s = bb_remove_from_earliest_blocks (number block) h s;
              s = bb_remove_from_parent (parent_hash block) h s;
              s = s\<lparr>lru := lru_remove ops h (lru s)\<rparr>
          in (Some block, s))"

definition bb_insert_hash_and_get_evicted ::
  "'l lru_ops \<Rightarrow> b256 \<Rightarrow> 'l block_buffer \<Rightarrow> b256 option \<times> 'l block_buffer" where
  "bb_insert_hash_and_get_evicted ops h s =
     (let new = (lru_peek ops (lru s) h = None);
          (evicted, l) =
            (if new \<and> unat (lru_max_length ops (lru s)) \<le> lru_len ops (lru s)
             then apfst (map_option fst) (lru_pop_oldest ops (lru s))
             else (None, lru s))
      in (evicted, s\<lparr>lru := lru_get_or_insert ops h l\<rparr>))"

definition bb_insert_block :: "'l lru_ops \<Rightarrow> recovered_block \<Rightarrow> 'l block_buffer \<Rightarrow> 'l block_buffer" where
  "bb_insert_block ops block s =
     (let h = hash block;
          s = s\<lparr>parent_to_child := entry_insert (parent_hash block) h (parent_to_child s)\<rparr>;
          s = s\<lparr>earliest_blocks := entry_insert (number block) h (earliest_blocks s)\<rparr>;
          s = s\<lparr>blocks := fmupd h block (blocks s)\<rparr>;
          (evicted, s) = bb_insert_hash_and_get_evicted ops h s
      in case evicted of
           None \<Rightarrow> s
         | Some evicted_hash \<Rightarrow>
             (case bb_evict_block ops evicted_hash s of
                (None, s) \<Rightarrow> s
              | (Some evicted_block, s) \<Rightarrow>
                  bb_remove_from_parent (parent_hash evicted_block) evicted_hash s))"

definition bb_insert_witness ::
  "b256 \<Rightarrow> execution_witness \<Rightarrow> b256 fset \<Rightarrow> 'l block_buffer \<Rightarrow> 'l block_buffer" where
  "bb_insert_witness h w missing s =
     (let s = s\<lparr>witnesses := fmupd h w (witnesses s)\<rparr>
      in if missing \<noteq> {||}
         then s\<lparr>missing_bytecodes := fmupd h missing (missing_bytecodes s)\<rparr>
         else s)"

definition bb_remove_witness ::
  "b256 \<Rightarrow> 'l block_buffer \<Rightarrow> execution_witness option \<times> 'l block_buffer" where
  "bb_remove_witness h s =
     (if (case fmlookup (missing_bytecodes s) h of None \<Rightarrow> True | Some m \<Rightarrow> m = {||})
      then (fmlookup (witnesses s) h,
            s\<lparr>missing_bytecodes := fmdrop h (missing_bytecodes s),
               witnesses := fmdrop h (witnesses s)\<rparr>)
      else (None, s))"

text \<open>\<open>remove_block\<close> reads the block before it removes the witness, which does not touch the
  blocks: its \<open>unwrap\<close> cannot fail.\<close>

definition bb_remove_block ::
  "'l lru_ops \<Rightarrow> b256 \<Rightarrow> 'l block_buffer
     \<Rightarrow> (recovered_block \<times> execution_witness) option \<times> 'l block_buffer" where
  "bb_remove_block ops h s =
     (case fmlookup (blocks s) h of
        None \<Rightarrow> (None, s)
      | Some block \<Rightarrow>
          (case bb_remove_witness h s of
             (None, s) \<Rightarrow> (None, s)
           | (Some witness, s) \<Rightarrow>
               let s = s\<lparr>blocks := fmdrop h (blocks s)\<rparr>;
                   s = bb_remove_from_earliest_blocks (number block) h s;
                   s = bb_remove_from_parent (parent_hash block) h s;
                   s = s\<lparr>lru := lru_remove ops h (lru s)\<rparr>
               in (Some (block, witness), s)))"

text \<open>The \<open>for\<close> loops over the children of a parent.\<close>

fun bb_remove_each ::
  "'l lru_ops \<Rightarrow> b256 list \<Rightarrow> 'l block_buffer
     \<Rightarrow> (recovered_block \<times> execution_witness) list \<times> 'l block_buffer" where
  "bb_remove_each ops [] s = ([], s)"
| "bb_remove_each ops (h # hs) s =
     (let (removed, s) = bb_remove_block ops h s;
          (rest, s) = bb_remove_each ops hs s
      in (case removed of None \<Rightarrow> rest | Some r \<Rightarrow> r # rest, s))"

definition bb_evict_each :: "'l lru_ops \<Rightarrow> b256 list \<Rightarrow> 'l block_buffer \<Rightarrow> 'l block_buffer" where
  "bb_evict_each ops hs s = fold (\<lambda>h s. snd (bb_evict_block ops h s)) hs s"

lemma bb_remove_block_parents: "fmdom (parent_to_child (snd (bb_remove_block ops h s))) |\<subseteq>| fmdom (parent_to_child s)"
  using entry_remove_dom
  by (fastforce simp: bb_remove_block_def bb_remove_witness_def bb_remove_from_parent_def
        bb_remove_from_earliest_blocks_def Let_def split: option.splits if_splits)

lemma bb_remove_each_parents:
  "fmdom (parent_to_child (snd (bb_remove_each ops hs s))) |\<subseteq>| fmdom (parent_to_child s)"
proof (induction hs arbitrary: s)
  case (Cons h hs)
  show ?case
    using Cons [of "snd (bb_remove_block ops h s)"] bb_remove_block_parents [of ops h s]
    by (auto simp: case_prod_beta)
qed simp

lemma bb_evict_each_parents:
  "fmdom (parent_to_child (bb_evict_each ops hs s)) |\<subseteq>| fmdom (parent_to_child s)"
proof (induction hs arbitrary: s)
  case (Cons h hs)
  have "fmdom (parent_to_child (snd (bb_evict_block ops h s))) |\<subseteq>| fmdom (parent_to_child s)"
    using entry_remove_dom
    by (fastforce simp: bb_evict_block_def bb_remove_from_parent_def
          bb_remove_from_earliest_blocks_def Let_def split: option.splits)
  then show ?case
    using Cons [of "snd (bb_evict_block ops h s)"] by (auto simp: bb_evict_each_def)
qed (simp add: bb_evict_each_def)

text \<open>The \<open>while let\<close> loops, with the stack of parents as a list whose end is popped. Each round
  drops an entry of \<open>parent_to_child\<close> or shortens the stack.\<close>

function bb_remove_children ::
  "(b256 fset \<Rightarrow> b256 list) \<Rightarrow> 'l lru_ops \<Rightarrow> b256 list \<Rightarrow> 'l block_buffer
     \<Rightarrow> (recovered_block \<times> execution_witness) list \<times> 'l block_buffer" where
  "bb_remove_children it ops stack s =
     (if stack = [] then ([], s)
      else
        let parent = last stack; stack = butlast stack
        in case fmlookup (parent_to_child s) parent of
             None \<Rightarrow> bb_remove_children it ops stack s
           | Some children \<Rightarrow>
               let s = s\<lparr>parent_to_child := fmdrop parent (parent_to_child s)\<rparr>;
                   removed = bb_remove_each ops (it children) s;
                   rest = bb_remove_children it ops (stack @ it children) (snd removed)
               in (fst removed @ fst rest, snd rest))"
  by pat_completeness auto
termination
proof (relation "measures [\<lambda>(it, ops, stack, s). fcard (fmdom (parent_to_child s)),
                           \<lambda>(it, ops, stack, s). length stack]", goal_cases)
  case (3 it ops stack s parent stack' children s' removed)
  have "fcard (fmdom (parent_to_child (snd removed))) \<le> fcard (fmdom (parent_to_child s'))"
    unfolding 3 by (rule fcard_mono) (rule bb_remove_each_parents)
  also have "\<dots> < fcard (fmdom (parent_to_child s))"
    using fcard_fmdom_drop [OF 3(4)] by (simp add: 3)
  finally show ?case by simp
qed auto

declare bb_remove_children.simps [simp del]

function bb_evict_children ::
  "(b256 fset \<Rightarrow> b256 list) \<Rightarrow> 'l lru_ops \<Rightarrow> b256 list \<Rightarrow> 'l block_buffer \<Rightarrow> 'l block_buffer" where
  "bb_evict_children it ops stack s =
     (if stack = [] then s
      else
        let parent = last stack; stack = butlast stack
        in case fmlookup (parent_to_child s) parent of
             None \<Rightarrow> bb_evict_children it ops stack s
           | Some children \<Rightarrow>
               let s = s\<lparr>parent_to_child := fmdrop parent (parent_to_child s)\<rparr>;
                   s = bb_evict_each ops (it children) s
               in bb_evict_children it ops (stack @ it children) s)"
  by pat_completeness auto
termination
proof (relation "measures [\<lambda>(it, ops, stack, s). fcard (fmdom (parent_to_child s)),
                           \<lambda>(it, ops, stack, s). length stack]", goal_cases)
  case (3 it ops stack s parent stack' children s' s'')
  have "fcard (fmdom (parent_to_child s'')) \<le> fcard (fmdom (parent_to_child s'))"
    unfolding 3 by (rule fcard_mono) (rule bb_evict_each_parents)
  also have "\<dots> < fcard (fmdom (parent_to_child s))"
    using fcard_fmdom_drop [OF 3(4)] by (simp add: 3)
  finally show ?case by simp
qed auto

declare bb_evict_children.simps [simp del]

definition bb_remove_block_with_children ::
  "(b256 fset \<Rightarrow> b256 list) \<Rightarrow> 'l lru_ops \<Rightarrow> b256 \<Rightarrow> 'l block_buffer
     \<Rightarrow> (recovered_block \<times> execution_witness) list \<times> 'l block_buffer" where
  "bb_remove_block_with_children it ops parent s =
     (let (removed, s) = bb_remove_block ops parent s;
          (children, s) = bb_remove_children it ops [parent] s
      in (case removed of None \<Rightarrow> children | Some r \<Rightarrow> r # children, s))"

definition bb_evict_old_blocks ::
  "(b256 fset \<Rightarrow> b256 list) \<Rightarrow> 'l lru_ops \<Rightarrow> u64 \<Rightarrow> 'l block_buffer \<Rightarrow> 'l block_buffer" where
  "bb_evict_old_blocks it ops block_number s =
     (let (earliest, hashes) =
            drain_first (\<lambda>n. n \<le> block_number) (\<lambda>hs acc. acc @ it hs) (earliest_blocks s) [];
          s = s\<lparr>earliest_blocks := earliest\<rparr>;
          s = bb_evict_each ops hashes s
      in bb_evict_children it ops hashes s)"

definition bb_on_bytecode_received :: "b256 \<Rightarrow> 'l block_buffer \<Rightarrow> b256 fset \<times> 'l block_buffer" where
  "bb_on_bytecode_received code_hash s =
     (let updated = fmmap (\<lambda>missing. missing |-| {|code_hash|}) (missing_bytecodes s);
          ready = ffilter (\<lambda>h. fmlookup updated h = Some {||}) (fmdom updated)
      in (ready, s\<lparr>missing_bytecodes := fmfilter (\<lambda>h. h |\<notin>| ready) updated\<rparr>))"

end
