(* ===== verification/Chain_State.thy ===== *)
theory Chain_State
  imports Block_Index
begin

text \<open>
  The in-memory chain state, \<open>src/crates/provider/src/chain_state.rs\<close>.

  The state is the record behind the \<open>RwLock\<close>; each method takes the lock once, so it is one
  atomic function on the record. \<open>cs_block_hash\<close> follows parent hashes without a bound, so its
  walk returns an option; the theorem about it says when it returns.
\<close>

record chain_state =
  canonical_hashes_by_number :: "(u64, b256) fmap"
  blocks_by_hash :: "(b256, recovered_block) fmap"
  block_hashes_by_number :: "(u64, b256 fset) fmap"
  cs_witnesses :: "(b256, bytes list) fmap"

definition cs_default :: chain_state where
  "cs_default = \<lparr>canonical_hashes_by_number = fmempty, blocks_by_hash = fmempty,
     block_hashes_by_number = fmempty, cs_witnesses = fmempty\<rparr>"

section \<open>Operations\<close>

definition cs_is_hash_canonical :: "chain_state \<Rightarrow> b256 \<Rightarrow> bool" where
  "cs_is_hash_canonical cs h \<longleftrightarrow> h |\<in>| fmran (canonical_hashes_by_number cs)"

text \<open>The \<open>while let\<close> loop of \<open>block_hash\<close>: \<open>Inl\<close> the hash it returns from inside the loop,
  \<open>Inr\<close> the first ancestor that is not an executed block.\<close>

partial_function (option) cs_walk_ancestors ::
  "parent_num_hash \<Rightarrow> (b256, recovered_block) fmap \<Rightarrow> u64 \<Rightarrow> block_num_hash
     \<Rightarrow> (b256 + block_num_hash) option" where
  "cs_walk_ancestors pnh blocks target anc =
     (case fmlookup blocks (bnh_hash anc) of
        None \<Rightarrow> Some (Inr anc)
      | Some block \<Rightarrow>
          if number block = target then Some (Inl (hash block))
          else cs_walk_ancestors pnh blocks target (pnh (header.truncate block)))"

text \<open>After the loop: the target must be canonical, below an ancestor that is canonical.\<close>

definition cs_canonical_fallback :: "chain_state \<Rightarrow> block_num_hash \<Rightarrow> u64 \<Rightarrow> b256 option" where
  "cs_canonical_fallback cs anc target =
     (if target \<le> bnh_number anc \<and>
         fmlookup (canonical_hashes_by_number cs) (bnh_number anc) = Some (bnh_hash anc)
      then fmlookup (canonical_hashes_by_number cs) target
      else None)"

definition cs_block_hash ::
  "parent_num_hash \<Rightarrow> chain_state \<Rightarrow> block_num_hash \<Rightarrow> u64 \<Rightarrow> b256 option option" where
  "cs_block_hash pnh cs parent target = do {
     r \<leftarrow> cs_walk_ancestors pnh (blocks_by_hash cs) target parent;
     case r of
       Inl h \<Rightarrow> Some (Some h)
     | Inr anc \<Rightarrow> Some (cs_canonical_fallback cs anc target)
   }"

definition cs_insert_canonical_hash :: "u64 \<Rightarrow> b256 \<Rightarrow> chain_state \<Rightarrow> chain_state" where
  "cs_insert_canonical_hash n h cs =
     cs\<lparr>canonical_hashes_by_number := fmupd n h (canonical_hashes_by_number cs)\<rparr>"

definition cs_remove_canonical_hash :: "u64 \<Rightarrow> b256 \<Rightarrow> chain_state \<Rightarrow> chain_state" where
  "cs_remove_canonical_hash n h cs =
     (case fmlookup (canonical_hashes_by_number cs) n of
        Some h' \<Rightarrow>
          if h' = h
          then cs\<lparr>canonical_hashes_by_number := fmdrop n (canonical_hashes_by_number cs)\<rparr>
          else cs
      | None \<Rightarrow> cs)"

definition cs_map_recovered_block :: "chain_state \<Rightarrow> b256 \<Rightarrow> (recovered_block \<Rightarrow> 'r) \<Rightarrow> 'r option" where
  "cs_map_recovered_block cs h to_type = map_option to_type (fmlookup (blocks_by_hash cs) h)"

definition cs_block_number :: "chain_state \<Rightarrow> b256 \<Rightarrow> u64 option" where
  "cs_block_number cs h = cs_map_recovered_block cs h number"

definition cs_header :: "chain_state \<Rightarrow> b256 \<Rightarrow> header option" where
  "cs_header cs h = cs_map_recovered_block cs h header.truncate"

definition cs_sealed_header :: "chain_state \<Rightarrow> b256 \<Rightarrow> sealed_header option" where
  "cs_sealed_header cs h = cs_map_recovered_block cs h sealed_header.truncate"

definition cs_block_body :: "chain_state \<Rightarrow> b256 \<Rightarrow> block_body option" where
  "cs_block_body cs h = cs_map_recovered_block cs h body"

definition cs_sealed_block :: "chain_state \<Rightarrow> b256 \<Rightarrow> sealed_block option" where
  "cs_sealed_block cs h = cs_map_recovered_block cs h sealed_block.truncate"

definition cs_recovered_block :: "chain_state \<Rightarrow> b256 \<Rightarrow> recovered_block option" where
  "cs_recovered_block cs h = cs_map_recovered_block cs h id"

definition cs_witness :: "chain_state \<Rightarrow> b256 \<Rightarrow> bytes list option" where
  "cs_witness cs h = fmlookup (cs_witnesses cs) h"

definition cs_insert_block :: "recovered_block \<Rightarrow> bytes list option \<Rightarrow> chain_state \<Rightarrow> chain_state" where
  "cs_insert_block b maybe_witness cs =
     (let cs = cs\<lparr>block_hashes_by_number :=
                 entry_insert (number b) (hash b) (block_hashes_by_number cs)\<rparr>;
          cs = cs\<lparr>blocks_by_hash := fmupd (hash b) b (blocks_by_hash cs)\<rparr>
      in case maybe_witness of
           None \<Rightarrow> cs
         | Some w \<Rightarrow> cs\<lparr>cs_witnesses := fmupd (hash b) w (cs_witnesses cs)\<rparr>)"

text \<open>The two removals inside the first loop of \<open>remove_blocks_on_finalized\<close>, for each hash
  that the popped set yields.\<close>

definition cs_forget_block :: "b256 \<Rightarrow> chain_state \<Rightarrow> chain_state" where
  "cs_forget_block h cs =
     cs\<lparr>blocks_by_hash := fmdrop h (blocks_by_hash cs),
        cs_witnesses := fmdrop h (cs_witnesses cs)\<rparr>"

definition cs_remove_blocks_on_finalized ::
  "(b256 fset \<Rightarrow> b256 list) \<Rightarrow> b256 \<Rightarrow> chain_state \<Rightarrow> chain_state" where
  "cs_remove_blocks_on_finalized it finalized_hash cs =
     (case fmlookup (blocks_by_hash cs) finalized_hash of
        None \<Rightarrow> cs
      | Some finalized \<Rightarrow>
          let finalized_number = number finalized;
              (by_number, cs) =
                drain_first (\<lambda>n. n < finalized_number) (\<lambda>hs cs. fold cs_forget_block (it hs) cs)
                  (block_hashes_by_number cs) cs;
              cs = cs\<lparr>block_hashes_by_number := by_number\<rparr>;
              last_block_hash_number = saturating_sub finalized_number 256;
              (canonical, _) =
                drain_first (\<lambda>n. n < last_block_hash_number) (\<lambda>_ u. u)
                  (canonical_hashes_by_number cs) ()
          in cs\<lparr>canonical_hashes_by_number := canonical\<rparr>)"

text \<open>The steps of the chain state: its four mutating methods. A block is inserted only when
  its hash is not that of a different block.\<close>

inductive cs_step :: "(b256 fset \<Rightarrow> b256 list) \<Rightarrow> chain_state \<Rightarrow> chain_state \<Rightarrow> bool" for it where
  step_insert_canonical: "cs_step it cs (cs_insert_canonical_hash n h cs)"
| step_remove_canonical: "cs_step it cs (cs_remove_canonical_hash n h cs)"
| step_insert_block:
    "no_hash_clash (blocks_by_hash cs) b \<Longrightarrow> cs_step it cs (cs_insert_block b w cs)"
| step_finalized: "cs_step it cs (cs_remove_blocks_on_finalized it h cs)"

section \<open>Well-formedness\<close>

text \<open>Blocks are stored under their hash, the index by number is exact, and a witness is kept
  only with its block.\<close>

definition cs_wf :: "chain_state \<Rightarrow> bool" where
  "cs_wf cs \<longleftrightarrow>
     keyed_by_hash (blocks_by_hash cs) \<and>
     index_sound number (block_hashes_by_number cs) (blocks_by_hash cs) \<and>
     index_complete number (block_hashes_by_number cs) (blocks_by_hash cs) \<and>
     fmdom (cs_witnesses cs) |\<subseteq>| fmdom (blocks_by_hash cs)"

text \<open>With the numbers of parents and children consistent too.\<close>

definition cs_linked :: "chain_state \<Rightarrow> bool" where
  "cs_linked cs \<longleftrightarrow> cs_wf cs \<and> numbers_linked (blocks_by_hash cs)"

lemma cs_wfD:
  assumes "cs_wf cs"
  shows "keyed_by_hash (blocks_by_hash cs)"
    and "index_sound number (block_hashes_by_number cs) (blocks_by_hash cs)"
    and "index_complete number (block_hashes_by_number cs) (blocks_by_hash cs)"
    and "fmdom (cs_witnesses cs) |\<subseteq>| fmdom (blocks_by_hash cs)"
  using assms by (auto simp: cs_wf_def)

lemma cs_wf_default: "cs_wf cs_default"
  by (simp add: cs_wf_def cs_default_def)

lemma cs_linked_default: "cs_linked cs_default"
  by (simp add: cs_linked_def cs_wf_default) (simp add: cs_default_def)

section \<open>The views of a chain state\<close>

lemmas cs_getters = cs_block_number_def cs_header_def cs_sealed_header_def cs_block_body_def
  cs_sealed_block_def cs_recovered_block_def cs_map_recovered_block_def cs_witness_def

lemma cs_insert_block_views [view_simps]:
  "blocks_by_hash (cs_insert_block b w cs) = fmupd (hash b) b (blocks_by_hash cs)"
  "block_hashes_by_number (cs_insert_block b w cs) =
     entry_insert (number b) (hash b) (block_hashes_by_number cs)"
  "canonical_hashes_by_number (cs_insert_block b w cs) = canonical_hashes_by_number cs"
  "cs_witnesses (cs_insert_block b w cs) =
     (case w of None \<Rightarrow> cs_witnesses cs | Some w \<Rightarrow> fmupd (hash b) w (cs_witnesses cs))"
  by (auto simp: cs_insert_block_def Let_def split: option.splits)

lemma cs_insert_canonical_views [view_simps]:
  "blocks_by_hash (cs_insert_canonical_hash n h cs) = blocks_by_hash cs"
  "block_hashes_by_number (cs_insert_canonical_hash n h cs) = block_hashes_by_number cs"
  "cs_witnesses (cs_insert_canonical_hash n h cs) = cs_witnesses cs"
  "canonical_hashes_by_number (cs_insert_canonical_hash n h cs) =
     fmupd n h (canonical_hashes_by_number cs)"
  by (simp_all add: cs_insert_canonical_hash_def)

lemma cs_remove_canonical_views [view_simps]:
  "blocks_by_hash (cs_remove_canonical_hash n h cs) = blocks_by_hash cs"
  "block_hashes_by_number (cs_remove_canonical_hash n h cs) = block_hashes_by_number cs"
  "cs_witnesses (cs_remove_canonical_hash n h cs) = cs_witnesses cs"
  "fmlookup (canonical_hashes_by_number (cs_remove_canonical_hash n h cs)) m =
     (if m = n \<and> fmlookup (canonical_hashes_by_number cs) n = Some h then None
      else fmlookup (canonical_hashes_by_number cs) m)"
  by (auto simp: cs_remove_canonical_hash_def split: option.splits)

lemma cs_forget_blocks_views [view_simps]:
  "fmlookup (blocks_by_hash (fold cs_forget_block hs cs)) h =
     (if h \<in> set hs then None else fmlookup (blocks_by_hash cs) h)"
  "fmlookup (cs_witnesses (fold cs_forget_block hs cs)) h =
     (if h \<in> set hs then None else fmlookup (cs_witnesses cs) h)"
  "block_hashes_by_number (fold cs_forget_block hs cs) = block_hashes_by_number cs"
  "canonical_hashes_by_number (fold cs_forget_block hs cs) = canonical_hashes_by_number cs"
  by (induction hs arbitrary: cs) (auto simp: cs_forget_block_def)

text \<open>The first loop of the pruning, on any chain state: it forgets the blocks indexed below the
  threshold.\<close>

lemma cs_drain_blocks:
  fixes cs :: chain_state and n :: u64
  assumes "iteration_order it"
  defines "r \<equiv> drain_first (\<lambda>k. k < n) (\<lambda>hs cs. fold cs_forget_block (it hs) cs)
                 (block_hashes_by_number cs) cs"
    and "gone \<equiv> \<lambda>h. \<exists>k. entry (block_hashes_by_number cs) k h \<and> k < n"
  shows "fst r = fmfilter (\<lambda>k. \<not> k < n) (block_hashes_by_number cs)"
    and "fmlookup (blocks_by_hash (snd r)) h = (if gone h then None else fmlookup (blocks_by_hash cs) h)"
    and "fmlookup (cs_witnesses (snd r)) h = (if gone h then None else fmlookup (cs_witnesses cs) h)"
    and "canonical_hashes_by_number (snd r) = canonical_hashes_by_number cs"
proof -
  let ?idx = "block_hashes_by_number cs"
  define I where "I m s \<longleftrightarrow> m \<subseteq>\<^sub>f ?idx \<and>
    canonical_hashes_by_number s = canonical_hashes_by_number cs \<and>
    (\<forall>h. fmlookup (blocks_by_hash s) h =
       (if \<exists>k. entry ?idx k h \<and> fmlookup m k = None then None else fmlookup (blocks_by_hash cs) h)) \<and>
    (\<forall>h. fmlookup (cs_witnesses s) h =
       (if \<exists>k. entry ?idx k h \<and> fmlookup m k = None then None else fmlookup (cs_witnesses cs) h))"
    for m and s :: chain_state
  have "I ?idx cs" by (auto simp: I_def fmsubset_alt_def elim: entryE)
  moreover have "I (fmdrop k m) (fold cs_forget_block (it v) s)"
    if I: "I m s" and k: "fmlookup m k = Some v" for m k v s
  proof -
    have v: "fmlookup ?idx k = Some v"
      using I k by (auto simp: I_def fmsubset_alt_def fmpred_iff)
    have "(\<exists>k'. entry ?idx k' h \<and> fmlookup (fmdrop k m) k' = None) \<longleftrightarrow>
          h |\<in>| v \<or> (\<exists>k'. entry ?idx k' h \<and> fmlookup m k' = None)" for h
      using entry_lookup_Some [OF v] k by auto
    with I show ?thesis
      by (auto simp: I_def view_simps iteration_order_set [OF assms(1)] fmsubset_alt_def fmpred_iff)
  qed
  ultimately have "I (fst r) (snd r)"
    unfolding r_def by (rule drain_first_invariant) auto
  moreover show m: "fst r = fmfilter (\<lambda>k. \<not> k < n) ?idx"
    unfolding r_def by (rule drain_first_map) (rule down_closed_less)
  moreover have "(\<exists>k. entry ?idx k h \<and> fmlookup (fst r) k = None) \<longleftrightarrow> gone h" for h
  proof -
    have "entry ?idx k h \<and> fmlookup (fst r) k = None \<longleftrightarrow> entry ?idx k h \<and> k < n" for k
      by (auto simp: m elim: entryE)
    then show ?thesis by (simp add: gone_def)
  qed
  ultimately show
    "fmlookup (blocks_by_hash (snd r)) h = (if gone h then None else fmlookup (blocks_by_hash cs) h)"
    "fmlookup (cs_witnesses (snd r)) h = (if gone h then None else fmlookup (cs_witnesses cs) h)"
    "canonical_hashes_by_number (snd r) = canonical_hashes_by_number cs"
    by (simp_all add: I_def)
qed

lemma cs_finalized_views:
  assumes it: "iteration_order it" and wf: "cs_wf cs"
    and fin: "fmlookup (blocks_by_hash cs) f = Some b"
  shows "fmlookup (blocks_by_hash (cs_remove_blocks_on_finalized it f cs)) h =
           (case fmlookup (blocks_by_hash cs) h of None \<Rightarrow> None
            | Some x \<Rightarrow> if number x < number b then None else Some x)"
    and "fmlookup (cs_witnesses (cs_remove_blocks_on_finalized it f cs)) h =
           (if \<exists>x. fmlookup (blocks_by_hash cs) h = Some x \<and> number x < number b then None
            else fmlookup (cs_witnesses cs) h)"
    and "block_hashes_by_number (cs_remove_blocks_on_finalized it f cs) =
           fmfilter (\<lambda>n. \<not> n < number b) (block_hashes_by_number cs)"
    and "canonical_hashes_by_number (cs_remove_blocks_on_finalized it f cs) =
           fmfilter (\<lambda>n. \<not> n < saturating_sub (number b) 256) (canonical_hashes_by_number cs)"
  using cs_drain_blocks [OF it, where n = "number b" and cs = cs]
  by (auto simp: cs_remove_blocks_on_finalized_def Let_def case_prod_beta fin
        drain_first_map [OF down_closed_less] index_exact [OF cs_wfD(2,3) [OF wf]]
        split: option.splits)

lemma cs_not_finalized:
  "fmlookup (blocks_by_hash cs) f = None \<Longrightarrow> cs_remove_blocks_on_finalized it f cs = cs"
  by (simp add: cs_remove_blocks_on_finalized_def)

lemma cs_finalized_subset:
  assumes "iteration_order it" "cs_wf cs"
  shows "blocks_by_hash (cs_remove_blocks_on_finalized it f cs) \<subseteq>\<^sub>f blocks_by_hash cs"
proof (cases "fmlookup (blocks_by_hash cs) f")
  case None
  then show ?thesis by (simp add: cs_not_finalized fmsubset_alt_def fmpred_iff)
next
  case (Some b)
  then show ?thesis
    by (auto simp: fmsubset_alt_def fmpred_iff cs_finalized_views(1) [OF assms Some]
          split: option.splits if_splits)
qed

section \<open>The operations keep the invariant\<close>

lemma cs_wf_insert_block [wf_intros]:
  assumes "cs_wf cs" "no_hash_clash (blocks_by_hash cs) b"
  shows "cs_wf (cs_insert_block b w cs)"
proof -
  have "number b' = number b" if "fmlookup (blocks_by_hash cs) (hash b) = Some b'" for b'
    using assms(2) that by (simp add: no_hash_clash_def)
  then show ?thesis
    using cs_wfD [OF assms(1)]
    by (auto simp: cs_wf_def view_simps split: option.splits intro!: wf_intros)
qed

lemma cs_wf_canonical [wf_intros]:
  "cs_wf cs \<Longrightarrow> cs_wf (cs_insert_canonical_hash n h cs)"
  "cs_wf cs \<Longrightarrow> cs_wf (cs_remove_canonical_hash n h cs)"
  by (simp_all add: cs_wf_def view_simps)

lemma cs_wf_finalized [wf_intros]:
  assumes "iteration_order it" "cs_wf cs"
  shows "cs_wf (cs_remove_blocks_on_finalized it f cs)"
proof (cases "fmlookup (blocks_by_hash cs) f")
  case None
  with assms show ?thesis by (simp add: cs_not_finalized)
next
  case (Some b)
  note views = cs_finalized_views [OF assms Some]
  note wf = cs_wfD [OF assms(2)]
  let ?bs = "blocks_by_hash (cs_remove_blocks_on_finalized it f cs)"
  have "keyed_by_hash ?bs"
    using wf(1) cs_finalized_subset [OF assms] by (rule keyed_by_hash_subset)
  moreover have
    "index_sound number (fmfilter (\<lambda>n. \<not> n < number b) (block_hashes_by_number cs)) ?bs"
    "index_complete number (fmfilter (\<lambda>n. \<not> n < number b) (block_hashes_by_number cs)) ?bs"
    using index_filter [OF wf(2,3) views(1)] by auto
  moreover have "fmdom (cs_witnesses (cs_remove_blocks_on_finalized it f cs)) |\<subseteq>| fmdom ?bs"
  proof (rule fsubsetI)
    fix h assume "h |\<in>| fmdom (cs_witnesses (cs_remove_blocks_on_finalized it f cs))"
    then obtain w where w: "fmlookup (cs_witnesses cs) h = Some w"
      and kept: "\<not> (\<exists>x. fmlookup (blocks_by_hash cs) h = Some x \<and> number x < number b)"
      by (auto simp: fmlookup_dom_iff views(2) split: if_splits)
    from w wf(4) obtain x where "fmlookup (blocks_by_hash cs) h = Some x"
      by (metis fmdomE fmdomI fsubsetD)
    with kept show "h |\<in>| fmdom ?bs" by (auto simp: fmlookup_dom_iff views(1))
  qed
  ultimately show ?thesis by (simp add: cs_wf_def views(3))
qed

lemma cs_step_wf: "iteration_order it \<Longrightarrow> cs_wf cs \<Longrightarrow> cs_step it cs cs' \<Longrightarrow> cs_wf cs'"
  by (erule cs_step.cases) (auto intro: wf_intros)

section \<open>The interfaces the chain state provides\<close>

interpretation executed: header_chain "\<lambda>cs. fmlookup (blocks_by_hash cs)" cs_linked
  by unfold_locales
    (auto simp: cs_linked_def dest: cs_wfD(1) keyed_by_hashD numbers_linkedD)

interpretation cs_machine: invariant_system "\<lambda>cs. cs = cs_default" "cs_step it"
    "\<lambda>cs. iteration_order it \<longrightarrow> cs_wf cs" for it
  by unfold_locales (auto simp: cs_wf_default intro: cs_step_wf)

section \<open>Block hashes by number\<close>

abbreviation executed_ancestor :: "chain_state \<Rightarrow> b256 \<Rightarrow> b256 \<Rightarrow> bool" where
  "executed_ancestor cs \<equiv> ancestor (fmlookup (blocks_by_hash cs))"

lemma cs_walk_ancestors_step:
  "fmlookup bs (bnh_hash a) = Some b \<Longrightarrow> cs_walk_ancestors pnh bs n a =
     (if number b = n then Some (Inl (hash b))
      else cs_walk_ancestors pnh bs n (pnh (header.truncate b)))"
  "fmlookup bs (bnh_hash a) = None \<Longrightarrow> cs_walk_ancestors pnh bs n a = Some (Inr a)"
  by (simp_all add: cs_walk_ancestors.simps)

text \<open>What the walk finds from \<open>h\<close>: the executed ancestor with the number, or, when there is
  none, the first ancestor that is not executed.\<close>

definition walk_finds :: "chain_state \<Rightarrow> u64 \<Rightarrow> b256 \<Rightarrow> b256 + block_num_hash \<Rightarrow> bool" where
  "walk_finds cs n h r \<longleftrightarrow>
     (case r of
        Inl x \<Rightarrow> executed_ancestor cs h x \<and>
                 (\<exists>b. fmlookup (blocks_by_hash cs) x = Some b \<and> number b = n)
      | Inr c \<Rightarrow> executed_ancestor cs h (bnh_hash c) \<and>
                 fmlookup (blocks_by_hash cs) (bnh_hash c) = None \<and>
                 (\<forall>x b. executed_ancestor cs h x \<longrightarrow>
                        fmlookup (blocks_by_hash cs) x = Some b \<longrightarrow> number b \<noteq> n))"

text \<open>Where the walk from \<open>a\<close> may stop: at \<open>a\<close> itself, or at the parent of an executed ancestor.\<close>

definition walk_stops :: "parent_num_hash \<Rightarrow> chain_state \<Rightarrow> block_num_hash \<Rightarrow> b256 + block_num_hash \<Rightarrow> bool" where
  "walk_stops pnh cs a r \<longleftrightarrow>
     (case r of
        Inl x \<Rightarrow> True
      | Inr c \<Rightarrow> c = a \<or> (\<exists>x b. executed_ancestor cs (bnh_hash a) x \<and>
                 fmlookup (blocks_by_hash cs) x = Some b \<and> c = pnh (header.truncate b)))"

lemma walk_finds_parent:
  assumes b: "fmlookup (blocks_by_hash cs) h = Some b" and "number b \<noteq> n"
    and "walk_finds cs n (parent_hash b) r"
  shows "walk_finds cs n h r"
proof -
  have "executed_ancestor cs h x \<longleftrightarrow> x = h \<or> executed_ancestor cs (parent_hash b) x" for x
    using b by (rule ancestor_Some)
  with assms show ?thesis by (auto simp: walk_finds_def split: sum.splits)
qed

lemma walk_stops_parent:
  assumes pnh: "parent_num_hash_spec pnh" and b: "fmlookup (blocks_by_hash cs) (bnh_hash a) = Some b"
    and "walk_stops pnh cs (pnh (header.truncate b)) r"
  shows "walk_stops pnh cs a r"
proof -
  have "executed_ancestor cs (bnh_hash a) x"
    if "x = bnh_hash a \<or> executed_ancestor cs (bnh_hash (pnh (header.truncate b))) x" for x
    using that ancestor_Some [where get = "fmlookup (blocks_by_hash cs)", OF b] pnh by (auto simp: parent_num_hash_hash)
  with assms show ?thesis unfolding walk_stops_def by (fastforce split: sum.splits)
qed

lemma cs_walk_ancestors_result:
  assumes cs: "cs_linked cs" and pnh: "parent_num_hash_spec pnh"
  shows "\<exists>r. cs_walk_ancestors pnh (blocks_by_hash cs) n a = Some r \<and> walk_finds cs n (bnh_hash a) r \<and>
    walk_stops pnh cs a r"
  using cs
proof (induction "bnh_hash a" arbitrary: a rule: executed.parent_induct)
  case parent
  show ?case
  proof (cases "fmlookup (blocks_by_hash cs) (bnh_hash a)")
    case None
    then show ?thesis by (auto simp: cs_walk_ancestors_step walk_finds_def walk_stops_def ancestor_None)
  next
    case (Some b)
    have h: "hash b = bnh_hash a" using cs Some by (rule executed.keyed)
    show ?thesis
    proof (cases "number b = n")
      case True
      with Some h show ?thesis
        by (auto simp: cs_walk_ancestors_step walk_finds_def walk_stops_def intro: ancestor_refl)
    next
      case False
      have "parent_hash b = bnh_hash (pnh (header.truncate b))"
        using pnh by (simp add: parent_num_hash_hash)
      with parent [OF Some this] show ?thesis
        using walk_finds_parent [OF Some False] walk_stops_parent [OF pnh Some]
        by (auto simp: cs_walk_ancestors_step(1) [OF Some] False)
    qed
  qed
qed

section \<open>Properties\<close>

text \<open>(C16) Every chain state that the methods of \<open>ChainState\<close> can produce from the empty one is
  well-formed: each block is stored under its own hash, \<open>block_hashes_by_number\<close> lists exactly
  the stored blocks, each under its number and with no empty set left over, and every stored
  witness belongs to a stored block. Pruning on finalization is one of the steps.\<close>

theorem cs_reachable_wf:
  assumes "iteration_order it" and "reachable (\<lambda>cs. cs = cs_default) (cs_step it) cs"
  shows "cs_wf cs"
  using cs_machine.reachable_inv [OF assms(2)] assms(1) by simp

theorem cs_reachable_wf_witness:
  "cs_wf (cs_remove_blocks_on_finalized sorted_list_of_fset 7
            (cs_insert_block (sample_block 7 0 1) (Some [[1]]) cs_default))"
proof (rule cs_reachable_wf [OF iteration_order_sorted])
  let ?reach = "reachable (\<lambda>cs. cs = cs_default) (cs_step sorted_list_of_fset)"
  have "?reach cs_default" by (rule reachable_init) simp
  then have "?reach (cs_insert_block (sample_block 7 0 1) (Some [[1]]) cs_default)"
    by (rule reachable_step) (rule step_insert_block, simp add: no_hash_clash_def cs_default_def)
  then show "?reach (cs_remove_blocks_on_finalized sorted_list_of_fset 7
      (cs_insert_block (sample_block 7 0 1) (Some [[1]]) cs_default))"
    by (rule reachable_step) (rule step_finalized)
qed

text \<open>(C17) \<open>ChainState::block_hash\<close> returns on every chain state whose stored parents and children
  have consecutive numbers, and its answer is the one the EVM needs: the executed ancestor of
  \<open>parent\<close> with the requested number when there is one, whatever the canonical chain says about
  that number. Otherwise let \<open>c\<close> be where the executed ancestors end: \<open>parent\<close> itself when it is not
  executed, or else the parent of an executed ancestor, with its number. The answer is then the
  canonical hash of the number, given only when \<open>c\<close> is canonical at its own number and the requested
  number is not above it; in every other case there is none.\<close>

theorem cs_block_hash_correct:
  assumes "cs_linked cs" and "parent_num_hash_spec pnh"
  shows "\<exists>r. cs_block_hash pnh cs parent n = Some r \<and>
    (\<forall>h b. executed_ancestor cs (bnh_hash parent) h \<longrightarrow>
           fmlookup (blocks_by_hash cs) h = Some b \<longrightarrow> number b = n \<longrightarrow> r = Some h) \<and>
    ((\<forall>h b. executed_ancestor cs (bnh_hash parent) h \<longrightarrow>
            fmlookup (blocks_by_hash cs) h = Some b \<longrightarrow> number b \<noteq> n) \<longrightarrow>
     (\<exists>c. executed_ancestor cs (bnh_hash parent) (bnh_hash c) \<and>
          fmlookup (blocks_by_hash cs) (bnh_hash c) = None \<and>
          (c = parent \<or> (\<exists>x b. executed_ancestor cs (bnh_hash parent) x \<and> fmlookup (blocks_by_hash cs) x = Some b \<and>
             bnh_hash c = parent_hash b \<and> bnh_number c = (if number b = 0 then 0 else number b - 1))) \<and>
          (\<forall>h. r = Some h \<longleftrightarrow>
             n \<le> bnh_number c \<and>
             fmlookup (canonical_hashes_by_number cs) (bnh_number c) = Some (bnh_hash c) \<and>
             fmlookup (canonical_hashes_by_number cs) n = Some h)))"
proof -
  obtain r where r: "cs_walk_ancestors pnh (blocks_by_hash cs) n parent = Some r"
    and walk: "walk_finds cs n (bnh_hash parent) r" and stop: "walk_stops pnh cs parent r"
    using cs_walk_ancestors_result [OF assms] by blast
  show ?thesis
  proof (cases r)
    case (Inl h)
    then show ?thesis
      using walk r executed.ancestor_number_unique [OF assms(1)] by (auto simp: cs_block_hash_def walk_finds_def)
  next
    case (Inr c)
    have end_of_walk: "c = parent \<or> (\<exists>x b. executed_ancestor cs (bnh_hash parent) x \<and>
        fmlookup (blocks_by_hash cs) x = Some b \<and>
        bnh_hash c = parent_hash b \<and> bnh_number c = (if number b = 0 then 0 else number b - 1))"
    proof (cases "c = parent")
      case False
      with stop Inr obtain x b where x: "executed_ancestor cs (bnh_hash parent) x"
        "fmlookup (blocks_by_hash cs) x = Some b" "c = pnh (header.truncate b)" by (auto simp: walk_stops_def)
      then have "bnh_hash c = parent_hash b" "bnh_number c = (if number b = 0 then 0 else number b - 1)"
        using parent_num_hash_hash [OF assms(2)] parent_num_hash_number [OF assms(2)] by simp_all
      with x(1,2) show ?thesis by blast
    qed simp
    have "cs_block_hash pnh cs parent n = Some (cs_canonical_fallback cs c n)"
      using r Inr by (simp add: cs_block_hash_def)
    moreover have "cs_canonical_fallback cs c n = Some h \<longleftrightarrow>
        n \<le> bnh_number c \<and> fmlookup (canonical_hashes_by_number cs) (bnh_number c) = Some (bnh_hash c) \<and>
        fmlookup (canonical_hashes_by_number cs) n = Some h" for h
      by (auto simp: cs_canonical_fallback_def)
    moreover have "executed_ancestor cs (bnh_hash parent) (bnh_hash c)" "fmlookup (blocks_by_hash cs) (bnh_hash c) = None"
      "\<forall>h b. executed_ancestor cs (bnh_hash parent) h \<longrightarrow> fmlookup (blocks_by_hash cs) h = Some b \<longrightarrow> number b \<noteq> n"
      using walk Inr by (simp_all add: walk_finds_def)
    ultimately show ?thesis using end_of_walk by blast
  qed
qed

text \<open>An executed block 7 of number 2 on the parent 8 of number 1, and canonical hashes for 0, 1 and 5.\<close>

definition fallback_state :: "b256 \<Rightarrow> chain_state" where
  "fallback_state h = cs_insert_canonical_hash 5 3 (cs_insert_canonical_hash 1 h (cs_insert_canonical_hash 0 9
     (cs_insert_block (sample_block 7 8 2) None cs_default)))"

lemma fallback_state_views:
  "blocks_by_hash (fallback_state h) = fmupd 7 (sample_block 7 8 2) fmempty"
  "canonical_hashes_by_number (fallback_state h) = fmupd 5 3 (fmupd 1 h (fmupd 0 9 fmempty))"
  by (simp_all add: fallback_state_def view_simps) (simp_all add: cs_default_def)

lemma fallback_state_linked: "cs_linked (fallback_state h)"
proof -
  have "cs_wf (fallback_state h)"
    unfolding fallback_state_def
    by (intro wf_intros) (simp_all add: cs_wf_default, simp add: no_hash_clash_def cs_default_def)
  moreover have "numbers_linked (blocks_by_hash (fallback_state h))"
    unfolding fallback_state_views by (rule numbers_linkedI) (auto split: if_splits)
  ultimately show ?thesis by (simp add: cs_linked_def)
qed

lemma fallback_state_ancestors:
  "ancestor (fmlookup (fmupd 7 (sample_block 7 8 2) fmempty)) 7 x \<longleftrightarrow> x = 7 \<or> x = 8"
  using ancestor_Some [of "fmlookup (fmupd 7 (sample_block 7 8 2) fmempty)" 7 "sample_block 7 8 2" x]
    ancestor_None [of "fmlookup (fmupd 7 (sample_block 7 8 2) fmempty)" 8 x]
  by simp

theorem cs_block_hash_correct_witness:
  "cs_block_hash plain_parent_num_hash (fallback_state 8) \<lparr>bnh_number = 2, bnh_hash = 7\<rparr> 2 = Some (Some 7) \<and>
   cs_block_hash plain_parent_num_hash (fallback_state 8) \<lparr>bnh_number = 2, bnh_hash = 7\<rparr> 0 = Some (Some 9) \<and>
   cs_block_hash plain_parent_num_hash (fallback_state 8) \<lparr>bnh_number = 2, bnh_hash = 7\<rparr> 5 = Some None \<and>
   cs_block_hash plain_parent_num_hash (fallback_state 6) \<lparr>bnh_number = 2, bnh_hash = 7\<rparr> 0 = Some None"
proof -
  let ?parent = "\<lparr>bnh_number = 2, bnh_hash = 7\<rparr>"
  note correct = cs_block_hash_correct [OF fallback_state_linked plain_parent_num_hash_spec, of _ ?parent]
  have executed: "cs_block_hash plain_parent_num_hash (fallback_state 8) ?parent 2 = Some (Some 7)"
    using correct [of 8 2] by (elim exE conjE) (simp add: fallback_state_ancestors fallback_state_views)
  have fallback: "\<exists>r. cs_block_hash plain_parent_num_hash (fallback_state h) ?parent n = Some r \<and>
      (\<forall>x. r = Some x \<longleftrightarrow> n \<le> 1 \<and> h = 8 \<and> fmlookup (canonical_hashes_by_number (fallback_state h)) n = Some x)"
    if "n \<noteq> 2" for h n
    using correct [of h n] that
    by (elim exE conjE) (auto simp: fallback_state_ancestors fallback_state_views split: if_splits)
  have "cs_block_hash plain_parent_num_hash (fallback_state 8) ?parent 0 = Some (Some 9)"
    using fallback [of 0 8] by (auto simp: fallback_state_views)
  moreover have "cs_block_hash plain_parent_num_hash (fallback_state 8) ?parent 5 = Some None"
    using fallback [of 5 8] by (auto simp: word_le_nat_alt)
  moreover have "cs_block_hash plain_parent_num_hash (fallback_state 6) ?parent 0 = Some None"
    using fallback [of 0 6] by auto
  ultimately show ?thesis using executed by simp
qed

text \<open>(C22) \<open>remove_blocks_on_finalized\<close> prunes exactly what it says: with the finalized block
  stored, a block (and its witness) survives if and only if its number is at least the finalized
  number, so the finalized block itself survives, and the canonical hash of a number survives if
  and only if the number is at least the finalized number minus 256, where the subtraction stops at 0. With
  an unknown finalized hash nothing changes.\<close>

theorem cs_finalized_exact:
  assumes "iteration_order it" and "cs_wf cs"
  shows "case cs_recovered_block cs f of
      None \<Rightarrow> cs_remove_blocks_on_finalized it f cs = cs
    | Some b \<Rightarrow> let cs' = cs_remove_blocks_on_finalized it f cs in
        cs_recovered_block cs' f = Some b \<and>
        (\<forall>h x. cs_recovered_block cs' h = Some x \<longleftrightarrow>
               cs_recovered_block cs h = Some x \<and> number b \<le> number x) \<and>
        (\<forall>h w. cs_witness cs' h = Some w \<longleftrightarrow>
               cs_witness cs h = Some w \<and> (\<exists>x. cs_recovered_block cs h = Some x \<and> number b \<le> number x)) \<and>
        (\<forall>n h. fmlookup (canonical_hashes_by_number cs') n = Some h \<longleftrightarrow>
               fmlookup (canonical_hashes_by_number cs) n = Some h \<and> unat (number b) \<le> unat n + 256)"
proof (cases "fmlookup (blocks_by_hash cs) f")
  case None
  then show ?thesis by (simp add: cs_getters cs_not_finalized)
next
  case (Some b)
  note views = cs_finalized_views [OF assms Some]
  have "\<exists>x. fmlookup (blocks_by_hash cs) h = Some x" if "fmlookup (cs_witnesses cs) h = Some w" for h w
    using cs_wfD(4) [OF assms(2)] that by (metis fmdomE fmdomI fsubsetD)
  then show ?thesis
    using Some
    by (fastforce simp: cs_getters Let_def views not_less word_le_nat_alt unat_saturating_sub
          word_less_nat_alt option.map_id split: option.splits if_splits)
qed

theorem cs_finalized_exact_witness:
  "cs_recovered_block (cs_remove_blocks_on_finalized sorted_list_of_fset 8
       (cs_insert_block (sample_block 8 7 3) None (cs_insert_block (sample_block 7 0 2) None cs_default))) 7
     = None"
proof -
  let ?cs = "cs_insert_block (sample_block 8 7 3) None (cs_insert_block (sample_block 7 0 2) None cs_default)"
  have "cs_wf ?cs"
    by (intro wf_intros) (simp_all add: cs_wf_default no_hash_clash_def view_simps, simp_all add: cs_default_def)
  moreover have "cs_recovered_block ?cs 8 = Some (sample_block 8 7 3)"
    "cs_recovered_block ?cs 7 = Some (sample_block 7 0 2)"
    by (simp_all add: cs_getters view_simps)
  ultimately have "cs_recovered_block (cs_remove_blocks_on_finalized sorted_list_of_fset 8 ?cs) 7 \<noteq> Some x" for x
    using cs_finalized_exact [OF iteration_order_sorted, of ?cs 8] by (auto simp: Let_def)
  then show ?thesis
    by (cases "cs_recovered_block (cs_remove_blocks_on_finalized sorted_list_of_fset 8 ?cs) 7") auto
qed

end
