(* ===== verification/Database.thy ===== *)
theory Database
  imports Primitives
begin

text \<open>
  The persisted bytecode store, \<open>src/crates/provider/src/database.rs\<close>.

  The transactional database is reth's. Its calls are the fields of \<open>db_ops\<close>: \<open>'d\<close> is the
  environment, \<open>'t\<close> a transaction or a cursor, and every call can fail. \<open>db_spec\<close> states what
  reth's documentation promises, through the table a transaction sees: a commit takes effect as a
  whole or not at all. A bytecode is analysed code, and what the table keeps of it are its original
  bytes, \<open>orig\<close>: the value that is read back may carry another jump table than the one that was
  inserted, which is why the unit test of the sources compares the original bytes only.
\<close>

type_synonym db_error = string
type_synonym bytecode = bytes

record ('d, 't) db_ops =
  db_tx :: "'d \<Rightarrow> db_error + 't"
  db_tx_mut :: "'d \<Rightarrow> db_error + 't"
  tx_get :: "b256 \<Rightarrow> 't \<Rightarrow> db_error + bytecode option"
  tx_put :: "b256 \<Rightarrow> bytecode \<Rightarrow> 't \<Rightarrow> db_error + 't"
  tx_commit :: "'t \<Rightarrow> 'd \<Rightarrow> (db_error + unit) \<times> 'd"
  tx_cursor_read :: "'t \<Rightarrow> db_error + 't"
  cursor_seek_exact :: "b256 \<Rightarrow> 't \<Rightarrow> (db_error + (b256 \<times> bytecode) option) \<times> 't"

definition db_spec ::
  "('d, 't) db_ops \<Rightarrow> (bytecode \<Rightarrow> bytes) \<Rightarrow> ('d \<Rightarrow> b256 \<rightharpoonup> bytes) \<Rightarrow> ('t \<Rightarrow> b256 \<rightharpoonup> bytes) \<Rightarrow> bool" where
  "db_spec ops orig table seen \<longleftrightarrow>
     (\<forall>d t. db_tx ops d = Inr t \<longrightarrow> seen t = table d) \<and>
     (\<forall>d t. db_tx_mut ops d = Inr t \<longrightarrow> seen t = table d) \<and>
     (\<forall>k t v. tx_get ops k t = Inr v \<longrightarrow> map_option orig v = seen t k) \<and>
     (\<forall>k v t t'. tx_put ops k v t = Inr t' \<longrightarrow> seen t' = (seen t)(k \<mapsto> orig v)) \<and>
     (\<forall>t d u d'. tx_commit ops t d = (Inr u, d') \<longrightarrow> table d' = seen t) \<and>
     (\<forall>t d e d'. tx_commit ops t d = (Inl e, d') \<longrightarrow> table d' = table d) \<and>
     (\<forall>t c. tx_cursor_read ops t = Inr c \<longrightarrow> seen c = seen t) \<and>
     (\<forall>k c r. fst (cursor_seek_exact ops k c) = Inr r \<longrightarrow>
        map_option (map_prod id orig) r = map_option (Pair k) (seen c k)) \<and>
     (\<forall>k c. seen (snd (cursor_seek_exact ops k c)) = seen c)"

section \<open>Operations\<close>

definition db_get_bytecode :: "('d, 't) db_ops \<Rightarrow> 'd \<Rightarrow> b256 \<Rightarrow> db_error + bytecode option" where
  "db_get_bytecode ops d code_hash =
     (case db_tx ops d of Inl e \<Rightarrow> Inl e | Inr tx \<Rightarrow> tx_get ops code_hash tx)"

definition db_bytecode_exists :: "('d, 't) db_ops \<Rightarrow> 'd \<Rightarrow> b256 \<Rightarrow> db_error + bool" where
  "db_bytecode_exists ops d code_hash =
     (case db_get_bytecode ops d code_hash of Inl e \<Rightarrow> Inl e | Inr r \<Rightarrow> Inr (r \<noteq> None))"

definition db_insert_bytecode ::
  "('d, 't) db_ops \<Rightarrow> b256 \<Rightarrow> bytecode \<Rightarrow> 'd \<Rightarrow> (db_error + unit) \<times> 'd" where
  "db_insert_bytecode ops code_hash bytecode d =
     (case db_tx_mut ops d of
        Inl e \<Rightarrow> (Inl e, d)
      | Inr tx \<Rightarrow>
          (case tx_put ops code_hash bytecode tx of
             Inl e \<Rightarrow> (Inl e, d)
           | Inr tx \<Rightarrow>
               (case tx_commit ops tx d of
                  (Inl e, d) \<Rightarrow> (Inl e, d)
                | (Inr _, d) \<Rightarrow> (Inr (), d))))"

text \<open>The \<open>for\<close> loop of \<open>missing_code_hashes\<close> over the sorted hashes.\<close>

fun db_seek_missing ::
  "('d, 't) db_ops \<Rightarrow> b256 list \<Rightarrow> 't \<Rightarrow> b256 fset \<Rightarrow> db_error + b256 fset" where
  "db_seek_missing ops [] cursor missing = Inr missing"
| "db_seek_missing ops (h # hs) cursor missing =
     (case cursor_seek_exact ops h cursor of
        (Inl e, cursor) \<Rightarrow> Inl e
      | (Inr None, cursor) \<Rightarrow> db_seek_missing ops hs cursor (finsert h missing)
      | (Inr (Some _), cursor) \<Rightarrow> db_seek_missing ops hs cursor missing)"

definition db_missing_code_hashes ::
  "('d, 't) db_ops \<Rightarrow> 'd \<Rightarrow> b256 fset \<Rightarrow> db_error + b256 fset" where
  "db_missing_code_hashes ops d code_hashes =
     (case db_tx ops d of
        Inl e \<Rightarrow> Inl e
      | Inr tx \<Rightarrow>
          (case tx_cursor_read ops tx of
             Inl e \<Rightarrow> Inl e
           | Inr cursor \<Rightarrow> db_seek_missing ops (sorted_list_of_fset code_hashes) cursor {||}))"

section \<open>Lemmas\<close>

lemma db_specD:
  assumes "db_spec ops orig table seen"
  shows "db_tx ops d = Inr t \<Longrightarrow> seen t = table d" "db_tx_mut ops d = Inr t \<Longrightarrow> seen t = table d"
    and "tx_get ops k t = Inr v \<Longrightarrow> map_option orig v = seen t k"
    and "tx_put ops k c t = Inr t' \<Longrightarrow> seen t' = (seen t)(k \<mapsto> orig c)"
    and "tx_commit ops t d = (Inr u, d') \<Longrightarrow> table d' = seen t"
    and "tx_commit ops t d = (Inl e, d') \<Longrightarrow> table d' = table d"
    and "tx_cursor_read ops t = Inr t' \<Longrightarrow> seen t' = seen t"
    and "fst (cursor_seek_exact ops k t) = Inr r \<Longrightarrow> map_option (map_prod id orig) r = map_option (Pair k) (seen t k)"
    and "seen (snd (cursor_seek_exact ops k t)) = seen t"
  using assms unfolding db_spec_def by - (elim conjE, simp)+

lemma db_get_table:
  assumes "db_spec ops orig table seen" "db_get_bytecode ops d k = Inr v"
  shows "map_option orig v = table d k"
proof -
  obtain t where "db_tx ops d = Inr t" "tx_get ops k t = Inr v"
    using assms(2) by (auto simp: db_get_bytecode_def split: sum.splits)
  with db_specD(1,3) [OF assms(1)] show ?thesis by simp
qed

lemma db_exists_table:
  "db_spec ops orig table seen \<Longrightarrow> db_bytecode_exists ops d k = Inr found \<Longrightarrow> found \<longleftrightarrow> table d k \<noteq> None"
  by (force simp: db_bytecode_exists_def dest!: db_get_table [THEN sym] split: sum.splits)

text \<open>What an insertion leaves in the table: the entry, or nothing at all.\<close>

lemma db_insert_table:
  assumes "db_spec ops orig table seen"
  shows "db_insert_bytecode ops h c d = (Inr u, d') \<Longrightarrow> table d' = (table d)(h \<mapsto> orig c)"
    and "db_insert_bytecode ops h c d = (Inl e, d') \<Longrightarrow> table d' = table d"
  using db_specD(2,4-6) [OF assms]
  by (auto simp: db_insert_bytecode_def split: sum.splits prod.splits)

lemma db_seek_missing_result:
  assumes "db_spec ops orig table seen" "db_seek_missing ops hs c acc = Inr m"
  shows "h |\<in>| m \<longleftrightarrow> h |\<in>| acc \<or> (h \<in> set hs \<and> seen c h = None)"
  using assms(2)
proof (induction hs arbitrary: c acc)
  case (Cons k ks)
  note spec = db_specD(8,9) [OF assms(1), where k = k and t = c]
  obtain r where r: "fst (cursor_seek_exact ops k c) = Inr r"
    using Cons.prems by (auto split: prod.splits sum.splits)
  then have rk: "r = None \<longleftrightarrow> seen c k = None" using spec(1) [OF r] by (cases r; cases "seen c k") auto
  have "db_seek_missing ops ks (snd (cursor_seek_exact ops k c))
      (if r = None then finsert k acc else acc) = Inr m"
    using Cons.prems r by (auto split: prod.splits option.splits)
  from Cons.IH [OF this] show ?case using rk spec(2) by (auto split: if_splits)
qed simp

lemma db_missing_table:
  assumes "db_spec ops orig table seen" "db_missing_code_hashes ops d hs = Inr m"
  shows "h |\<in>| m \<longleftrightarrow> h |\<in>| hs \<and> table d h = None"
proof -
  obtain t c where t: "db_tx ops d = Inr t" and c: "tx_cursor_read ops t = Inr c"
    and seek: "db_seek_missing ops (sorted_list_of_fset hs) c {||} = Inr m"
    using assms(2) by (auto simp: db_missing_code_hashes_def split: sum.splits)
  show ?thesis
    using db_seek_missing_result [OF assms(1) seek]
    by (simp add: db_specD(1) [OF assms(1) t] db_specD(7) [OF assms(1) c]
        iteration_order_set [OF iteration_order_sorted])
qed

section \<open>Properties\<close>

text \<open>A table kept as an association list, for the witnesses: no call fails.\<close>

definition map_db :: "((b256 \<times> bytecode) list, (b256 \<times> bytecode) list) db_ops" where
  "map_db = \<lparr>db_tx = Inr, db_tx_mut = Inr, tx_get = \<lambda>k t. Inr (map_of t k),
     tx_put = \<lambda>k v t. Inr ((k, v) # t), tx_commit = \<lambda>t _. (Inr (), t), tx_cursor_read = Inr,
     cursor_seek_exact = \<lambda>k c. (Inr (map_option (Pair k) (map_of c k)), c)\<rparr>"

lemma map_db_spec: "db_spec map_db id map_of map_of"
  by (auto simp: db_spec_def map_db_def option.map_id prod.map_id option.map_comp comp_def)

text \<open>One in which the last byte of a value stands for its jump table, and is lost in the table.\<close>

definition lossy_db :: "((b256 \<times> bytecode) list, (b256 \<times> bytecode) list) db_ops" where
  "lossy_db = map_db\<lparr>tx_put := \<lambda>k v t. Inr ((k, butlast v @ [0]) # t)\<rparr>"

lemma lossy_db_spec: "db_spec lossy_db butlast (\<lambda>d. map_option butlast \<circ> map_of d) (\<lambda>t. map_option butlast \<circ> map_of t)"
  by (auto simp: db_spec_def lossy_db_def map_db_def fun_eq_iff option.map_comp comp_def)

text \<open>(C30) The store and its four readers fit together. After an insertion that succeeds, a read of the
  hash gives a bytecode with the original bytes of the inserted one, the hash exists and is not
  missing, and every other entry reads as before; after an insertion that fails, at whichever of its
  three calls, every hash reads as before. The original bytes are all that is promised: the jump
  table of what is read may differ.\<close>

theorem db_insert_get:
  assumes "db_spec ops orig table seen"
  shows "case db_insert_bytecode ops h c d of
      (Inl e, d') \<Rightarrow>
        (\<forall>k r r'. db_get_bytecode ops d' k = Inr r \<longrightarrow> db_get_bytecode ops d k = Inr r'
           \<longrightarrow> map_option orig r = map_option orig r')
    | (Inr _, d') \<Rightarrow>
        (\<forall>r. db_get_bytecode ops d' h = Inr r \<longrightarrow> map_option orig r = Some (orig c)) \<and>
        (\<forall>found. db_bytecode_exists ops d' h = Inr found \<longrightarrow> found) \<and>
        (\<forall>hs missing. db_missing_code_hashes ops d' hs = Inr missing \<longrightarrow> h |\<notin>| missing) \<and>
        (\<forall>k r r'. k \<noteq> h \<longrightarrow> db_get_bytecode ops d' k = Inr r \<longrightarrow> db_get_bytecode ops d k = Inr r'
           \<longrightarrow> map_option orig r = map_option orig r')"
proof (cases "db_insert_bytecode ops h c d")
  case (Pair res d')
  note get = db_get_table [OF assms] and insert = db_insert_table [OF assms]
  show ?thesis
  proof (cases res)
    case (Inl e)
    with Pair insert(2) have "table d' = table d" by simp
    with Pair Inl get show ?thesis by simp
  next
    case (Inr u)
    with Pair insert(1) have "table d' = (table d)(h \<mapsto> orig c)" by simp
    with Pair Inr get show ?thesis
      by (auto dest: db_exists_table [OF assms] simp: db_missing_table [OF assms])
  qed
qed

theorem db_insert_get_witness:
  "\<exists>d'. db_insert_bytecode lossy_db 7 [1, 9] [] = (Inr (), d') \<and>
     db_get_bytecode lossy_db d' 7 = Inr (Some [1, 0]) \<and> butlast [1, 0] = butlast [1, 9 :: 8 word]"
proof -
  obtain d' where d': "db_insert_bytecode lossy_db 7 [1, 9] [] = (Inr (), d')"
    "db_get_bytecode lossy_db d' 7 = Inr (Some [1, 0])"
    by (simp add: db_insert_bytecode_def db_get_bytecode_def lossy_db_def map_db_def)
  moreover from db_insert_get [OF lossy_db_spec, where h = 7 and c = "[1, 9]" and d = "[]", unfolded d'(1)] d'(2)
  have "map_option butlast (Some [1, 0]) = Some (butlast [1, 9 :: 8 word])" by auto
  ultimately show ?thesis by simp
qed

text \<open>\<open>missing_code_hashes\<close> returns exactly the requested hashes that \<open>bytecode_exists\<close>
  denies: a cursor over the sorted hashes and a lookup of each give the same answer.\<close>

lemma db_missing_code_hashes_exact:
  assumes "db_spec ops orig table seen" and "db_missing_code_hashes ops d hs = Inr missing"
  shows "missing |\<subseteq>| hs \<and>
    (\<forall>h b. h |\<in>| hs \<longrightarrow> db_bytecode_exists ops d h = Inr b \<longrightarrow> (h |\<in>| missing \<longleftrightarrow> \<not> b))"
proof -
  note m = db_missing_table [OF assms]
  have "missing |\<subseteq>| hs" by (rule fsubsetI) (simp add: m)
  with m show ?thesis by (auto dest!: db_exists_table [OF assms(1)])
qed

end
