(* ===== verification/Provider.thy ===== *)
theory Provider
  imports Chain_State Database
begin

text \<open>
  The provider, \<open>src/crates/provider/src/provider.rs\<close>: the chain specification, the bytecode
  database and the chain state behind one interface. Most methods delegate; \<open>on_chain_update\<close>
  and \<open>on_finalized\<close> are the two through which the engine tree moves the canonical chain.
  The chain specification is reth's; the sources read the genesis header, its hash, and the code of
  each account of the genesis allocation.
\<close>

record chain_spec =
  genesis_header :: header
  genesis_hash :: b256
  genesis_codes :: "bytes option list"

record 'd ress_provider =
  rp_chain_spec :: chain_spec
  rp_database :: 'd
  rp_chain_state :: chain_state

datatype witness_error = Trie_error string | Bytecode_not_found b256

datatype provider_error =
  Database_error db_error
| Rlp_error rlp_error
| TrieWitnessError witness_error
| StateForNumberNotFound u64
| HeaderNotFound b256

section \<open>Operations\<close>

definition rp_new :: "chain_spec \<Rightarrow> 'd \<Rightarrow> 'd ress_provider" where
  "rp_new spec db = \<lparr>rp_chain_spec = spec, rp_database = db, rp_chain_state = cs_default\<rparr>"

definition rp_is_hash_canonical :: "'d ress_provider \<Rightarrow> b256 \<Rightarrow> bool" where
  "rp_is_hash_canonical p h = cs_is_hash_canonical (rp_chain_state p) h"

definition rp_block_hash ::
  "parent_num_hash \<Rightarrow> 'd ress_provider \<Rightarrow> block_num_hash \<Rightarrow> u64 \<Rightarrow> b256 option option" where
  "rp_block_hash pnh p parent n = cs_block_hash pnh (rp_chain_state p) parent n"

definition rp_block_number :: "'d ress_provider \<Rightarrow> b256 \<Rightarrow> u64 option" where
  "rp_block_number p h = cs_block_number (rp_chain_state p) h"

definition rp_sealed_header :: "'d ress_provider \<Rightarrow> b256 \<Rightarrow> sealed_header option" where
  "rp_sealed_header p h = cs_sealed_header (rp_chain_state p) h"

definition rp_insert_block ::
  "recovered_block \<Rightarrow> bytes list option \<Rightarrow> 'd ress_provider \<Rightarrow> 'd ress_provider" where
  "rp_insert_block b w p = p\<lparr>rp_chain_state := cs_insert_block b w (rp_chain_state p)\<rparr>"

definition rp_bytecode_exists :: "('d, 't) db_ops \<Rightarrow> 'd ress_provider \<Rightarrow> b256 \<Rightarrow> db_error + bool" where
  "rp_bytecode_exists ops p h = db_bytecode_exists ops (rp_database p) h"

definition rp_get_bytecode ::
  "('d, 't) db_ops \<Rightarrow> 'd ress_provider \<Rightarrow> b256 \<Rightarrow> db_error + bytecode option" where
  "rp_get_bytecode ops p h = db_get_bytecode ops (rp_database p) h"

definition rp_insert_bytecode ::
  "('d, 't) db_ops \<Rightarrow> b256 \<Rightarrow> bytecode \<Rightarrow> 'd ress_provider \<Rightarrow> (db_error + unit) \<times> 'd ress_provider" where
  "rp_insert_bytecode ops h c p =
     (let (res, db) = db_insert_bytecode ops h c (rp_database p) in (res, p\<lparr>rp_database := db\<rparr>))"

definition rp_missing_code_hashes ::
  "('d, 't) db_ops \<Rightarrow> 'd ress_provider \<Rightarrow> b256 fset \<Rightarrow> db_error + b256 fset" where
  "rp_missing_code_hashes ops p hs = db_missing_code_hashes ops (rp_database p) hs"

definition rp_insert_canonical_hash :: "u64 \<Rightarrow> b256 \<Rightarrow> 'd ress_provider \<Rightarrow> 'd ress_provider" where
  "rp_insert_canonical_hash n h p =
     p\<lparr>rp_chain_state := cs_insert_canonical_hash n h (rp_chain_state p)\<rparr>"

definition rp_on_chain_update ::
  "sealed_header list \<Rightarrow> sealed_header list \<Rightarrow> 'd ress_provider \<Rightarrow> 'd ress_provider" where
  "rp_on_chain_update new old p =
     (let cs = rp_chain_state p;
          cs = fold (\<lambda>header. cs_remove_canonical_hash (number header) (hash header)) old cs;
          cs = fold (\<lambda>header. cs_insert_canonical_hash (number header) (hash header)) new cs
      in p\<lparr>rp_chain_state := cs\<rparr>)"

definition rp_on_finalized ::
  "(b256 fset \<Rightarrow> b256 list) \<Rightarrow> b256 \<Rightarrow> 'd ress_provider \<Rightarrow> 'd ress_provider" where
  "rp_on_finalized it finalized_hash p =
     (if finalized_hash \<noteq> 0
      then p\<lparr>rp_chain_state := cs_remove_blocks_on_finalized it finalized_hash (rp_chain_state p)\<rparr>
      else p)"

subsection \<open>The data served to peers\<close>

definition rp_header :: "'d ress_provider \<Rightarrow> b256 \<Rightarrow> provider_error + header option" where
  "rp_header p h = Inr (cs_header (rp_chain_state p) h)"

definition rp_block_body :: "'d ress_provider \<Rightarrow> b256 \<Rightarrow> provider_error + block_body option" where
  "rp_block_body p h = Inr (cs_block_body (rp_chain_state p) h)"

definition rp_bytecode ::
  "codec \<Rightarrow> ('d, 't) db_ops \<Rightarrow> 'd ress_provider \<Rightarrow> b256 \<Rightarrow> provider_error + bytes option" where
  "rp_bytecode c ops p h =
     (case db_get_bytecode ops (rp_database p) h of
        Inl e \<Rightarrow> Inl (Database_error e)
      | Inr b \<Rightarrow> Inr (map_option (original_bytes c) b))"

definition rp_witness :: "'d ress_provider \<Rightarrow> b256 \<Rightarrow> provider_error + bytes list" where
  "rp_witness p h =
     Inr (case cs_witness (rp_chain_state p) h of None \<Rightarrow> [] | Some w \<Rightarrow> w)"

section \<open>Lemmas\<close>

abbreviation canonical :: "'d ress_provider \<Rightarrow> u64 \<Rightarrow> b256 option" where
  "canonical p \<equiv> fmlookup (canonical_hashes_by_number (rp_chain_state p))"

abbreviation executed_blocks :: "'d ress_provider \<Rightarrow> block_map" where
  "executed_blocks p \<equiv> blocks_by_hash (rp_chain_state p)"

lemma rp_sealed_header_iff:
  "rp_sealed_header p h = map_option sealed_header.truncate (fmlookup (executed_blocks p) h)"
  by (simp add: rp_sealed_header_def cs_getters)

lemma rp_block_number_iff: "rp_block_number p h = map_option number (fmlookup (executed_blocks p) h)"
  by (simp add: rp_block_number_def cs_getters)

lemma rp_canonical_iff: "rp_is_hash_canonical p h \<longleftrightarrow> (\<exists>n. canonical p n = Some h)"
  by (simp add: rp_is_hash_canonical_def cs_is_hash_canonical_def fmlookup_ran_iff)

text \<open>Removing and inserting a chain of canonical hashes.\<close>

lemma fold_remove_canonical:
  "fmlookup (canonical_hashes_by_number
     (fold (\<lambda>x. cs_remove_canonical_hash (number x) (hash x)) xs cs)) n =
   (if \<exists>x\<in>set xs. number x = n \<and> fmlookup (canonical_hashes_by_number cs) n = Some (hash x) then None
    else fmlookup (canonical_hashes_by_number cs) n)"
  for xs :: "'a sealed_header_scheme list"
  by (induction xs arbitrary: cs) (auto simp: view_simps)

lemma fold_insert_canonical:
  "fmlookup (canonical_hashes_by_number
     (fold (\<lambda>x. cs_insert_canonical_hash (number x) (hash x)) xs cs)) n =
   (case map_of (rev (map (\<lambda>x. (number x, hash x)) xs)) n of
      None \<Rightarrow> fmlookup (canonical_hashes_by_number cs) n | Some h \<Rightarrow> Some h)"
  for xs :: "'a sealed_header_scheme list"
  by (induction xs arbitrary: cs) (auto simp: view_simps map_add_def split: option.splits)

lemma fold_canonical_blocks:
  "blocks_by_hash (fold (\<lambda>x. cs_remove_canonical_hash (number x) (hash x)) xs cs) = blocks_by_hash cs"
  "blocks_by_hash (fold (\<lambda>x. cs_insert_canonical_hash (number x) (hash x)) xs cs) = blocks_by_hash cs"
  for xs :: "'a sealed_header_scheme list"
  by (induction xs arbitrary: cs) (auto simp: view_simps)

lemma cs_wf_fold_canonical:
  "cs_wf cs \<Longrightarrow> cs_wf (fold (\<lambda>x. cs_remove_canonical_hash (number x) (hash x)) xs cs)"
  "cs_wf cs \<Longrightarrow> cs_wf (fold (\<lambda>x. cs_insert_canonical_hash (number x) (hash x)) xs cs)"
  for xs :: "'a sealed_header_scheme list"
  by (induction xs arbitrary: cs) (auto intro: wf_intros)

lemma rp_on_chain_update_blocks [simp]:
  "executed_blocks (rp_on_chain_update new old p) = executed_blocks p"
  by (simp add: rp_on_chain_update_def Let_def fold_canonical_blocks)

lemma rp_on_chain_update_canonical:
  "canonical (rp_on_chain_update new old p) n =
     (case map_of (rev (map (\<lambda>x. (number x, hash x)) new)) n of
        Some h \<Rightarrow> Some h
      | None \<Rightarrow> if \<exists>x\<in>set old. number x = n \<and> canonical p n = Some (hash x) then None
                else canonical p n)"
  by (auto simp: rp_on_chain_update_def Let_def fold_insert_canonical fold_remove_canonical
      split: option.splits)

lemma rp_on_chain_update_wf:
  "cs_wf (rp_chain_state p) \<Longrightarrow> cs_wf (rp_chain_state (rp_on_chain_update new old p))"
  by (simp add: rp_on_chain_update_def Let_def cs_wf_fold_canonical)

lemma rp_on_chain_update_linked:
  "cs_linked (rp_chain_state p) \<Longrightarrow> cs_linked (rp_chain_state (rp_on_chain_update new old p))"
  by (simp add: cs_linked_def rp_on_chain_update_wf)

lemma rp_on_finalized_linked:
  "iteration_order it \<Longrightarrow> cs_linked (rp_chain_state p)
   \<Longrightarrow> cs_linked (rp_chain_state (rp_on_finalized it h p))"
  by (auto simp: cs_linked_def rp_on_finalized_def intro: wf_intros numbers_linked_subset
      dest: cs_finalized_subset)

section \<open>Properties\<close>

text \<open>A peer that asks for a block this node executed gets what was executed: after
  \<open>insert_block\<close> the header, the body and the witness served for the block's hash are those
  inserted, and what is served for any other hash is unchanged.\<close>

lemma rp_serves_inserted:
  "rp_header (rp_insert_block b (Some w) p) h =
     (if h = hash b then Inr (Some (header.truncate b)) else rp_header p h) \<and>
   rp_block_body (rp_insert_block b (Some w) p) h =
     (if h = hash b then Inr (Some (body b)) else rp_block_body p h) \<and>
   rp_witness (rp_insert_block b (Some w) p) h = (if h = hash b then Inr w else rp_witness p h)"
  by (simp add: rp_header_def rp_block_body_def rp_witness_def rp_insert_block_def cs_getters view_simps)

end
