(* ===== verification/State_Root.thy ===== *)
theory State_Root
  imports Primitives "HOL-Library.Multiset"
begin

text \<open>
  The state root of a block after execution, \<open>src/crates/engine/src/tree/root.rs\<close>.

  The sparse tries are reth's. Their calls are the fields of \<open>trie_ops\<close>: \<open>'t\<close> is the state trie,
  \<open>'s\<close> a storage trie, and a call that can fail returns a sum. The storage tries are updated by
  parallel workers that send their results through a channel, so two orders are arguments of the
  model: \<open>it\<close>, in which the storages are taken out of the hash map, and \<open>arrive\<close>, in which the
  results come out of the channel. The laws of \<open>independent_storages\<close> make the result the same for all.
\<close>

type_synonym nibbles = "nat list"
type_synonym trie_error = string

record hashed_storage =
  wiped :: bool
  slots :: "(b256, u256) fmap"

record account =
  acc_nonce :: u64
  acc_balance :: u256
  acc_bytecode_hash :: "b256 option"

record hashed_post_state =
  accounts :: "(b256, account option) fmap"
  storages :: "(b256, hashed_storage) fmap"

record ('t, 's) trie_ops =
  trie_new :: 't
  reveal_witness :: "b256 \<Rightarrow> (b256, bytes) fmap \<Rightarrow> 't \<Rightarrow> trie_error + 't"
  get_account_value :: "b256 \<Rightarrow> 't \<Rightarrow> bytes option"
  get_storage_slot_value :: "b256 \<Rightarrow> b256 \<Rightarrow> 't \<Rightarrow> bytes option"
  take_storage_trie :: "b256 \<Rightarrow> 't \<Rightarrow> 's option \<times> 't"
  insert_storage_trie :: "b256 \<Rightarrow> 's \<Rightarrow> 't \<Rightarrow> 't"
  storage_trie_root :: "b256 \<Rightarrow> 't \<Rightarrow> b256 option \<times> 't"
  remove_account_leaf :: "nibbles \<Rightarrow> 't \<Rightarrow> trie_error + 't"
  update_account_leaf :: "nibbles \<Rightarrow> bytes \<Rightarrow> 't \<Rightarrow> trie_error + 't"
  trie_root :: "'t \<Rightarrow> trie_error + b256 \<times> 't"
  revealed_empty :: 's
  wipe :: "'s \<Rightarrow> trie_error + 's"
  remove_leaf :: "nibbles \<Rightarrow> 's \<Rightarrow> trie_error + 's"
  update_leaf :: "nibbles \<Rightarrow> bytes \<Rightarrow> 's \<Rightarrow> trie_error + 's"
  rehash :: "'s \<Rightarrow> 's"
  unpack :: "b256 \<Rightarrow> nibbles"
  EMPTY_ROOT_HASH :: b256
  account_default :: account
  account_is_empty :: "account \<Rightarrow> bool"
  into_trie_account :: "b256 \<Rightarrow> account \<Rightarrow> trie_account"

section \<open>Operations\<close>

text \<open>The entries of a map in the order of their keys.\<close>

definition sorted_entries :: "('k::linorder, 'v) fmap \<Rightarrow> ('k \<times> 'v) list" where
  "sorted_entries m = map (\<lambda>k. (k, the (fmlookup m k))) (sorted_list_of_fset (fmdom m))"

text \<open>The worker of one storage trie: wipe, then the slots in the order of their hashes.\<close>

fun sr_update_slots ::
  "codec \<Rightarrow> ('t, 's) trie_ops \<Rightarrow> (b256 \<times> u256) list \<Rightarrow> 's \<Rightarrow> trie_error + 's" where
  "sr_update_slots c ops [] trie = Inr trie"
| "sr_update_slots c ops ((hashed_slot, v) # rest) trie =
     (case (if v = 0 then remove_leaf ops (unpack ops hashed_slot) trie
            else update_leaf ops (unpack ops hashed_slot) (encode_u256 c v) trie) of
        Inl e \<Rightarrow> Inl e
      | Inr trie \<Rightarrow> sr_update_slots c ops rest trie)"

definition sr_update_storage ::
  "codec \<Rightarrow> ('t, 's) trie_ops \<Rightarrow> hashed_storage \<Rightarrow> 's option \<Rightarrow> trie_error + 's" where
  "sr_update_storage c ops storage maybe_trie =
     (let trie = (case maybe_trie of None \<Rightarrow> revealed_empty ops | Some trie \<Rightarrow> trie)
      in case (if wiped storage then wipe ops trie else Inr trie) of
           Inl e \<Rightarrow> Inl e
         | Inr trie \<Rightarrow>
             (case sr_update_slots c ops (sorted_entries (slots storage)) trie of
                Inl e \<Rightarrow> Inl e
              | Inr trie \<Rightarrow> Inr (rehash ops trie)))"

text \<open>Each storage is paired with the trie taken out for it.\<close>

fun sr_take_tries ::
  "('t, 's) trie_ops \<Rightarrow> b256 list \<Rightarrow> 't \<Rightarrow> (b256 \<times> 's option) list \<times> 't" where
  "sr_take_tries ops [] trie = ([], trie)"
| "sr_take_tries ops (address # rest) trie =
     (let (taken, trie) = take_storage_trie ops address trie;
          (more, trie) = sr_take_tries ops rest trie
      in ((address, taken) # more, trie))"

text \<open>The receiving end of the channel.\<close>

fun sr_insert_tries ::
  "('t, 's) trie_ops \<Rightarrow> (trie_error + b256 \<times> 's) list \<Rightarrow> 't \<Rightarrow> trie_error + 't" where
  "sr_insert_tries ops [] trie = Inr trie"
| "sr_insert_tries ops (Inl e # rest) trie = Inl e"
| "sr_insert_tries ops (Inr (address, storage_trie) # rest) trie =
     sr_insert_tries ops rest (insert_storage_trie ops address storage_trie trie)"

definition sr_storage_root ::
  "codec \<Rightarrow> ('t, 's) trie_ops \<Rightarrow> b256 \<Rightarrow> 't \<Rightarrow> (trie_error + b256) \<times> 't" where
  "sr_storage_root c ops hashed_address trie =
     (let (root, trie) = storage_trie_root ops hashed_address trie
      in case root of
           Some root \<Rightarrow> (Inr root, trie)
         | None \<Rightarrow>
             (case get_account_value ops hashed_address trie of
                Some bytes \<Rightarrow>
                  (case decode_trie_account c bytes of
                     Inl e \<Rightarrow> (Inl e, trie)
                   | Inr account \<Rightarrow> (Inr (ta_storage_root account), trie))
              | None \<Rightarrow> (Inr (EMPTY_ROOT_HASH ops), trie)))"

fun sr_update_accounts ::
  "codec \<Rightarrow> ('t, 's) trie_ops \<Rightarrow> (b256 \<times> account option) list \<Rightarrow> 't \<Rightarrow> trie_error + 't" where
  "sr_update_accounts c ops [] trie = Inr trie"
| "sr_update_accounts c ops ((hashed_address, maybe_account) # rest) trie =
     (let account = (case maybe_account of None \<Rightarrow> account_default ops | Some a \<Rightarrow> a);
          (storage_root, trie) = sr_storage_root c ops hashed_address trie
      in case storage_root of
           Inl e \<Rightarrow> Inl e
         | Inr storage_root \<Rightarrow>
             (case (if account_is_empty ops account \<and> storage_root = EMPTY_ROOT_HASH ops
                    then remove_account_leaf ops (unpack ops hashed_address) trie
                    else update_account_leaf ops (unpack ops hashed_address)
                           (encode_trie_account c (into_trie_account ops storage_root account)) trie) of
                Inl e \<Rightarrow> Inl e
              | Inr trie \<Rightarrow> sr_update_accounts c ops rest trie))"

type_synonym 's worker_results = "(trie_error + b256 \<times> 's) list"

definition calculate_state_root ::
  "codec \<Rightarrow> ('t, 's) trie_ops \<Rightarrow> (b256 fset \<Rightarrow> b256 list) \<Rightarrow> ('s worker_results \<Rightarrow> 's worker_results)
     \<Rightarrow> 't \<Rightarrow> hashed_post_state \<Rightarrow> trie_error + b256 \<times> 't" where
  "calculate_state_root c ops it arrive trie state =
     (let (jobs, trie) = sr_take_tries ops (it (fmdom (storages state))) trie;
          results = map (\<lambda>(address, taken).
            map_sum id (Pair address)
              (sr_update_storage c ops (the (fmlookup (storages state) address)) taken)) jobs
      in case sr_insert_tries ops (arrive results) trie of
           Inl e \<Rightarrow> Inl e
         | Inr trie \<Rightarrow>
             (case sr_update_accounts c ops (sorted_entries (accounts state)) trie of
                Inl e \<Rightarrow> Inl e
              | Inr trie \<Rightarrow> trie_root ops trie))"

section \<open>Independence of the order\<close>

text \<open>What the documentation says of the storage tries of two accounts: they are independent.\<close>

definition independent_storages :: "('t, 's) trie_ops \<Rightarrow> bool" where
  "independent_storages ops \<longleftrightarrow>
     (\<forall>a b t. a \<noteq> b \<longrightarrow>
        fst (take_storage_trie ops a (snd (take_storage_trie ops b t))) = fst (take_storage_trie ops a t) \<and>
        snd (take_storage_trie ops a (snd (take_storage_trie ops b t))) =
        snd (take_storage_trie ops b (snd (take_storage_trie ops a t)))) \<and>
     (\<forall>a b x y t. a \<noteq> b \<longrightarrow>
        insert_storage_trie ops a x (insert_storage_trie ops b y t) =
        insert_storage_trie ops b y (insert_storage_trie ops a x t))"

text \<open>The order in which results arrive loses none and makes up none.\<close>

definition delivers :: "('a list \<Rightarrow> 'a list) \<Rightarrow> bool" where
  "delivers arrive \<longleftrightarrow> (\<forall>xs. set (arrive xs) = set xs \<and> (distinct xs \<longrightarrow> distinct (arrive xs)))"

lemma independent_storagesD:
  assumes "independent_storages ops" "a \<noteq> b"
  shows "fst (take_storage_trie ops a (snd (take_storage_trie ops b t))) = fst (take_storage_trie ops a t)"
    and "snd (take_storage_trie ops a (snd (take_storage_trie ops b t))) =
         snd (take_storage_trie ops b (snd (take_storage_trie ops a t)))"
    and "insert_storage_trie ops a x (insert_storage_trie ops b y t) =
         insert_storage_trie ops b y (insert_storage_trie ops a x t)"
  using assms unfolding independent_storages_def by metis+

lemma sr_take_tries_fst:
  assumes "independent_storages ops" "distinct as"
  shows "fst (sr_take_tries ops as t) = map (\<lambda>a. (a, fst (take_storage_trie ops a t))) as"
  using assms(2)
proof (induction as arbitrary: t)
  case (Cons a as)
  then have "fst (take_storage_trie ops b (snd (take_storage_trie ops a t))) =
      fst (take_storage_trie ops b t)" if "b \<in> set as" for b
    using that independent_storagesD(1) [OF assms(1), of b a t] by auto
  with Cons show ?case by (simp add: Let_def case_prod_beta)
qed simp

lemma sr_take_tries_snd:
  "snd (sr_take_tries ops as t) = fold (\<lambda>a t. snd (take_storage_trie ops a t)) as t"
  by (induction as arbitrary: t) (simp_all add: Let_def case_prod_beta)

lemma fold_distinct_set:
  assumes "\<And>a b t. a \<in> set xs \<Longrightarrow> b \<in> set xs \<Longrightarrow> a \<noteq> b \<Longrightarrow> f a (f b t) = f b (f a t)"
    and "distinct xs" "distinct ys" "set xs = set ys"
  shows "fold f xs t = fold f ys t"
proof (rule fold_permuted_eq [where P = "\<lambda>_. True"])
  show "mset xs = mset ys" using assms(2-4) by (simp add: set_eq_iff_mset_eq_distinct)
  show "f a (f b t) = f b (f a t)" if "a \<in> set xs" "b \<in> set xs" for a b t
    using assms(1) [OF that] by (cases "a = b") auto
qed auto

text \<open>Receiving succeeds when every worker did, and inserts what they sent.\<close>

lemma sr_insert_tries_Inr:
  "sr_insert_tries ops (map Inr ps) t = Inr (fold (\<lambda>p. insert_storage_trie ops (fst p) (snd p)) ps t)"
  by (induction ps arbitrary: t) auto

lemma sr_insert_tries_Inl: "Inl e \<in> set rs \<Longrightarrow> \<exists>e. sr_insert_tries ops rs t = Inl e"
proof (induction rs arbitrary: t)
  case (Cons r rs)
  then show ?case by (cases "(ops, r # rs, t)" rule: sr_insert_tries.cases) auto
qed simp

lemma list_all_Inr: "(\<And>e. Inl e \<notin> set rs) \<Longrightarrow> \<exists>ps. rs = map Inr ps"
proof (induction rs)
  case (Cons r rs)
  then obtain ps where "rs = map Inr ps" by auto
  moreover obtain p where "r = Inr p" using Cons.prems [of "projl r"] by (cases r) auto
  ultimately show ?case by (intro exI [of _ "p # ps"]) simp
qed simp

text \<open>The workers of the storages \<open>as\<close> and what arrives of them.\<close>

lemma sr_arrivals_agree:
  assumes ops: "independent_storages ops" and d: "distinct as" "distinct bs" "set as = set bs"
    and arr: "delivers arrive" "delivers arrive'"
    and g: "\<And>a r. g a = Inr r \<Longrightarrow> fst r = a"
    and ok: "sr_insert_tries ops (arrive (map g as)) t = Inr t'"
  shows "sr_insert_tries ops (arrive' (map g bs)) t = Inr t'"
proof -
  have noerr: "Inl e \<notin> set (map g as)" for e
    using ok sr_insert_tries_Inl [of e "arrive (map g as)" ops t] arr(1) by (auto simp: delivers_def)
  then have ex: "\<exists>r. g a = Inr r" if "a \<in> set as" for a
    using that by (cases "g a") (force, blast)
  define h where "h a = projr (g a)" for a
  have gh: "g a = Inr (h a)" "fst (h a) = a" if "a \<in> set as" for a
    using ex [OF that] g by (auto simp: h_def)
  have rs: "map g as = map Inr (map h as)" "map g bs = map Inr (map h bs)"
    using gh d(3) by auto
  have inj: "inj_on h (set as)" by (rule inj_onI) (metis gh(2))
  have *: "\<exists>ps. arr (map g xs) = map Inr ps \<and> distinct ps \<and> set ps = h ` set as"
    if "delivers arr" "distinct xs" "set xs = set as" "map g xs = map Inr (map h xs)"
    for arr and xs
  proof -
    have "distinct (map g xs)"
      unfolding that(4) using that(2,3) inj by (auto simp: distinct_map inj_on_def)
    moreover have "set (map g xs) = Inr ` h ` set as"
      unfolding that(4) set_map that(3) ..
    ultimately have a: "distinct (arr (map g xs))" "set (arr (map g xs)) = Inr ` h ` set as"
      using that(1) by (auto simp: delivers_def)
    then obtain ps where ps: "arr (map g xs) = map Inr ps" using list_all_Inr [of "arr (map g xs)"] by blast
    from a(2) have "set ps = h ` set as" unfolding ps by (simp add: inj_image_eq_iff)
    with ps a(1) show ?thesis by (auto simp: distinct_map)
  qed
  obtain ps where ps: "arrive (map g as) = map Inr ps" "distinct ps" "set ps = h ` set as"
    using * [OF arr(1) d(1) refl rs(1)] by blast
  obtain qs where qs: "arrive' (map g bs) = map Inr qs" "distinct qs" "set qs = h ` set as"
    using * [OF arr(2) d(2) d(3) [symmetric] rs(2)] by blast
  have "fold (\<lambda>p. insert_storage_trie ops (fst p) (snd p)) ps t =
      fold (\<lambda>p. insert_storage_trie ops (fst p) (snd p)) qs t"
  proof (rule fold_distinct_set)
    fix p q t assume "p \<in> set ps" "q \<in> set ps" "p \<noteq> q"
    then have "fst p \<noteq> fst q" using gh(2) by (auto simp: ps(3))
    then show "insert_storage_trie ops (fst p) (snd p) (insert_storage_trie ops (fst q) (snd q) t) =
        insert_storage_trie ops (fst q) (snd q) (insert_storage_trie ops (fst p) (snd p) t)"
      by (rule independent_storagesD(3) [OF ops])
  qed (use ps qs in auto)
  with ok show ?thesis by (simp add: ps(1) qs(1) sr_insert_tries_Inr)
qed

section \<open>The account leaves\<close>

text \<open>What the documentation says of the account leaves, seen as a map from paths to values: an
  update or a removal changes the leaf at its path and no other, and neither it nor asking for a
  storage root changes the storage roots.\<close>

definition account_leaf_spec :: "('t, 's) trie_ops \<Rightarrow> ('t \<Rightarrow> nibbles \<rightharpoonup> bytes) \<Rightarrow> ('t \<Rightarrow> b256 \<rightharpoonup> b256) \<Rightarrow> bool" where
  "account_leaf_spec ops leaves roots \<longleftrightarrow>
     (\<forall>a t. get_account_value ops a t = leaves t (unpack ops a)) \<and>
     (\<forall>a t. fst (storage_trie_root ops a t) = roots t a \<and>
            leaves (snd (storage_trie_root ops a t)) = leaves t \<and>
            roots (snd (storage_trie_root ops a t)) = roots t) \<and>
     (\<forall>k t t'. remove_account_leaf ops k t = Inr t' \<longrightarrow>
               leaves t' = (leaves t)(k := None) \<and> roots t' = roots t) \<and>
     (\<forall>k v t t'. update_account_leaf ops k v t = Inr t' \<longrightarrow>
               leaves t' = (leaves t)(k \<mapsto> v) \<and> roots t' = roots t)"

text \<open>The leaf an account should have: computed from its storage root, which is that of its storage
  trie when one is there, and otherwise the one in its current leaf.\<close>

definition expected_root ::
  "codec \<Rightarrow> ('t, 's) trie_ops \<Rightarrow> b256 option \<Rightarrow> bytes option \<Rightarrow> trie_error + b256" where
  "expected_root c ops root leaf =
     (case root of
        Some r \<Rightarrow> Inr r
      | None \<Rightarrow> (case leaf of
                   None \<Rightarrow> Inr (EMPTY_ROOT_HASH ops)
                 | Some v \<Rightarrow> map_sum id ta_storage_root (decode_trie_account c v)))"

definition expected_leaf ::
  "codec \<Rightarrow> ('t, 's) trie_ops \<Rightarrow> account option \<Rightarrow> b256 \<Rightarrow> bytes option" where
  "expected_leaf c ops maybe_account root =
     (let account = (case maybe_account of None \<Rightarrow> account_default ops | Some a \<Rightarrow> a)
      in if account_is_empty ops account \<and> root = EMPTY_ROOT_HASH ops then None
         else Some (encode_trie_account c (into_trie_account ops root account)))"

lemma sr_storage_root_expected:
  assumes "account_leaf_spec ops leaves roots"
  shows "fst (sr_storage_root c ops a t) = expected_root c ops (roots t a) (leaves t (unpack ops a))"
    and "leaves (snd (sr_storage_root c ops a t)) = leaves t"
    and "roots (snd (sr_storage_root c ops a t)) = roots t"
  using assms
  by (auto simp: sr_storage_root_def expected_root_def account_leaf_spec_def Let_def case_prod_beta
      split: option.splits sum.splits)

text \<open>One account.\<close>

lemma sr_update_accounts_step:
  assumes spec: "account_leaf_spec ops leaves roots"
    and run: "sr_update_accounts c ops ((a, ma) # rest) t = Inr t'"
  obtains u root where "sr_update_accounts c ops rest u = Inr t'"
    "expected_root c ops (roots t a) (leaves t (unpack ops a)) = Inr root" "roots u = roots t"
    "leaves u = (leaves t)(unpack ops a := expected_leaf c ops ma root)"
proof -
  let ?s = "snd (sr_storage_root c ops a t)"
  note root = sr_storage_root_expected [OF spec, where c = c and a = a and t = t]
  have rem: "leaves t' = (leaves t)(k := None)" "roots t' = roots t"
    if "remove_account_leaf ops k t = Inr t'" for k t t'
    using that spec by (simp_all add: account_leaf_spec_def)
  have upd: "leaves t' = (leaves t)(k \<mapsto> v)" "roots t' = roots t"
    if "update_account_leaf ops k v t = Inr t'" for k v t t'
    using that spec by (simp_all add: account_leaf_spec_def)
  let ?acc = "case ma of None \<Rightarrow> account_default ops | Some a \<Rightarrow> a"
  obtain r u where r: "fst (sr_storage_root c ops a t) = Inr r"
    and u: "(if account_is_empty ops ?acc \<and> r = EMPTY_ROOT_HASH ops
             then remove_account_leaf ops (unpack ops a) ?s
             else update_account_leaf ops (unpack ops a)
                    (encode_trie_account c (into_trie_account ops r ?acc)) ?s) = Inr u"
    and rest: "sr_update_accounts c ops rest u = Inr t'"
    using run by (auto simp: Let_def case_prod_beta split: sum.splits)
  have "leaves u = (leaves t)(unpack ops a := expected_leaf c ops ma r)" "roots u = roots t"
    using u rem [of "unpack ops a" ?s u] upd [of "unpack ops a" _ ?s u]
    by (auto simp: expected_leaf_def root(2,3) Let_def split: if_splits)
  with r root(1) rest show ?thesis by (intro that) auto
qed

lemma sr_update_accounts_leaves:
  assumes "account_leaf_spec ops leaves roots"
    and "sr_update_accounts c ops es t = Inr t'" "distinct (map (\<lambda>e. unpack ops (fst e)) es)"
  shows "(\<forall>(a, ma) \<in> set es. \<exists>root.
            expected_root c ops (roots t a) (leaves t (unpack ops a)) = Inr root \<and>
            leaves t' (unpack ops a) = expected_leaf c ops ma root) \<and>
         (\<forall>k. k \<notin> (\<lambda>e. unpack ops (fst e)) ` set es \<longrightarrow> leaves t' k = leaves t k)"
  using assms(2,3)
proof (induction es arbitrary: t)
  case (Cons e es)
  obtain a ma where e: "e = (a, ma)" by fastforce
  obtain u root where u: "sr_update_accounts c ops es u = Inr t'"
    and root: "expected_root c ops (roots t a) (leaves t (unpack ops a)) = Inr root" "roots u = roots t"
    and leaves: "leaves u = (leaves t)(unpack ops a := expected_leaf c ops ma root)"
    using sr_update_accounts_step [OF assms(1) Cons.prems(1) [unfolded e]] by metis
  note IH = Cons.IH [OF u] 
  have "unpack ops b \<noteq> unpack ops a" if "(b, mb) \<in> set es" for b mb
    using Cons.prems(2) that by (force simp: e)
  with IH Cons.prems(2) root leaves show ?case
    by (fastforce simp: e)
qed auto

section \<open>Properties\<close>

text \<open>(C23) The state root does not depend on scheduling: whatever the order in which the storages
  are handed to the workers and the order in which the workers finish, a run that succeeds
  returns the same root and the same trie as every other run.\<close>

theorem calculate_state_root_deterministic:
  assumes "independent_storages ops" "iteration_order it" "iteration_order it'"
    and "delivers arrive" "delivers arrive'"
    and "calculate_state_root c ops it arrive trie state = Inr r"
  shows "calculate_state_root c ops it' arrive' trie state = Inr r"
proof -
  let ?as = "it (fmdom (storages state))" and ?bs = "it' (fmdom (storages state))"
  let ?g = "\<lambda>a. map_sum id (Pair a) (sr_update_storage c ops (the (fmlookup (storages state) a))
                  (fst (take_storage_trie ops a trie)))"
  let ?take = "\<lambda>a t. snd (take_storage_trie ops a t)"
  have d: "distinct ?as" "distinct ?bs" "set ?as = set ?bs"
    using assms(2,3) by (auto simp: iteration_order_def)
  have unfold: "calculate_state_root c ops it arrive trie state =
      (case sr_insert_tries ops (arrive (map ?g (it (fmdom (storages state)))))
              (fold ?take (it (fmdom (storages state))) trie) of
         Inl e \<Rightarrow> Inl e
       | Inr trie \<Rightarrow> (case sr_update_accounts c ops (sorted_entries (accounts state)) trie of
                        Inl e \<Rightarrow> Inl e | Inr trie \<Rightarrow> trie_root ops trie))"
    if "distinct (it (fmdom (storages state)))" for it arrive
    by (simp add: calculate_state_root_def Let_def case_prod_beta sr_take_tries_fst [OF assms(1) that]
        sr_take_tries_snd o_def)
  have fold: "fold ?take ?as trie = fold ?take ?bs trie"
    using d independent_storagesD(2) [OF assms(1)] by (intro fold_distinct_set) auto
  have g: "fst r = a" if "?g a = Inr r" for a r
    using that by (cases "sr_update_storage c ops (the (fmlookup (storages state) a))
      (fst (take_storage_trie ops a trie))") auto
  obtain t where t: "sr_insert_tries ops (arrive (map ?g ?as)) (fold ?take ?as trie) = Inr t"
    using assms(6) by (auto simp: unfold d split: sum.splits)
  from sr_arrivals_agree [OF assms(1) d assms(4,5) g t]
  have "sr_insert_tries ops (arrive' (map ?g ?bs)) (fold ?take ?bs trie) = Inr t"
    by (simp add: fold)
  with t assms(6) show ?thesis by (simp add: unfold d)
qed

text \<open>Tries as maps, for the witnesses: the account leaves and the storage tries, with the hash of a
  storage trie the number of its leaves.\<close>

type_synonym leaf_map = "(nibbles, bytes) fmap"

definition map_trie :: "(leaf_map \<times> (b256, leaf_map) fmap, leaf_map) trie_ops" where
  "map_trie = \<lparr>trie_new = (fmempty, fmempty), reveal_witness = \<lambda>_ _ t. Inr t,
     get_account_value = \<lambda>a t. fmlookup (fst t) [unat a],
     get_storage_slot_value = \<lambda>a k t. fmlookup (snd t) a \<bind> (\<lambda>s. fmlookup s [unat k]),
     take_storage_trie = \<lambda>a t. (fmlookup (snd t) a, (fst t, fmdrop a (snd t))),
     insert_storage_trie = \<lambda>a s t. (fst t, fmupd a s (snd t)),
     storage_trie_root = \<lambda>a t. (map_option (\<lambda>s. of_nat (fcard (fmdom s))) (fmlookup (snd t) a), t),
     remove_account_leaf = \<lambda>k t. Inr (fmdrop k (fst t), snd t),
     update_account_leaf = \<lambda>k v t. Inr (fmupd k v (fst t), snd t),
     trie_root = \<lambda>t. Inr (of_nat (fcard (fmdom (fst t))), t),
     revealed_empty = fmempty, wipe = \<lambda>_. Inr fmempty, remove_leaf = \<lambda>k s. Inr (fmdrop k s),
     update_leaf = \<lambda>k v s. Inr (fmupd k v s), rehash = id, unpack = \<lambda>k. [unat k],
     EMPTY_ROOT_HASH = 0,
     account_default = \<lparr>acc_nonce = 0, acc_balance = 0, acc_bytecode_hash = None\<rparr>,
     account_is_empty = \<lambda>a. acc_nonce a = 0 \<and> acc_balance a = 0 \<and> acc_bytecode_hash a = None,
     into_trie_account = \<lambda>r a. \<lparr>ta_nonce = acc_nonce a, ta_balance = acc_balance a,
       ta_storage_root = r, ta_code_hash = (case acc_bytecode_hash a of None \<Rightarrow> 0 | Some h \<Rightarrow> h)\<rparr>\<rparr>"

lemma map_trie_sel:
  "take_storage_trie map_trie a t = (fmlookup (snd t) a, (fst t, fmdrop a (snd t)))"
  "insert_storage_trie map_trie a s t = (fst t, fmupd a s (snd t))"
  "storage_trie_root map_trie a t = (map_option (\<lambda>s. of_nat (fcard (fmdom s))) (fmlookup (snd t) a), t)"
  "get_account_value map_trie a t = fmlookup (fst t) [unat a]"
  "remove_account_leaf map_trie k t = Inr (fmdrop k (fst t), snd t)"
  "update_account_leaf map_trie k v t = Inr (fmupd k v (fst t), snd t)"
  "trie_root map_trie t = Inr (of_nat (fcard (fmdom (fst t))), t)"
  "update_leaf map_trie k v st = Inr (fmupd k v st)" "remove_leaf map_trie k st = Inr (fmdrop k st)"
  "revealed_empty map_trie = fmempty" "rehash map_trie = id" "unpack map_trie h = [unat h]"
  "EMPTY_ROOT_HASH map_trie = 0"
  "account_is_empty map_trie acc \<longleftrightarrow>
     acc_nonce acc = 0 \<and> acc_balance acc = 0 \<and> acc_bytecode_hash acc = None"
  "ta_nonce (into_trie_account map_trie r acc) = acc_nonce acc"
  by (simp_all add: map_trie_def)

lemma map_trie_independent: "independent_storages map_trie"
proof -
  have "fmdrop a (fmdrop b m) = fmdrop b (fmdrop a m)" for a b and m :: "(b256, leaf_map) fmap"
    by (intro fmap_ext) simp
  moreover have "fmupd a x (fmupd b y m) = fmupd b y (fmupd a x m)"
    if "a \<noteq> b" for a b x y and m :: "(b256, leaf_map) fmap"
    using that by (intro fmap_ext) auto
  ultimately show ?thesis by (simp add: independent_storages_def map_trie_sel)
qed

lemma map_trie_leaves:
  "account_leaf_spec map_trie (\<lambda>t. fmlookup (fst t))
     (\<lambda>t a. map_option (\<lambda>s. of_nat (fcard (fmdom s))) (fmlookup (snd t) a))"
  by (auto simp: account_leaf_spec_def map_trie_sel)

text \<open>A codec for the witnesses.\<close>

definition plain_codec :: codec where
  "plain_codec = \<lparr>keccak256 = \<lambda>bs. of_nat (length bs), KECCAK_EMPTY = 0,
     decode_trie_node = \<lambda>_. Inr EmptyRoot,
     decode_trie_account = \<lambda>_. Inr \<lparr>ta_nonce = 0, ta_balance = 0, ta_storage_root = 0, ta_code_hash = 0\<rparr>,
     encode_trie_account = \<lambda>a. [ucast (ta_nonce a)], decode_u256 = \<lambda>_. Inr 0, encode_u256 = \<lambda>v. [ucast v],
     original_bytes = id, new_raw = id, code_hash_slow = \<lambda>bs. of_nat (length bs),
     rlp_length = length, hash_slow = \<lambda>h. parent_hash h + ucast (number h) + 1\<rparr>"

definition sample_state :: hashed_post_state where
  "sample_state = \<lparr>accounts = fmupd 7 (Some \<lparr>acc_nonce = 3, acc_balance = 0, acc_bytecode_hash = None\<rparr>) fmempty,
     storages = fmupd 7 \<lparr>wiped = False, slots = fmupd 2 5 fmempty\<rparr>
       (fmupd 8 \<lparr>wiped = False, slots = fmempty\<rparr> fmempty)\<rparr>"

theorem calculate_state_root_deterministic_witness:
  "calculate_state_root plain_codec map_trie (\<lambda>S. rev (sorted_list_of_fset S)) rev
     (fmempty, fmempty) sample_state =
   calculate_state_root plain_codec map_trie sorted_list_of_fset id (fmempty, fmempty) sample_state"
proof -
  have s: "sorted_list_of_fset {|7, 8 :: b256|} = [7, 8]" "sorted_list_of_fset {|2 :: b256|} = [2]"
    "sorted_list_of_fset {|7 :: b256|} = [7]" "sorted_list_of_fset ({||} :: b256 fset) = []"
    by (simp_all add: sorted_list_of_fset.rep_eq)
  obtain r where r: "calculate_state_root plain_codec map_trie sorted_list_of_fset id
      (fmempty, fmempty) sample_state = Inr r"
    by (simp add: calculate_state_root_def sample_state_def s sorted_entries_def
        sr_update_storage_def map_trie_sel plain_codec_def sr_storage_root_def)
  have "iteration_order (\<lambda>S :: b256 fset. rev (sorted_list_of_fset S))"
    by (simp add: iteration_order_def sorted_list_of_fset.rep_eq)
  from calculate_state_root_deterministic [OF map_trie_independent iteration_order_sorted this _ _ r, of rev]
  show ?thesis by (simp add: delivers_def r)
qed

text \<open>(C24) The account leaves of the new state: after a successful update each changed account has
  exactly the leaf its account data and its storage root call for, none when it is empty with an
  empty storage, and no other leaf changes. The storage root is read from the trie as it was,
  whatever accounts were updated before.\<close>

theorem sr_update_accounts_correct:
  assumes "account_leaf_spec ops leaves roots" "inj (unpack ops)"
    and "sr_update_accounts c ops (sorted_entries accs) t = Inr t'"
  shows "(\<forall>a ma. fmlookup accs a = Some ma \<longrightarrow>
            (\<exists>root. expected_root c ops (roots t a) (leaves t (unpack ops a)) = Inr root \<and>
                    leaves t' (unpack ops a) = expected_leaf c ops ma root)) \<and>
         (\<forall>a. a |\<notin>| fmdom accs \<longrightarrow> leaves t' (unpack ops a) = leaves t (unpack ops a))"
proof -
  let ?es = "sorted_entries accs"
  have set: "set ?es = {(a, ma). fmlookup accs a = Some ma}"
    by (auto simp: sorted_entries_def sorted_list_of_fset.rep_eq fmlookup_dom_iff image_iff)
  have "distinct (map (\<lambda>e. unpack ops (fst e)) ?es)"
    using assms(2) iteration_order_distinct [OF iteration_order_sorted, of "fmdom accs"]
    by (simp add: sorted_entries_def o_def distinct_map inj_on_def inj_def)
  note leaves = sr_update_accounts_leaves [OF assms(1,3) this]
  have "unpack ops a \<notin> (\<lambda>e. unpack ops (fst e)) ` set ?es" if "a |\<notin>| fmdom accs" for a
    using that assms(2) by (auto simp: set inj_eq dest: fmdomI)
  with leaves show ?thesis by (auto simp: set)
qed

theorem sr_update_accounts_correct_witness:
  "\<exists>t'. sr_update_accounts plain_codec map_trie (sorted_entries (accounts sample_state)) (fmempty, fmempty)
      = Inr t' \<and> fmlookup (fst t') [7] = Some [3]"
proof -
  have s: "sorted_list_of_fset {|7 :: b256|} = [7]" by (simp add: sorted_list_of_fset.rep_eq)
  obtain t' where t': "sr_update_accounts plain_codec map_trie (sorted_entries (accounts sample_state))
      (fmempty, fmempty) = Inr t'"
    by (simp add: sample_state_def sorted_entries_def s sr_storage_root_def map_trie_sel)
  have "inj (unpack map_trie)" by (simp add: inj_def map_trie_sel word_unat_eq_iff)
  note leaf = sr_update_accounts_correct [OF map_trie_leaves this t', THEN conjunct1, rule_format, of 7]
  have "fmlookup (accounts sample_state) 7 =
      Some (Some \<lparr>acc_nonce = 3, acc_balance = 0, acc_bytecode_hash = None\<rparr>)"
    by (simp add: sample_state_def)
  from leaf [OF this] have "fmlookup (fst t') (unpack map_trie 7) = Some [3]"
    by (simp add: expected_root_def expected_leaf_def map_trie_sel plain_codec_def Let_def)
  with t' show ?thesis by (simp add: map_trie_sel)
qed

end
