(* ===== verification/Evm.thy ===== *)
theory Evm
  imports Provider State_Root
begin

text \<open>
  The EVM's view of the state, \<open>src/crates/evm/src/db.rs\<close>, and the block executor,
  \<open>src/crates/evm/src/executor.rs\<close>.

  The witness database answers the four questions of revm's \<open>Database\<close> trait from the revealed
  trie, the bytecode database and the chain state. Revm itself and reth's block executor are the
  fields of \<open>evm_ops\<close>, over a state \<open>'x\<close> of their own; they reach the witness database through the
  four functions of \<open>evm_database\<close>. The bundle state and the execution result are data they
  produce and other reth code reads, kept as opaque bytes.
\<close>

type_synonym address = bytes
type_synonym execution_error = string
type_synonym bundle_state = bytes
type_synonym execution_result = bytes

record account_info =
  ai_balance :: u256
  ai_nonce :: u64
  ai_code_hash :: b256
  ai_code :: "bytecode option"

section \<open>The witness database\<close>

record ('d, 't) witness_database =
  wd_provider :: "'d ress_provider"
  wd_parent :: block_num_hash
  wd_trie :: 't

definition wd_new :: "'d ress_provider \<Rightarrow> block_num_hash \<Rightarrow> 't \<Rightarrow> ('d, 't) witness_database" where
  "wd_new p parent trie = \<lparr>wd_provider = p, wd_parent = parent, wd_trie = trie\<rparr>"

definition wd_basic ::
  "codec \<Rightarrow> ('t, 's) trie_ops \<Rightarrow> ('d, 't) witness_database \<Rightarrow> address
     \<Rightarrow> provider_error + account_info option" where
  "wd_basic c tops wd address =
     (let hashed_address = keccak256 c address
      in case get_account_value tops hashed_address (wd_trie wd) of
           None \<Rightarrow> Inr None
         | Some bytes \<Rightarrow>
             (case decode_trie_account c bytes of
                Inl e \<Rightarrow> Inl (Rlp_error e)
              | Inr account \<Rightarrow>
                  Inr (Some \<lparr>ai_balance = ta_balance account, ai_nonce = ta_nonce account,
                             ai_code_hash = ta_code_hash account, ai_code = None\<rparr>)))"

text \<open>\<open>B256::from(slot)\<close>: the 32 bytes of a word, the most significant one first.\<close>

definition be_bytes :: "u256 \<Rightarrow> bytes" where
  "be_bytes w = map (\<lambda>i. ucast (drop_bit (8 * (31 - i)) w)) [0..<32]"

definition wd_storage ::
  "codec \<Rightarrow> ('t, 's) trie_ops \<Rightarrow> ('d, 't) witness_database \<Rightarrow> address \<Rightarrow> u256
     \<Rightarrow> provider_error + u256" where
  "wd_storage c tops wd address slot =
     (let hashed_address = keccak256 c address;
          hashed_slot = keccak256 c (be_bytes slot)
      in case get_storage_slot_value tops hashed_address hashed_slot (wd_trie wd) of
           Some v \<Rightarrow> map_sum Rlp_error id (decode_u256 c v)
         | None \<Rightarrow> Inr 0)"

definition wd_code_by_hash ::
  "('d, 'u) db_ops \<Rightarrow> ('d, 't) witness_database \<Rightarrow> b256 \<Rightarrow> provider_error + bytecode" where
  "wd_code_by_hash dops wd code_hash =
     (case rp_get_bytecode dops (wd_provider wd) code_hash of
        Inl e \<Rightarrow> Inl (Database_error e)
      | Inr None \<Rightarrow> Inl (TrieWitnessError (Bytecode_not_found code_hash))
      | Inr (Some bytecode) \<Rightarrow> Inr bytecode)"

definition wd_block_hash ::
  "parent_num_hash \<Rightarrow> ('d, 't) witness_database \<Rightarrow> u64 \<Rightarrow> (provider_error + b256) option" where
  "wd_block_hash pnh wd n = do {
     r \<leftarrow> rp_block_hash pnh (wd_provider wd) (wd_parent wd) n;
     Some (case r of None \<Rightarrow> Inl (StateForNumberNotFound n) | Some h \<Rightarrow> Inr h)
   }"

section \<open>The block executor\<close>

text \<open>What the EVM may ask. Asking for a block hash can fail to return, which \<open>None\<close> stands for.\<close>

record evm_database =
  ed_basic :: "address \<Rightarrow> provider_error + account_info option"
  ed_storage :: "address \<Rightarrow> u256 \<Rightarrow> provider_error + u256"
  ed_code_by_hash :: "b256 \<Rightarrow> provider_error + bytecode"
  ed_block_hash :: "u64 \<Rightarrow> (provider_error + b256) option"

record 'x evm_ops =
  state_build :: "evm_database \<Rightarrow> 'x"
  executor_for_block :: "chain_spec \<Rightarrow> recovered_block \<Rightarrow> 'x \<Rightarrow> 'x"
  apply_pre_execution_changes :: "'x \<Rightarrow> execution_error + 'x"
  execute_transaction :: "bytes \<times> bytes \<Rightarrow> 'x \<Rightarrow> execution_error + 'x"
  apply_post_execution_changes :: "'x \<Rightarrow> execution_error + execution_result \<times> 'x"
  merge_transitions :: "'x \<Rightarrow> 'x"
  take_bundle :: "'x \<Rightarrow> bundle_state"

record 'x block_executor =
  be_chain_spec :: chain_spec
  be_state :: 'x

record execution_output =
  eo_state :: bundle_state
  eo_result :: execution_result

definition be_new ::
  "codec \<Rightarrow> parent_num_hash \<Rightarrow> ('d, 'u) db_ops \<Rightarrow> ('t, 's) trie_ops \<Rightarrow> 'x evm_ops
     \<Rightarrow> 'd ress_provider \<Rightarrow> block_num_hash \<Rightarrow> 't \<Rightarrow> 'x block_executor" where
  "be_new c pnh dops tops eops p parent trie =
     (let db = wd_new p parent trie;
          state = state_build eops
            \<lparr>ed_basic = wd_basic c tops db, ed_storage = wd_storage c tops db,
             ed_code_by_hash = wd_code_by_hash dops db, ed_block_hash = wd_block_hash pnh db\<rparr>
      in \<lparr>be_chain_spec = rp_chain_spec p, be_state = state\<rparr>)"

text \<open>\<open>transactions_recovered\<close>: each transaction with its sender.\<close>

definition transactions_recovered :: "recovered_block \<Rightarrow> (bytes \<times> bytes) list" where
  "transactions_recovered b = zip (transactions (body b)) (senders b)"

fun be_execute_transactions ::
  "'x evm_ops \<Rightarrow> (bytes \<times> bytes) list \<Rightarrow> 'x \<Rightarrow> execution_error + 'x" where
  "be_execute_transactions eops [] x = Inr x"
| "be_execute_transactions eops (tx # rest) x =
     (case execute_transaction eops tx x of
        Inl e \<Rightarrow> Inl e
      | Inr x \<Rightarrow> be_execute_transactions eops rest x)"

definition be_execute ::
  "'x evm_ops \<Rightarrow> 'x block_executor \<Rightarrow> recovered_block \<Rightarrow> execution_error + execution_output" where
  "be_execute eops ex block =
     (let x = executor_for_block eops (be_chain_spec ex) block (be_state ex)
      in case apply_pre_execution_changes eops x of
           Inl e \<Rightarrow> Inl e
         | Inr x \<Rightarrow>
             (case be_execute_transactions eops (transactions_recovered block) x of
                Inl e \<Rightarrow> Inl e
              | Inr x \<Rightarrow>
                  (case apply_post_execution_changes eops x of
                     Inl e \<Rightarrow> Inl e
                   | Inr (result, x) \<Rightarrow>
                       let x = merge_transitions eops x
                       in Inr \<lparr>eo_state = take_bundle eops x, eo_result = result\<rparr>)))"

section \<open>Properties\<close>

text \<open>(C26) Execution never misses a bytecode the witness announces: when the database reports none
  of the witness's code hashes as missing, asking the witness database for the code of any
  account with code in the witness returns a bytecode with the original bytes stored for it, unless
  the database itself fails.\<close>

theorem wd_code_available:
  assumes "db_spec dops orig table seen" and "ew_wf c w"
    and "rp_missing_code_hashes dops p (fst (bytecode_hashes c w)) = Inr {||}"
    and "e \<in> set (ew_state_witness w)" "entry_code_hash c e = Some code_hash"
  shows "case wd_code_by_hash dops (wd_new p parent trie) code_hash of
      Inr code \<Rightarrow> table (rp_database p) code_hash = Some (orig code)
    | Inl err \<Rightarrow> \<exists>db. err = Database_error db"
proof -
  have "code_hash |\<in>| fst (bytecode_hashes c w)"
    using assms(2,4,5)
    by (auto simp: bytecode_hashes_def Let_def ew_wf_def collect_code_hashes_mem split: option.splits)
  then have there: "table (rp_database p) code_hash \<noteq> None"
    using db_missing_table [OF assms(1) assms(3) [unfolded rp_missing_code_hashes_def], of code_hash]
    by simp
  show ?thesis
  proof (cases "db_get_bytecode dops (rp_database p) code_hash")
    case (Inl err)
    then show ?thesis by (simp add: wd_code_by_hash_def rp_get_bytecode_def wd_new_def)
  next
    case (Inr r)
    then have "map_option orig r = table (rp_database p) code_hash" by (rule db_get_table [OF assms(1)])
    with there Inr show ?thesis by (cases r) (auto simp: wd_code_by_hash_def rp_get_bytecode_def wd_new_def)
  qed
qed

text \<open>A codec that reads every witness entry as the leaf of an account with code, for the witness.\<close>

definition leaf_codec :: codec where
  "leaf_codec = plain_codec\<lparr>decode_trie_node := \<lambda>_. Inr (LeafNode [] []),
     decode_trie_account := \<lambda>_. Inr \<lparr>ta_nonce = 0, ta_balance = 0, ta_storage_root = 0, ta_code_hash = 7\<rparr>\<rparr>"

theorem wd_code_available_witness:
  "wd_code_by_hash map_db
     (wd_new (rp_new \<lparr>genesis_header = header.truncate (sample_block 1 0 0), genesis_hash = 1, genesis_codes = []\<rparr> [(7, [5])])
       \<lparr>bnh_number = 0, bnh_hash = 0\<rparr> ()) 7 = Inr [5]"
proof -
  let ?p = "rp_new \<lparr>genesis_header = header.truncate (sample_block 1 0 0), genesis_hash = 1, genesis_codes = []\<rparr> [(7 :: b256, [5])]"
  let ?w = "ew_new [[1]] 0"
  have code: "entry_code_hash leaf_codec [1] = Some 7"
    by (simp add: entry_code_hash_def leaf_codec_def plain_codec_def)
  have s: "sorted_list_of_fset {|7 :: b256|} = [7]" by (simp add: sorted_list_of_fset.rep_eq)
  have "fst (bytecode_hashes leaf_codec ?w) = {|7|}"
    by (simp add: bytecode_hashes_def ew_new_def code Let_def)
  then have "rp_missing_code_hashes map_db ?p (fst (bytecode_hashes leaf_codec ?w)) = Inr {||}"
    by (simp add: rp_missing_code_hashes_def db_missing_code_hashes_def rp_new_def map_db_def s)
  from wd_code_available [OF map_db_spec ew_wf_new this _ code, of "\<lparr>bnh_number = 0, bnh_hash = 0\<rparr>" "()"]
  show ?thesis
    by (simp add: ew_new_def wd_code_by_hash_def rp_get_bytecode_def wd_new_def rp_new_def
        db_get_bytecode_def map_db_def)
qed

end
