(* ===== verification/Tree_Outcome.thy ===== *)
theory Tree_Outcome
  imports Primitives
begin

text \<open>
  What an operation of the tree tells its caller, \<open>src/crates/engine/src/tree/outcome.rs\<close>.
\<close>

datatype tree_action = MakeCanonical (sync_target_head: b256)

datatype download_request =
  DownloadBlock (block_hash_of: b256)
| DownloadWitness (block_hash_of: b256)
| DownloadFinalized (block_hash_of: b256)

datatype tree_event = TreeAction tree_action | Download download_request

record 'a tree_outcome =
  outcome :: 'a
  event :: "tree_event option"

definition to_new :: "'a \<Rightarrow> 'a tree_outcome" where
  "to_new x = \<lparr>outcome = x, event = None\<rparr>"

definition with_event :: "tree_event \<Rightarrow> 'a tree_outcome \<Rightarrow> 'a tree_outcome" where
  "with_event e out = out\<lparr>event := Some e\<rparr>"

definition te_download_witness :: "b256 \<Rightarrow> tree_event" where
  "te_download_witness h = Download (DownloadWitness h)"

definition te_download_block :: "b256 \<Rightarrow> tree_event" where
  "te_download_block h = Download (DownloadBlock h)"

definition te_download_finalized :: "b256 \<Rightarrow> tree_event" where
  "te_download_finalized h = Download (DownloadFinalized h)"

definition te_make_canonical :: "b256 \<Rightarrow> tree_event" where
  "te_make_canonical h = TreeAction (MakeCanonical h)"

fun te_as_witness_download :: "tree_event \<Rightarrow> b256 option" where
  "te_as_witness_download (Download (DownloadWitness h)) = Some h"
| "te_as_witness_download _ = None"

lemmas te_defs = te_download_witness_def te_download_block_def te_download_finalized_def
  te_make_canonical_def

lemma outcome_simps [simp]:
  "outcome (to_new x) = x" "event (to_new x) = None"
  "outcome (with_event e out) = outcome out" "event (with_event e out) = Some e"
  by (simp_all add: to_new_def with_event_def)

lemma te_as_witness_download_iff: "te_as_witness_download e = Some h \<longleftrightarrow> e = te_download_witness h"
  by (cases e rule: te_as_witness_download.cases) (auto simp: te_download_witness_def)

end
