(* ===== verification/Engine_Tree.thy ===== *)
theory Engine_Tree
  imports Block_Buffer Evm Tree_Outcome
begin

text \<open>
  The engine tree, \<open>src/crates/engine/src/tree/mod.rs\<close>: the state, and every method.

  The consensus rules, the payload validator, the invalid-header cache and the forkchoice tracker
  are reth's. Their calls are the fields of \<open>tree_deps\<close>, together with the parameters of the
  components below, and every method takes the record as its first argument. The stateless ones
  are functions; the cache and the tracker have states \<open>'c\<close> and \<open>'f\<close> in the tree. Events sent on
  the channel are appended to the list \<open>et_events\<close>; elapsed times and logging are left out.

  A method that walks parent hashes without a bound returns an option, \<open>None\<close> meaning that the
  walk never ends, and so does every method that calls one.
\<close>

section \<open>Types\<close>

record forkchoice_state =
  head_block_hash :: b256
  safe_block_hash :: b256
  finalized_block_hash :: b256

datatype payload_status_enum = Valid | Syncing | Invalid string

record payload_status =
  ps_status :: payload_status_enum
  ps_latest_valid_hash :: "b256 option"

datatype on_forkchoice_updated =
  Fcu_valid payload_status
| Fcu_invalid_state
| Fcu_with_invalid payload_status
| Fcu_invalid_payload_attributes

record block_with_parent =
  bwp_parent :: b256
  bwp_block :: block_num_hash

datatype consensus_error = Rule_violation string | BodyStateRootDiff b256 b256

type_synonym payload_error = string
type_synonym fatal_error = string
type_synonym validation_error = string
type_synonym payload_attributes = bytes
type_synonym execution_data = bytes
type_synonym api_version = "8 word"

datatype insert_error_kind =
  Consensus consensus_error
| Execution execution_error
| ProviderKind provider_error

datatype block_status = BS_Valid | BS_Disconnected block_num_hash block_num_hash | BS_NoWitness

datatype insert_payload_ok = AlreadySeen | Inserted block_status

datatype new_canonical_chain =
  Commit (ncc_new: "sealed_header list")
| Reorg (ncc_new: "sealed_header list") (ncc_old: "sealed_header list")

datatype forkchoice_status = Fcs_Valid | Fcs_Invalid | Fcs_Syncing

datatype engine_event =
  ForkchoiceUpdatedEvent forkchoice_state forkchoice_status
| CanonicalChainCommitted sealed_header
| ForkBlockAdded recovered_block execution_output
| CanonicalBlockAdded recovered_block execution_output

record ('d, 'u, 't, 's, 'l, 'c, 'f, 'x) tree_deps =
  it :: "b256 fset \<Rightarrow> b256 list"
  pnh :: parent_num_hash
  codec_of :: codec
  db :: "('d, 'u) db_ops"
  tries :: "('t, 's) trie_ops"
  arrive :: "'s worker_results \<Rightarrow> 's worker_results"
  evm :: "'x evm_ops"
  lru_of :: "'l lru_ops"
  from_bundle_state :: "bundle_state \<Rightarrow> hashed_post_state"
  ihc_new :: "u32 \<Rightarrow> 'c"
  ihc_get :: "b256 \<Rightarrow> 'c \<Rightarrow> block_with_parent option \<times> 'c"
  ihc_insert :: "block_with_parent \<Rightarrow> 'c \<Rightarrow> 'c"
  ihc_insert_with_invalid_ancestor :: "b256 \<Rightarrow> block_with_parent \<Rightarrow> 'c \<Rightarrow> 'c"
  fct_default :: 'f
  sync_target_state :: "'f \<Rightarrow> forkchoice_state option"
  validate_header_with_total_difficulty :: "header \<Rightarrow> u256 \<Rightarrow> consensus_error + unit"
  validate_header :: "sealed_header \<Rightarrow> consensus_error + unit"
  validate_block_pre_execution :: "sealed_block \<Rightarrow> consensus_error + unit"
  validate_header_against_parent :: "sealed_header \<Rightarrow> sealed_header \<Rightarrow> consensus_error + unit"
  validate_block_post_execution :: "recovered_block \<Rightarrow> execution_result \<Rightarrow> consensus_error + unit"
  payload_parent_hash :: "execution_data \<Rightarrow> b256"
  ensure_well_formed_payload :: "execution_data \<Rightarrow> payload_error + recovered_block"
  is_block_hash_mismatch :: "payload_error \<Rightarrow> bool"
  is_invalid_versioned_hashes :: "payload_error \<Rightarrow> bool"
  status_of_payload_error :: "payload_error \<Rightarrow> payload_status_enum"
  validate_payload_attributes_against_header :: "payload_attributes \<Rightarrow> header \<Rightarrow> payload_error + unit"
  payload_builder_attributes_try_new :: "b256 \<Rightarrow> payload_attributes \<Rightarrow> api_version \<Rightarrow> payload_error + unit"
  ensure_validation_error :: "insert_error_kind \<Rightarrow> fatal_error + validation_error"
  validation_error_to_string :: "validation_error \<Rightarrow> string"

record ('d, 'l, 'c, 'f) engine_tree =
  et_provider :: "'d ress_provider"
  et_canonical_head :: block_num_hash
  et_tracker :: 'f
  et_buffer :: "'l block_buffer"
  et_invalid :: 'c
  et_events :: "engine_event list"

text \<open>\<open>PayloadStatus::new\<close> and \<open>from_status\<close>, and the one constant message the tree builds.\<close>

definition ps_new :: "payload_status_enum \<Rightarrow> b256 option \<Rightarrow> payload_status" where
  "ps_new st h = \<lparr>ps_status = st, ps_latest_valid_hash = h\<rparr>"

definition links_to_rejected :: string where
  "links_to_rejected = ''links to previously rejected block''"

section \<open>Reading the tree\<close>

definition et_new ::
  "('d, 'u, 't, 's, 'l, 'c, 'f, 'x) tree_deps \<Rightarrow> 'd ress_provider \<Rightarrow> ('d, 'l, 'c, 'f) engine_tree" where
  "et_new D p =
     (let genesis = genesis_header (rp_chain_spec p)
      in \<lparr>et_provider = p,
          et_canonical_head = \<lparr>bnh_number = number genesis, bnh_hash = hash_slow (codec_of D) genesis\<rparr>,
          et_tracker = fct_default D, et_buffer = bb_new (lru_of D) 256, et_invalid = ihc_new D 256,
          et_events = []\<rparr>)"

definition et_is_sync_target_head ::
  "('d, 'u, 't, 's, 'l, 'c, 'f, 'x) tree_deps \<Rightarrow> ('d, 'l, 'c, 'f) engine_tree \<Rightarrow> b256 \<Rightarrow> bool" where
  "et_is_sync_target_head D t h =
     (case sync_target_state D (et_tracker t) of
        Some target \<Rightarrow> head_block_hash target = h
      | None \<Rightarrow> False)"

definition et_is_block_persisted_or_buffered :: "('d, 'l, 'c, 'f) engine_tree \<Rightarrow> b256 \<Rightarrow> bool" where
  "et_is_block_persisted_or_buffered t h \<longleftrightarrow>
     rp_sealed_header (et_provider t) h \<noteq> None \<or> h |\<in>| fmdom (blocks (et_buffer t))"

text \<open>The \<open>while let\<close> loop of \<open>is_fork\<close>.\<close>

partial_function (option) et_walk_is_fork ::
  "(b256 \<Rightarrow> sealed_header option) \<Rightarrow> block_num_hash \<Rightarrow> b256 \<Rightarrow> bool option" where
  "et_walk_is_fork get head current_hash =
     (case get current_hash of
        None \<Rightarrow> Some True
      | Some current_block \<Rightarrow>
          if hash current_block = bnh_hash head then Some False
          else if number current_block \<le> bnh_number head then Some True
          else et_walk_is_fork get head (parent_hash current_block))"

definition et_is_fork :: "('d, 'l, 'c, 'f) engine_tree \<Rightarrow> b256 \<Rightarrow> bool option" where
  "et_is_fork t target_hash =
     et_walk_is_fork (rp_sealed_header (et_provider t)) (et_canonical_head t) target_hash"

definition et_emit_event :: "engine_event \<Rightarrow> ('d, 'l, 'c, 'f) engine_tree \<Rightarrow> ('d, 'l, 'c, 'f) engine_tree" where
  "et_emit_event e t = t\<lparr>et_events := et_events t @ [e]\<rparr>"

definition et_set_canonical_head ::
  "block_num_hash \<Rightarrow> ('d, 'l, 'c, 'f) engine_tree \<Rightarrow> ('d, 'l, 'c, 'f) engine_tree" where
  "et_set_canonical_head head t = t\<lparr>et_canonical_head := head\<rparr>"

text \<open>The lowest buffered ancestor's parent, or the hash itself.\<close>

definition et_lowest_buffered_ancestor_or :: "('d, 'l, 'c, 'f) engine_tree \<Rightarrow> b256 \<Rightarrow> b256 option" where
  "et_lowest_buffered_ancestor_or t h = do {
     lowest \<leftarrow> bb_lowest_ancestor (et_buffer t) h;
     Some (case lowest of None \<Rightarrow> h | Some block \<Rightarrow> parent_hash block)
   }"

section \<open>New canonical chains\<close>

definition ncc_tip :: "new_canonical_chain \<Rightarrow> sealed_header" where
  "ncc_tip update = last (ncc_new update)"

definition ncc_new_block_count :: "new_canonical_chain \<Rightarrow> nat" where
  "ncc_new_block_count update = length (ncc_new update)"

definition ncc_reorged_block_count :: "new_canonical_chain \<Rightarrow> nat" where
  "ncc_reorged_block_count update =
     (case update of Commit _ \<Rightarrow> 0 | Reorg _ old \<Rightarrow> length old)"

text \<open>The first two loops of \<open>on_new_head\<close>: walk back, one number at a time, until the number
  \<open>stop\<close>. \<open>None\<close> is the early return on a block that is not stored.\<close>

function et_walk_back ::
  "(b256 \<Rightarrow> sealed_header option) \<Rightarrow> u64 \<Rightarrow> u64 \<Rightarrow> b256 \<Rightarrow> sealed_header list
     \<Rightarrow> (u64 \<times> b256 \<times> sealed_header list) option" where
  "et_walk_back get stop n h chain =
     (if stop < n
      then case get h of
             Some header \<Rightarrow> et_walk_back get stop (n - 1) (parent_hash header) (chain @ [header])
           | None \<Rightarrow> None
      else Some (n, h, chain))"
  by pat_completeness auto
termination
  by (relation "measure (\<lambda>(get, stop, n, h, chain). unat n)")
     (auto intro!: unat_minus_one_less)

declare et_walk_back.simps [simp del]

text \<open>The third loop: walk both chains back to the common ancestor. The outer option is
  termination, the inner one the early return.\<close>

partial_function (option) et_walk_fork ::
  "(b256 \<Rightarrow> sealed_header option) \<Rightarrow> b256 \<Rightarrow> b256 \<Rightarrow> sealed_header list \<Rightarrow> sealed_header list
     \<Rightarrow> (sealed_header list \<times> sealed_header list) option option" where
  "et_walk_fork get old_hash current_hash old_chain new_chain =
     (if old_hash = current_hash then Some (Some (old_chain, new_chain))
      else case get old_hash of
             None \<Rightarrow> Some None
           | Some old \<Rightarrow>
               (case get current_hash of
                  None \<Rightarrow> Some None
                | Some new \<Rightarrow>
                    et_walk_fork get (parent_hash old) (parent_hash new)
                      (old_chain @ [old]) (new_chain @ [new])))"

definition et_on_new_head ::
  "('d, 'u, 't, 's, 'l, 'c, 'f, 'x) tree_deps \<Rightarrow> ('d, 'l, 'c, 'f) engine_tree \<Rightarrow> b256
     \<Rightarrow> new_canonical_chain option option" where
  "et_on_new_head D t new_head =
     (let get = rp_sealed_header (et_provider t); head = et_canonical_head t
      in case get new_head of
           None \<Rightarrow> Some None
         | Some new_head_block \<Rightarrow>
             let parent = pnh D (header.truncate new_head_block)
             in case et_walk_back get (bnh_number head) (bnh_number parent) (bnh_hash parent) [new_head_block] of
                  None \<Rightarrow> Some None
                | Some (current_number, current_hash, new_chain) \<Rightarrow>
                    if current_hash = bnh_hash head then Some (Some (Commit (rev new_chain)))
                    else case et_walk_back get current_number (bnh_number head) (bnh_hash head) [] of
                           None \<Rightarrow> Some None
                         | Some (_, old_hash, old_chain) \<Rightarrow>
                             do {
                               r \<leftarrow> et_walk_fork get old_hash current_hash old_chain new_chain;
                               Some (map_option (\<lambda>(old, new). Reorg (rev new) (rev old)) r)
                             })"

definition et_on_canonical_chain_update ::
  "new_canonical_chain \<Rightarrow> ('d, 'l, 'c, 'f) engine_tree \<Rightarrow> ('d, 'l, 'c, 'f) engine_tree" where
  "et_on_canonical_chain_update update t =
     (let tip = ncc_tip update;
          t = et_set_canonical_head (num_hash tip) t;
          (new, old) = (case update of Commit new \<Rightarrow> (new, []) | Reorg new old \<Rightarrow> (new, old));
          t = t\<lparr>et_provider := rp_on_chain_update new old (et_provider t)\<rparr>
      in et_emit_event (CanonicalChainCommitted tip) t)"

definition et_make_canonical ::
  "('d, 'u, 't, 's, 'l, 'c, 'f, 'x) tree_deps \<Rightarrow> b256 \<Rightarrow> ('d, 'l, 'c, 'f) engine_tree
     \<Rightarrow> ('d, 'l, 'c, 'f) engine_tree option" where
  "et_make_canonical D target t = do {
     update \<leftarrow> et_on_new_head D t target;
     Some (case update of None \<Rightarrow> t | Some u \<Rightarrow> et_on_canonical_chain_update u t)
   }"

section \<open>Invalid ancestors\<close>

text \<open>The loop of \<open>latest_valid_hash_for_invalid_payload\<close> over the cache of invalid headers, which
  counts hits and may forget an entry on reading it.\<close>

partial_function (option) et_walk_invalid ::
  "(b256 \<Rightarrow> 'c \<Rightarrow> block_with_parent option \<times> 'c) \<Rightarrow> (b256 \<Rightarrow> bool) \<Rightarrow> block_with_parent option \<Rightarrow> 'c
     \<Rightarrow> (b256 option \<times> 'c) option" where
  "et_walk_invalid get known current_block cache =
     (case current_block of
        None \<Rightarrow> Some (None, cache)
      | Some block_with_parent \<Rightarrow>
          let current_hash = bwp_parent block_with_parent;
              (current_block, cache) = get current_hash cache
          in if current_block = None \<and> known current_hash then Some (Some current_hash, cache)
             else et_walk_invalid get known current_block cache)"

definition et_latest_valid_hash_for_invalid_payload ::
  "('d, 'u, 't, 's, 'l, 'c, 'f, 'x) tree_deps \<Rightarrow> b256 \<Rightarrow> ('d, 'l, 'c, 'f) engine_tree \<Rightarrow> (b256 option \<times> ('d, 'l, 'c, 'f) engine_tree) option" where
  "et_latest_valid_hash_for_invalid_payload D parent t =
     (let known = (\<lambda>h. rp_sealed_header (et_provider t) h \<noteq> None)
      in if known parent then Some (Some parent, t)
         else let (current_block, cache) = ihc_get D parent (et_invalid t)
              in do {
                   (r, cache) \<leftarrow> et_walk_invalid (ihc_get D) known current_block cache;
                   Some (r, t\<lparr>et_invalid := cache\<rparr>)
                 })"

definition et_prepare_invalid_response ::
  "('d, 'u, 't, 's, 'l, 'c, 'f, 'x) tree_deps \<Rightarrow> b256 \<Rightarrow> ('d, 'l, 'c, 'f) engine_tree \<Rightarrow> (payload_status \<times> ('d, 'l, 'c, 'f) engine_tree) option" where
  "et_prepare_invalid_response D parent t =
     (let parent =
            (case rp_sealed_header (et_provider t) parent of
               Some p \<Rightarrow> if difficulty p \<noteq> 0 then 0 else parent
             | None \<Rightarrow> parent)
      in do {
           (valid_parent_hash, t) \<leftarrow> et_latest_valid_hash_for_invalid_payload D parent t;
           Some (ps_new (Invalid links_to_rejected)
                   (Some (case valid_parent_hash of None \<Rightarrow> 0 | Some h \<Rightarrow> h)), t)
         })"

definition et_check_invalid_ancestor ::
  "('d, 'u, 't, 's, 'l, 'c, 'f, 'x) tree_deps \<Rightarrow> b256 \<Rightarrow> ('d, 'l, 'c, 'f) engine_tree \<Rightarrow> (payload_status option \<times> ('d, 'l, 'c, 'f) engine_tree) option" where
  "et_check_invalid_ancestor D head t =
     (let (found, cache) = ihc_get D head (et_invalid t); t = t\<lparr>et_invalid := cache\<rparr>
      in case found of
           None \<Rightarrow> Some (None, t)
         | Some header \<Rightarrow> do {
             (status, t) \<leftarrow> et_prepare_invalid_response D (bwp_parent header) t;
             Some (Some status, t)
           })"

definition et_check_invalid_ancestor_with_head ::
  "('d, 'u, 't, 's, 'l, 'c, 'f, 'x) tree_deps \<Rightarrow> b256 \<Rightarrow> b256 \<Rightarrow> ('d, 'l, 'c, 'f) engine_tree \<Rightarrow> (payload_status option \<times> ('d, 'l, 'c, 'f) engine_tree) option" where
  "et_check_invalid_ancestor_with_head D check head t =
     (let (found, cache) = ihc_get D check (et_invalid t); t = t\<lparr>et_invalid := cache\<rparr>
      in case found of
           None \<Rightarrow> Some (None, t)
         | Some header \<Rightarrow> do {
             (status, t) \<leftarrow> et_prepare_invalid_response D (bwp_parent header) t;
             Some (Some status,
                   t\<lparr>et_invalid := ihc_insert_with_invalid_ancestor D head header (et_invalid t)\<rparr>)
           })"

definition et_on_insert_block_error ::
  "('d, 'u, 't, 's, 'l, 'c, 'f, 'x) tree_deps \<Rightarrow> sealed_block \<Rightarrow> insert_error_kind \<Rightarrow> ('d, 'l, 'c, 'f) engine_tree
     \<Rightarrow> ((fatal_error + payload_status) \<times> ('d, 'l, 'c, 'f) engine_tree) option" where
  "et_on_insert_block_error D block error t =
     (case ensure_validation_error D error of
        Inl fatal \<Rightarrow> Some (Inl fatal, t)
      | Inr validation_err \<Rightarrow> do {
          (latest_valid_hash, t) \<leftarrow> et_latest_valid_hash_for_invalid_payload D (parent_hash block) t;
          let t = t\<lparr>et_invalid := ihc_insert D
                \<lparr>bwp_parent = parent_hash block, bwp_block = num_hash block\<rparr> (et_invalid t)\<rparr>;
          Some (Inr (ps_new (Invalid (validation_error_to_string D validation_err)) latest_valid_hash), t)
        })"

section \<open>Inserting blocks\<close>

definition et_validate_block :: "('d, 'u, 't, 's, 'l, 'c, 'f, 'x) tree_deps \<Rightarrow> sealed_block \<Rightarrow> consensus_error + unit" where
  "et_validate_block D block =
     (case validate_header_with_total_difficulty D (header.truncate block) (- 1) of
        Inl e \<Rightarrow> Inl e
      | Inr _ \<Rightarrow>
          (case validate_header D (sealed_header.truncate block) of
             Inl e \<Rightarrow> Inl e
           | Inr _ \<Rightarrow> validate_block_pre_execution D block))"

text \<open>The revealed nodes by their hash.\<close>

definition state_witness_map :: "codec \<Rightarrow> bytes list \<Rightarrow> (b256, bytes) fmap" where
  "state_witness_map c encoded = fold (\<lambda>e. fmupd (keccak256 c e) e) encoded fmempty"

text \<open>What \<open>insert_block\<close> computes between the witness and the update of the node state: the trie
  is revealed, the block executed, its result and its state root validated.\<close>

definition et_execute_block ::
  "('d, 'u, 't, 's, 'l, 'c, 'f, 'x) tree_deps \<Rightarrow> 'd ress_provider \<Rightarrow> sealed_header \<Rightarrow> recovered_block \<Rightarrow> execution_witness
     \<Rightarrow> insert_error_kind + execution_output" where
  "et_execute_block D p parent block witness =
     (let c = codec_of D in
      case reveal_witness (tries D) (state_root parent)
             (state_witness_map c (ew_state_witness witness)) (trie_new (tries D)) of
        Inl e \<Rightarrow> Inl (ProviderKind (TrieWitnessError (Trie_error e)))
      | Inr trie \<Rightarrow>
          let ex = be_new c (pnh D) (db D) (tries D) (evm D) p (pnh D (header.truncate block)) trie
          in case be_execute (evm D) ex block of
               Inl e \<Rightarrow> Inl (Execution e)
             | Inr output \<Rightarrow>
                 (case validate_block_post_execution D block (eo_result output) of
                    Inl e \<Rightarrow> Inl (Consensus e)
                  | Inr _ \<Rightarrow>
                      (case calculate_state_root c (tries D) (it D) (arrive D) trie
                              (from_bundle_state D (eo_state output)) of
                         Inl e \<Rightarrow> Inl (ProviderKind (TrieWitnessError (Trie_error e)))
                       | Inr (root, _) \<Rightarrow>
                           if root \<noteq> state_root block
                           then Inl (Consensus (BodyStateRootDiff root (state_root block)))
                           else Inr output)))"

text \<open>The branch of a block whose parent is not stored.\<close>

definition et_buffer_disconnected ::
  "('d, 'u, 't, 's, 'l, 'c, 'f, 'x) tree_deps \<Rightarrow> recovered_block \<Rightarrow> execution_witness option \<Rightarrow> ('d, 'l, 'c, 'f) engine_tree
     \<Rightarrow> ((insert_error_kind + insert_payload_ok) \<times> ('d, 'l, 'c, 'f) engine_tree) option" where
  "et_buffer_disconnected D block maybe_witness t = do {
     lowest \<leftarrow> bb_lowest_ancestor (et_buffer t) (parent_hash block);
     let missing_ancestor =
       (case lowest of
          Some b \<Rightarrow> pnh D (header.truncate b)
        | None \<Rightarrow> pnh D (header.truncate block));
     let buffer =
       (case maybe_witness of
          Some w \<Rightarrow> bb_insert_witness (hash block) w {||} (et_buffer t)
        | None \<Rightarrow> et_buffer t);
     let t = t\<lparr>et_buffer := bb_insert_block (lru_of D) block buffer\<rparr>;
     Some (Inr (Inserted (BS_Disconnected (et_canonical_head t) missing_ancestor)), t)
   }"

definition et_insert_block ::
  "('d, 'u, 't, 's, 'l, 'c, 'f, 'x) tree_deps \<Rightarrow> recovered_block \<Rightarrow> execution_witness option \<Rightarrow> ('d, 'l, 'c, 'f) engine_tree
     \<Rightarrow> ((insert_error_kind + insert_payload_ok) \<times> ('d, 'l, 'c, 'f) engine_tree) option" where
  "et_insert_block D block maybe_witness t =
     (if rp_sealed_header (et_provider t) (hash block) \<noteq> None then Some (Inr AlreadySeen, t)
      else case et_validate_block D (sealed_block.truncate block) of
        Inl e \<Rightarrow> Some (Inl (Consensus e), t)
      | Inr _ \<Rightarrow>
          (case rp_sealed_header (et_provider t) (parent_hash block) of
             None \<Rightarrow> et_buffer_disconnected D block maybe_witness t
           | Some parent \<Rightarrow>
               let parent = parent\<lparr>hash := parent_hash block\<rparr>
               in case validate_header_against_parent D (sealed_header.truncate block) parent of
                    Inl e \<Rightarrow> Some (Inl (Consensus e), t)
                  | Inr _ \<Rightarrow>
                      (case maybe_witness of
                         None \<Rightarrow>
                           Some (Inr (Inserted BS_NoWitness),
                                 t\<lparr>et_buffer := bb_insert_block (lru_of D) block (et_buffer t)\<rparr>)
                       | Some witness \<Rightarrow>
                           (case et_execute_block D (et_provider t) parent block witness of
                              Inl e \<Rightarrow> Some (Inl e, t)
                            | Inr output \<Rightarrow>
                                let t = t\<lparr>et_provider :=
                                      rp_insert_block block (Some (ew_state_witness witness)) (et_provider t)\<rparr>
                                in do {
                                     fork \<leftarrow> et_is_fork t (hash block);
                                     let ev = (if fork then ForkBlockAdded block output
                                               else CanonicalBlockAdded block output);
                                     Some (Inr (Inserted BS_Valid), et_emit_event ev t)
                                   }))))"

text \<open>The \<open>for\<close> loop of \<open>try_connect_buffered_blocks\<close>.\<close>

fun et_connect_each ::
  "('d, 'u, 't, 's, 'l, 'c, 'f, 'x) tree_deps \<Rightarrow> (recovered_block \<times> execution_witness) list \<Rightarrow> ('d, 'l, 'c, 'f) engine_tree \<Rightarrow> ((fatal_error + unit) \<times> ('d, 'l, 'c, 'f) engine_tree) option" where
  "et_connect_each D [] t = Some (Inr (), t)"
| "et_connect_each D ((child, witness) # rest) t = do {
     (result, t) \<leftarrow> et_insert_block D child (Some witness) t;
     case result of
       Inr ok \<Rightarrow> do {
         t \<leftarrow> (if et_is_sync_target_head D t (hash child) \<and> ok = Inserted BS_Valid
               then et_make_canonical D (hash child) t
               else Some t);
         et_connect_each D rest t
       }
     | Inl kind \<Rightarrow> do {
         (handled, t) \<leftarrow> et_on_insert_block_error D (sealed_block.truncate child) kind t;
         case handled of
           Inl fatal \<Rightarrow> Some (Inl fatal, t)
         | Inr _ \<Rightarrow> et_connect_each D rest t
       }
   }"

definition et_try_connect_buffered_blocks ::
  "('d, 'u, 't, 's, 'l, 'c, 'f, 'x) tree_deps \<Rightarrow> b256 \<Rightarrow> ('d, 'l, 'c, 'f) engine_tree \<Rightarrow> ((fatal_error + unit) \<times> ('d, 'l, 'c, 'f) engine_tree) option" where
  "et_try_connect_buffered_blocks D parent t =
     (let (blocks, buffer) = bb_remove_block_with_children (it D) (lru_of D) parent (et_buffer t);
          t = t\<lparr>et_buffer := buffer\<rparr>
      in if blocks = [] then Some (Inr (), t) else et_connect_each D blocks t)"

section \<open>Payloads and downloaded blocks\<close>

definition et_on_downloaded_block ::
  "('d, 'u, 't, 's, 'l, 'c, 'f, 'x) tree_deps \<Rightarrow> recovered_block \<Rightarrow> execution_witness \<Rightarrow> ('d, 'l, 'c, 'f) engine_tree
     \<Rightarrow> ((fatal_error + payload_status tree_outcome) \<times> ('d, 'l, 'c, 'f) engine_tree) option" where
  "et_on_downloaded_block D block witness t = do {
     lowest \<leftarrow> et_lowest_buffered_ancestor_or t (hash block);
     (invalid, t) \<leftarrow> et_check_invalid_ancestor_with_head D lowest (hash block) t;
     case invalid of
       Some status \<Rightarrow> Some (Inr (to_new status), t)
     | None \<Rightarrow> do {
         (result, t) \<leftarrow> et_insert_block D block (Some witness) t;
         case result of
           Inr (Inserted BS_Valid) \<Rightarrow> do {
             let maybe_event = (if et_is_sync_target_head D t (hash block)
                                then Some (te_make_canonical (hash block)) else None);
             (connected, t) \<leftarrow> et_try_connect_buffered_blocks D (hash block) t;
             Some (case connected of
                     Inl fatal \<Rightarrow> Inl fatal
                   | Inr _ \<Rightarrow>
                       let out = to_new (ps_new Valid (Some (hash block)))
                       in Inr (case maybe_event of None \<Rightarrow> out | Some e \<Rightarrow> with_event e out), t)
           }
         | Inr AlreadySeen \<Rightarrow> Some (Inr (to_new (ps_new Valid (Some (hash block)))), t)
         | Inr (Inserted (BS_Disconnected _ missing_ancestor)) \<Rightarrow>
             Some (Inr (with_event (te_download_block (bnh_hash missing_ancestor))
                          (to_new (ps_new Syncing None))), t)
         | Inr (Inserted BS_NoWitness) \<Rightarrow>
             Some (Inr (with_event (te_download_witness (hash block)) (to_new (ps_new Syncing None))), t)
         | Inl kind \<Rightarrow> do {
             (handled, t) \<leftarrow> et_on_insert_block_error D (sealed_block.truncate block) kind t;
             Some (map_sum id to_new handled, t)
           }
       }
   }"

definition et_on_new_payload ::
  "('d, 'u, 't, 's, 'l, 'c, 'f, 'x) tree_deps \<Rightarrow> execution_data \<Rightarrow> execution_witness option \<Rightarrow> ('d, 'l, 'c, 'f) engine_tree
     \<Rightarrow> ((fatal_error + payload_status tree_outcome) \<times> ('d, 'l, 'c, 'f) engine_tree) option" where
  "et_on_new_payload D payload maybe_witness t =
     (case ensure_well_formed_payload D payload of
        Inl error \<Rightarrow> do {
          (latest_valid_hash, t) \<leftarrow>
            (if is_block_hash_mismatch D error \<or> is_invalid_versioned_hashes D error
             then Some (None, t)
             else et_latest_valid_hash_for_invalid_payload D (payload_parent_hash D payload) t);
          Some (Inr (to_new (ps_new (status_of_payload_error D error) latest_valid_hash)), t)
        }
      | Inr block \<Rightarrow> do {
          lowest \<leftarrow> et_lowest_buffered_ancestor_or t (hash block);
          let lowest = (if lowest = hash block then parent_hash block else lowest);
          (invalid, t) \<leftarrow> et_check_invalid_ancestor_with_head D lowest (hash block) t;
          case invalid of
            Some status \<Rightarrow> Some (Inr (to_new status), t)
          | None \<Rightarrow> do {
              (result, t) \<leftarrow> et_insert_block D block maybe_witness t;
              case result of
                Inr (Inserted (BS_Disconnected _ missing_ancestor)) \<Rightarrow>
                  Some (Inr (with_event (te_download_block (bnh_hash missing_ancestor))
                               (to_new (ps_new Syncing None))), t)
              | Inr (Inserted BS_NoWitness) \<Rightarrow>
                  Some (Inr (with_event (te_download_witness (hash block)) (to_new (ps_new Syncing None))), t)
              | Inr _ \<Rightarrow> do {
                  (connected, t) \<leftarrow> et_try_connect_buffered_blocks D (hash block) t;
                  Some (case connected of
                          Inl fatal \<Rightarrow> Inl fatal
                        | Inr _ \<Rightarrow>
                            let out = to_new (ps_new Valid (Some (hash block)))
                            in Inr (if et_is_sync_target_head D t (hash block)
                                    then with_event (te_make_canonical (hash block)) out else out), t)
                }
              | Inl kind \<Rightarrow> do {
                  (handled, t) \<leftarrow> et_on_insert_block_error D (sealed_block.truncate block) kind t;
                  Some (map_sum id to_new handled, t)
                }
            }
        })"

section \<open>Forkchoice updates\<close>

definition et_pre_validate_forkchoice_update ::
  "('d, 'u, 't, 's, 'l, 'c, 'f, 'x) tree_deps \<Rightarrow> forkchoice_state \<Rightarrow> ('d, 'l, 'c, 'f) engine_tree \<Rightarrow> (on_forkchoice_updated option \<times> ('d, 'l, 'c, 'f) engine_tree) option" where
  "et_pre_validate_forkchoice_update D state t =
     (if head_block_hash state = 0 then Some (Some Fcu_invalid_state, t)
      else do {
        lowest \<leftarrow> et_lowest_buffered_ancestor_or t (head_block_hash state);
        (invalid, t) \<leftarrow> et_check_invalid_ancestor D lowest t;
        Some (map_option Fcu_with_invalid invalid, t)
      })"

definition et_ensure_consistent_forkchoice_state ::
  "forkchoice_state \<Rightarrow> ('d, 'l, 'c, 'f) engine_tree \<Rightarrow> on_forkchoice_updated + unit" where
  "et_ensure_consistent_forkchoice_state state t =
     (if finalized_block_hash state \<noteq> 0 \<and>
         \<not> rp_is_hash_canonical (et_provider t) (finalized_block_hash state)
      then Inl Fcu_invalid_state
      else if safe_block_hash state \<noteq> 0 \<and>
              \<not> rp_is_hash_canonical (et_provider t) (safe_block_hash state)
      then Inl Fcu_invalid_state
      else Inr ())"

definition et_validate_payload_attributes ::
  "('d, 'u, 't, 's, 'l, 'c, 'f, 'x) tree_deps \<Rightarrow> payload_attributes \<Rightarrow> header \<Rightarrow> forkchoice_state \<Rightarrow> api_version
     \<Rightarrow> on_forkchoice_updated option" where
  "et_validate_payload_attributes D attrs head state version =
     (case validate_payload_attributes_against_header D attrs head of
        Inl _ \<Rightarrow> Some Fcu_invalid_payload_attributes
      | Inr _ \<Rightarrow>
          (case payload_builder_attributes_try_new D (head_block_hash state) attrs version of
             Inl _ \<Rightarrow> Some Fcu_invalid_payload_attributes
           | Inr _ \<Rightarrow> None))"

text \<open>The last part of \<open>on_forkchoice_updated\<close>: the head is missing, and something is downloaded.\<close>

definition et_sync_to_head ::
  "forkchoice_state \<Rightarrow> ('d, 'l, 'c, 'f) engine_tree \<Rightarrow> on_forkchoice_updated tree_outcome option" where
  "et_sync_to_head state t =
     (let out = to_new (Fcu_valid (ps_new Syncing None))
      in if finalized_block_hash state \<noteq> 0 \<and>
            \<not> et_is_block_persisted_or_buffered t (finalized_block_hash state)
         then Some (with_event (te_download_finalized (finalized_block_hash state)) out)
         else do {
           let target =
             (if safe_block_hash state \<noteq> 0 \<and>
                 \<not> et_is_block_persisted_or_buffered t (safe_block_hash state)
              then safe_block_hash state else head_block_hash state);
           target \<leftarrow> et_lowest_buffered_ancestor_or t target;
           Some (if target \<noteq> finalized_block_hash state \<and> \<not> et_is_block_persisted_or_buffered t target
                 then with_event (te_download_block target) out else out)
         })"

text \<open>The branch of a head that is canonical already.\<close>

definition et_fcu_same_head ::
  "('d, 'u, 't, 's, 'l, 'c, 'f, 'x) tree_deps \<Rightarrow> forkchoice_state \<Rightarrow> payload_attributes option \<Rightarrow> api_version \<Rightarrow> ('d, 'l, 'c, 'f) engine_tree
     \<Rightarrow> provider_error + on_forkchoice_updated tree_outcome" where
  "et_fcu_same_head D state attrs version t =
     (let valid = Fcu_valid (ps_new Valid (Some (head_block_hash state)))
      in case et_ensure_consistent_forkchoice_state state t of
           Inl out \<Rightarrow> Inr (to_new out)
         | Inr _ \<Rightarrow>
             (case attrs of
                None \<Rightarrow> Inr (to_new valid)
              | Some attr \<Rightarrow>
                  (case rp_sealed_header (et_provider t) (bnh_hash (et_canonical_head t)) of
                     None \<Rightarrow> Inl (HeaderNotFound (head_block_hash state))
                   | Some tip \<Rightarrow>
                       (case et_validate_payload_attributes D attr (header.truncate tip) state version of
                          Some status \<Rightarrow> Inr (to_new status)
                        | None \<Rightarrow> Inr (to_new valid)))))"

text \<open>The branch of a head that can be made canonical, after \<open>on_new_head\<close> returned \<open>update\<close>.\<close>

definition et_fcu_new_head ::
  "('d, 'u, 't, 's, 'l, 'c, 'f, 'x) tree_deps \<Rightarrow> new_canonical_chain \<Rightarrow> forkchoice_state \<Rightarrow> payload_attributes option \<Rightarrow> api_version \<Rightarrow> ('d, 'l, 'c, 'f) engine_tree
     \<Rightarrow> on_forkchoice_updated tree_outcome \<times> ('d, 'l, 'c, 'f) engine_tree" where
  "et_fcu_new_head D update state attrs version t =
     (let tip = ncc_tip update;
          t = et_on_canonical_chain_update update t
      in case et_ensure_consistent_forkchoice_state state t of
           Inl out \<Rightarrow> (to_new out, t)
         | Inr _ \<Rightarrow>
             let t = t\<lparr>et_provider := rp_on_finalized (it D) (finalized_block_hash state) (et_provider t)\<rparr>;
                 t = (case rp_block_number (et_provider t) (finalized_block_hash state) of
                        Some n \<Rightarrow> t\<lparr>et_buffer := bb_evict_old_blocks (it D) (lru_of D) n (et_buffer t)\<rparr>
                      | None \<Rightarrow> t);
                 valid = Fcu_valid (ps_new Valid (Some (head_block_hash state)))
             in (case attrs of
                   None \<Rightarrow> to_new valid
                 | Some attr \<Rightarrow>
                     (case et_validate_payload_attributes D attr (header.truncate tip) state version of
                        Some status \<Rightarrow> to_new status
                      | None \<Rightarrow> to_new valid), t))"

definition et_on_forkchoice_updated ::
  "('d, 'u, 't, 's, 'l, 'c, 'f, 'x) tree_deps \<Rightarrow> forkchoice_state \<Rightarrow> payload_attributes option \<Rightarrow> api_version \<Rightarrow> ('d, 'l, 'c, 'f) engine_tree
     \<Rightarrow> ((provider_error + on_forkchoice_updated tree_outcome) \<times> ('d, 'l, 'c, 'f) engine_tree) option" where
  "et_on_forkchoice_updated D state attrs version t = do {
     (on_updated, t) \<leftarrow> et_pre_validate_forkchoice_update D state t;
     case on_updated of
       Some out \<Rightarrow> Some (Inr (to_new out), t)
     | None \<Rightarrow>
         if bnh_hash (et_canonical_head t) = head_block_hash state
         then Some (et_fcu_same_head D state attrs version t, t)
         else do {
           update \<leftarrow> et_on_new_head D t (head_block_hash state);
           case update of
             Some update \<Rightarrow>
               let (out, t) = et_fcu_new_head D update state attrs version t in Some (Inr out, t)
           | None \<Rightarrow>
               if rp_sealed_header (et_provider t) (head_block_hash state) \<noteq> None
               then Some (Inr (to_new (Fcu_valid (ps_new Valid (Some (head_block_hash state))))), t)
               else do {
                 out \<leftarrow> et_sync_to_head state t;
                 Some (Inr out, t)
               }
         }
   }"

end
