(* ===== verification/Buffer_Drain.thy ===== *)
theory Buffer_Drain
  imports Block_Buffer
begin

text \<open>
  What the two loops over \<open>parent_to_child\<close> do, \<open>remove_children\<close> and \<open>evict_children\<close>. They
  share a contract, the locale \<open>child_drain\<close>: a stack of parents, a body that takes the children
  of the parent it pops, and the entry of that parent dropped. The contract gives the outcome of
  the whole loop: exactly the descendants of the stack are visited, and their entries are gone.
  \<open>child_collect\<close> extends it with the blocks the loop returns and their order. The buffer's
  well-formedness is defined here, with what each single operation does to it, and both locales
  are interpreted on the buffer's operations.
\<close>

section \<open>Descendants in the parent-to-child map\<close>

inductive_set descendants :: "('k, 'k fset) fmap \<Rightarrow> 'k set \<Rightarrow> 'k set" for G R where
  child: "p \<in> R \<Longrightarrow> entry G p h \<Longrightarrow> h \<in> descendants G R"
| grandchild: "p \<in> descendants G R \<Longrightarrow> entry G p h \<Longrightarrow> h \<in> descendants G R"

lemma descendants_empty [simp]: "descendants G {} = {}"
proof -
  have "h \<in> descendants G {} \<Longrightarrow> False" for h
    by (induction rule: descendants.induct) auto
  then show ?thesis by blast
qed

lemma descendants_has_parent:
  "h \<in> descendants G R \<Longrightarrow> \<exists>p. entry G p h \<and> (p \<in> R \<or> p \<in> descendants G R)"
  by (erule descendants.cases) auto

lemma descendants_mono:
  assumes "\<And>p h. entry G p h \<Longrightarrow> entry G' p h" "R \<subseteq> R'"
  shows "descendants G R \<subseteq> descendants G' R'"
proof
  fix h assume "h \<in> descendants G R"
  then show "h \<in> descendants G' R'"
    by (induction rule: descendants.induct) (use assms in \<open>auto intro: descendants.intros\<close>)
qed

lemma descendants_pop_None:
  assumes "fmlookup G p = None"
  shows "descendants G (insert p R) = descendants G R"
proof
  show "descendants G (insert p R) \<subseteq> descendants G R"
  proof
    fix h assume "h \<in> descendants G (insert p R)"
    then show "h \<in> descendants G R"
      by (induction rule: descendants.induct)
         (use entry_lookup_None [OF assms] in \<open>auto intro: descendants.intros\<close>)
  qed
qed (rule descendants_mono, auto)

lemma descendants_pop_Some:
  assumes p: "fmlookup G p = Some cs"
  shows "descendants G (insert p R) = fset cs \<union> descendants (fmdrop p G) (R \<union> fset cs)"
    (is "?L = ?M")
proof
  show "?L \<subseteq> ?M"
  proof
    fix h assume "h \<in> ?L"
    then show "h \<in> ?M"
    proof (induction rule: descendants.induct)
      case (child q h)
      then show ?case
        by (cases "q = p")
           (auto simp: entry_lookup_Some [OF p] view_simps intro: descendants.child)
    next
      case (grandchild q h)
      then show ?case
        by (cases "q = p")
           (auto simp: entry_lookup_Some [OF p] view_simps intro: descendants.intros)
    qed
  qed
  have cs: "fset cs \<subseteq> ?L"
    by (auto simp: entry_lookup_Some [OF p] intro: descendants.child)
  have "h \<in> ?L" if "h \<in> descendants (fmdrop p G) (R \<union> fset cs)" for h
    using that
  proof (induction rule: descendants.induct)
    case (child q h)
    then have "entry G q h" by (simp add: view_simps)
    with child.hyps(1) cs show ?case by (blast intro: descendants.intros)
  next
    case (grandchild q h)
    then have "entry G q h" by (simp add: view_simps)
    with grandchild.IH show ?case by (rule descendants.grandchild)
  qed
  with cs show "?M \<subseteq> ?L" by blast
qed

section \<open>The contract of the loops\<close>

abbreviation drop_parent :: "b256 \<Rightarrow> 'l block_buffer \<Rightarrow> 'l block_buffer" where
  "drop_parent p s \<equiv> s\<lparr>parent_to_child := fmdrop p (parent_to_child s)\<rparr>"

locale child_drain =
  fixes it :: "b256 fset \<Rightarrow> b256 list"
    and each :: "b256 list \<Rightarrow> 'l block_buffer \<Rightarrow> 'l block_buffer"
    and drain :: "b256 list \<Rightarrow> 'l block_buffer \<Rightarrow> 'l block_buffer"
    and takes :: "'l block_buffer \<Rightarrow> b256 \<Rightarrow> bool"
    and inv :: "'l block_buffer \<Rightarrow> bool"
  assumes drain_Nil: "drain [] s = s"
    and drain_None: "fmlookup (parent_to_child s) p = None \<Longrightarrow> drain (ps @ [p]) s = drain ps s"
    and drain_Some: "fmlookup (parent_to_child s) p = Some cs \<Longrightarrow>
          drain (ps @ [p]) s = drain (ps @ it cs) (each (it cs) (drop_parent p s))"
    and order: "inv s \<Longrightarrow> iteration_order it"
    and inv_drop: "inv s \<Longrightarrow> inv (drop_parent p s)"
    and sound: "inv s \<Longrightarrow> index_sound parent_hash (parent_to_child s) (blocks s)"
    and each_law: "inv s \<Longrightarrow> distinct hs \<Longrightarrow>
          (\<And>h b. h \<in> set hs \<Longrightarrow> fmlookup (blocks s) h = Some b
                  \<Longrightarrow> fmlookup (parent_to_child s) (parent_hash b) = None) \<Longrightarrow>
          inv (each hs s) \<and> parent_to_child (each hs s) = parent_to_child s \<and>
          (\<forall>h. fmlookup (blocks (each hs s)) h =
               (if h \<in> set hs \<and> takes s h then None else fmlookup (blocks s) h)) \<and>
          (\<forall>h. h \<notin> set hs \<longrightarrow> takes (each hs s) h = takes s h)"
    and takes_drop: "takes (drop_parent p s) h = takes s h"
begin

text \<open>One round: the state after the children of \<open>p\<close> were handled.\<close>

lemma round:
  assumes inv: "inv s" and p: "fmlookup (parent_to_child s) p = Some cs"
  defines "s' \<equiv> each (it cs) (drop_parent p s)"
  shows "inv s'" "parent_to_child s' = fmdrop p (parent_to_child s)"
    and "\<And>h. fmlookup (blocks s') h =
           (if h |\<in>| cs \<and> takes s h then None else fmlookup (blocks s) h)"
    and "\<And>h. h |\<notin>| cs \<Longrightarrow> takes s' h = takes s h"
    and "\<And>h q. h |\<in>| cs \<Longrightarrow> \<not> entry (parent_to_child s') q h"
proof -
  let ?s = "drop_parent p s"
  note it = iteration_order_set [OF order [OF inv]] iteration_order_distinct [OF order [OF inv]]
  have child: "entry (parent_to_child s) q h \<Longrightarrow> fmlookup (blocks s) h = Some b \<Longrightarrow> parent_hash b = q"
    for q h b
    using index_soundD [OF sound [OF inv]] by fastforce
  have "fmlookup (parent_to_child ?s) (parent_hash b) = None"
    if "h \<in> set (it cs)" "fmlookup (blocks ?s) h = Some b" for h b
    using that child [of p h b] p by (simp add: it entry_lookup_Some)
  from each_law [OF inv_drop [OF inv] it(2) this]
  have "inv s' \<and> parent_to_child s' = fmdrop p (parent_to_child s) \<and>
    (\<forall>h. fmlookup (blocks s') h = (if h |\<in>| cs \<and> takes s h then None else fmlookup (blocks s) h)) \<and>
    (\<forall>h. h |\<notin>| cs \<longrightarrow> takes s' h = takes s h)"
    by (simp add: s'_def it takes_drop)
  then show "inv s'" and G: "parent_to_child s' = fmdrop p (parent_to_child s)"
    and "\<And>h. fmlookup (blocks s') h =
           (if h |\<in>| cs \<and> takes s h then None else fmlookup (blocks s) h)"
    and "\<And>h. h |\<notin>| cs \<Longrightarrow> takes s' h = takes s h"
    by auto
  show "\<not> entry (parent_to_child s') q h" if "h |\<in>| cs" for h q
  proof
    assume "entry (parent_to_child s') q h"
    then have q: "entry (parent_to_child s) q h" "q \<noteq> p" by (auto simp: G view_simps)
    moreover have "entry (parent_to_child s) p h" using p that by (simp add: entry_lookup_Some)
    ultimately show False
      using index_soundD [OF sound [OF inv], of p h] child [of q h] child [of p h] by blast
  qed
qed

text \<open>The induction over the rounds.\<close>

lemma drain_induct [consumes 1, case_names Nil absent present]:
  assumes "inv s"
    and Nil: "\<And>s. inv s \<Longrightarrow> P [] s"
    and absent: "\<And>ps p s. inv s \<Longrightarrow> fmlookup (parent_to_child s) p = None \<Longrightarrow> P ps s
                   \<Longrightarrow> P (ps @ [p]) s"
    and present: "\<And>ps p cs s. inv s \<Longrightarrow> fmlookup (parent_to_child s) p = Some cs
                   \<Longrightarrow> P (ps @ it cs) (each (it cs) (drop_parent p s)) \<Longrightarrow> P (ps @ [p]) s"
  shows "P ps s"
  using assms(1)
proof (induction "fcard (fmdom (parent_to_child s))" arbitrary: ps s rule: less_induct)
  case less
  show ?case
  proof (induction ps rule: rev_induct)
    case Nil
    show ?case using less.prems by (rule assms(2))
  next
    case (snoc p ps)
    show ?case
    proof (cases "fmlookup (parent_to_child s) p")
      case None
      with less.prems snoc show ?thesis by (intro absent)
    next
      case (Some cs)
      note r = round [OF less.prems Some]
      have "P (ps @ it cs) (each (it cs) (drop_parent p s))"
        using fcard_fmdom_drop [OF Some] r(1) by (intro less.hyps) (simp_all add: r(2))
      with less.prems Some show ?thesis by (rule present)
    qed
  qed
qed

lemma drain_inv: "inv s \<Longrightarrow> inv (drain ps s)"
  by (induction s rule: drain_induct) (simp_all add: drain_Nil drain_None drain_Some)

text \<open>A child taken in one round is not visited again.\<close>

lemma children_not_again:
  assumes "inv s" "fmlookup (parent_to_child s) p = Some cs" "h |\<in>| cs"
  shows "h \<notin> descendants (parent_to_child (each (it cs) (drop_parent p s))) R"
  using round(5) [OF assms] descendants_has_parent by fastforce

lemma drain_parents:
  assumes "inv s"
  shows "parent_to_child (drain ps s) =
    fmfilter (\<lambda>k. k \<notin> set ps \<union> descendants (parent_to_child s) (set ps)) (parent_to_child s)"
  using assms
proof (induction s rule: drain_induct)
  case (absent ps p s)
  then show ?case
    by (intro fmap_ext) (simp add: drain_None descendants_pop_None)
next
  case (present ps p cs s)
  note it = iteration_order_set [OF order [OF present.hyps(1)]]
  show ?case
    unfolding drain_Some [OF present.hyps(2)] present.IH
    by (intro fmap_ext)
       (auto simp: round(2) [OF present.hyps] it descendants_pop_Some [OF present.hyps(2)])
qed (simp add: drain_Nil fmap_ext)

lemma drain_blocks:
  assumes "inv s"
  shows "fmlookup (blocks (drain ps s)) h =
    (if h \<in> descendants (parent_to_child s) (set ps) \<and> takes s h then None
     else fmlookup (blocks s) h)"
  using assms
proof (induction s rule: drain_induct)
  case (absent ps p s)
  then show ?case by (simp add: drain_None descendants_pop_None)
next
  case (present ps p cs s)
  note it = iteration_order_set [OF order [OF present.hyps(1)]]
  note r = round [OF present.hyps]
  show ?case
    using children_not_again [OF present.hyps] r(4)
    by (auto simp: drain_Some [OF present.hyps(2)] present.IH r(2,3) it
          descendants_pop_Some [OF present.hyps(2)])
qed (simp add: drain_Nil)

end

section \<open>The order of the blocks a loop returns\<close>

text \<open>\<open>parents_first f g R rs\<close>: the parent \<open>g r\<close> of each element is in \<open>R\<close> or is the key \<open>f r'\<close>
  of an element before it.\<close>

fun parents_first :: "('r \<Rightarrow> 'k) \<Rightarrow> ('r \<Rightarrow> 'k) \<Rightarrow> 'k set \<Rightarrow> 'r list \<Rightarrow> bool" where
  "parents_first f g R [] \<longleftrightarrow> True"
| "parents_first f g R (r # rs) \<longleftrightarrow> g r \<in> R \<and> parents_first f g (insert (f r) R) rs"

lemma parents_first_mono: "parents_first f g R rs \<Longrightarrow> R \<subseteq> R' \<Longrightarrow> parents_first f g R' rs"
proof (induction rs arbitrary: R R')
  case (Cons r rs)
  then show ?case using Cons.IH [OF _ insert_mono [OF Cons.prems(2), of "f r"]] by auto
qed simp

lemma parents_first_append:
  "parents_first f g R (xs @ ys) \<longleftrightarrow>
     parents_first f g R xs \<and> parents_first f g (R \<union> f ` set xs) ys"
  by (induction xs arbitrary: R) (auto simp: Un_insert_left Un_insert_right)

lemma parents_first_common: "(\<And>r. r \<in> set rs \<Longrightarrow> g r = p) \<Longrightarrow> p \<in> R \<Longrightarrow> parents_first f g R rs"
  by (induction rs arbitrary: R) auto

locale child_collect = child_drain it each drain takes inv
  for it and each :: "b256 list \<Rightarrow> 'l block_buffer \<Rightarrow> 'l block_buffer"
    and drain and takes and inv +
  fixes each_out :: "b256 list \<Rightarrow> 'l block_buffer \<Rightarrow> 'r list"
    and out :: "b256 list \<Rightarrow> 'l block_buffer \<Rightarrow> 'r list"
    and pick :: "'l block_buffer \<Rightarrow> b256 \<Rightarrow> 'r option"
    and block_of :: "'r \<Rightarrow> recovered_block"
  assumes out_Nil: "out [] s = []"
    and out_None: "fmlookup (parent_to_child s) p = None \<Longrightarrow> out (ps @ [p]) s = out ps s"
    and out_Some: "fmlookup (parent_to_child s) p = Some cs \<Longrightarrow>
          out (ps @ [p]) s =
            each_out (it cs) (drop_parent p s) @ out (ps @ it cs) (each (it cs) (drop_parent p s))"
    and each_out_law: "inv s \<Longrightarrow> distinct hs \<Longrightarrow>
          map (\<lambda>r. hash (block_of r)) (each_out hs s) = filter (takes s) hs \<and>
          (\<forall>r\<in>set (each_out hs s). pick s (hash (block_of r)) = Some r)"
    and pick_block: "inv s \<Longrightarrow> pick s h = Some r \<Longrightarrow> fmlookup (blocks s) h = Some (block_of r)"
    and pick_drop: "pick (drop_parent p s) h = pick s h"
    and pick_each: "inv s \<Longrightarrow> distinct hs \<Longrightarrow> h \<notin> set hs \<Longrightarrow> pick (each hs s) h = pick s h"
begin

lemma round_out:
  assumes inv: "inv s" and p: "fmlookup (parent_to_child s) p = Some cs"
  shows "map (\<lambda>r. hash (block_of r)) (each_out (it cs) (drop_parent p s)) = filter (takes s) (it cs)"
    and "\<And>r. r \<in> set (each_out (it cs) (drop_parent p s))
           \<Longrightarrow> pick s (hash (block_of r)) = Some r \<and> parent_hash (block_of r) = p"
proof -
  let ?s = "drop_parent p s"
  note it = iteration_order_set [OF order [OF inv]] iteration_order_distinct [OF order [OF inv]]
  note law = each_out_law [OF inv_drop [OF inv], of "it cs" p, OF it(2)]
  from law show keys:
    "map (\<lambda>r. hash (block_of r)) (each_out (it cs) ?s) = filter (takes s) (it cs)"
    by (simp add: takes_drop cong: filter_cong)
  fix r assume r: "r \<in> set (each_out (it cs) ?s)"
  then have b: "pick s (hash (block_of r)) = Some r" using law by (simp add: pick_drop)
  from r have "hash (block_of r) \<in> set (filter (takes s) (it cs))"
    by (simp flip: keys)
  then have "entry (parent_to_child s) p (hash (block_of r))"
    using p by (simp add: it entry_lookup_Some)
  with b pick_block [OF inv b]
  show "pick s (hash (block_of r)) = Some r \<and> parent_hash (block_of r) = p"
    using index_soundD [OF sound [OF inv]] by fastforce
qed

text \<open>The blocks returned are the taken descendants, each once, as they were stored.\<close>

lemma out_hashes:
  assumes "inv s"
  shows "(\<lambda>r. hash (block_of r)) ` set (out ps s) =
      {h \<in> descendants (parent_to_child s) (set ps). takes s h} \<and>
    distinct (map (\<lambda>r. hash (block_of r)) (out ps s)) \<and>
    (\<forall>r\<in>set (out ps s). pick s (hash (block_of r)) = Some r)"
  using assms
proof (induction s rule: drain_induct)
  case (absent ps p s)
  then show ?case by (simp add: out_None descendants_pop_None)
next
  case (present ps p cs s)
  let ?s = "each (it cs) (drop_parent p s)" and ?k = "\<lambda>r. hash (block_of r)"
  let ?r1 = "each_out (it cs) (drop_parent p s)" and ?r2 = "out (ps @ it cs) ?s"
  note it = iteration_order_set [OF order [OF present.hyps(1)]]
    iteration_order_distinct [OF order [OF present.hyps(1)]]
  note r = round [OF present.hyps] and o = round_out [OF present.hyps]
  note again = children_not_again [OF present.hyps]
  have k1: "?k ` set ?r1 = {h. h |\<in>| cs \<and> takes s h}"
    using arg_cong [OF o(1), of set] by (auto simp: it)
  have k2: "?k ` set ?r2 = {h \<in> descendants (fmdrop p (parent_to_child s)) (set ps \<union> fset cs). takes s h}"
    using present.IH r(4) again by (auto simp: r(2) it)
  have "?k ` set (?r1 @ ?r2) =
      {h \<in> descendants (parent_to_child s) (set (ps @ [p])). takes s h}"
    unfolding set_append image_Un k1 k2
    by (auto simp: descendants_pop_Some [OF present.hyps(2)])
  moreover have "distinct (map ?k (?r1 @ ?r2))"
    using present.IH o(1) k2 again by (auto simp: it r(2))
  moreover have "pick s (?k x) = Some x" if x: "x \<in> set (?r1 @ ?r2)" for x
  proof (cases "x \<in> set ?r1")
    case False
    with x have "pick ?s (?k x) = Some x" "?k x \<in> ?k ` set ?r2" using present.IH by auto
    moreover from this(2) have "?k x |\<notin>| cs" unfolding k2 using again r(2) by auto
    ultimately show ?thesis
      using pick_each [OF inv_drop [OF present.hyps(1)], of "it cs" "?k x" p]
      by (simp add: pick_drop it)
  qed (simp add: o(2))
  ultimately show ?case by (simp add: out_Some [OF present.hyps(2)])
qed (simp add: out_Nil)

text \<open>And a block comes after its parent, unless the parent is on the stack or was not taken.\<close>

lemma out_parents_first:
  assumes "inv s"
  shows "parents_first (\<lambda>r. hash (block_of r)) (\<lambda>r. parent_hash (block_of r))
    (set ps \<union> {h \<in> descendants (parent_to_child s) (set ps). \<not> takes s h}) (out ps s)"
  using assms
proof (induction s rule: drain_induct)
  case (absent ps p s)
  then show ?case
    by (auto simp: out_None descendants_pop_None elim!: parents_first_mono)
next
  case (present ps p cs s)
  let ?s = "each (it cs) (drop_parent p s)" and ?k = "\<lambda>r. hash (block_of r)"
  let ?r1 = "each_out (it cs) (drop_parent p s)"
  let ?R = "set (ps @ [p]) \<union> {h \<in> descendants (parent_to_child s) (set (ps @ [p])). \<not> takes s h}"
  note it = iteration_order_set [OF order [OF present.hyps(1)]]
  note r = round [OF present.hyps] and o = round_out [OF present.hyps]
  have k1: "?k ` set ?r1 = {h. h |\<in>| cs \<and> takes s h}"
    using arg_cong [OF o(1), of set] by (auto simp: it)
  have "parents_first ?k (\<lambda>r. parent_hash (block_of r)) ?R ?r1"
    by (rule parents_first_common [of _ _ p]) (use o(2) in auto)
  moreover have "parents_first ?k (\<lambda>r. parent_hash (block_of r)) (?R \<union> ?k ` set ?r1)
      (out (ps @ it cs) ?s)"
    using present.IH
  proof (rule parents_first_mono)
    show "set (ps @ it cs) \<union> {h \<in> descendants (parent_to_child ?s) (set (ps @ it cs)). \<not> takes ?s h}
        \<subseteq> ?R \<union> ?k ` set ?r1"
      using r(4) children_not_again [OF present.hyps]
      by (auto simp: k1 it r(2) descendants_pop_Some [OF present.hyps(2)])
  qed
  ultimately show ?case
    by (simp add: out_Some [OF present.hyps(2)] parents_first_append)
qed (simp add: out_Nil)

end

end
