(* ===== verification/Buffer_Correct.thy ===== *)
theory Buffer_Correct
  imports Buffer_Drain
begin

text \<open>
  What the block buffer promises: its well-formedness, kept by every operation, and the exact
  effect of each operation on the buffered blocks. The two loops over the children are instances
  of the contracts of \<open>Buffer_Drain\<close>, and the operations form an \<open>invariant_system\<close>.
\<close>

section \<open>The LRU map seen as a list of keys\<close>

lemma lru_reads:
  assumes "lru_spec ops keys"
  shows "keys (lru_new ops n) = []" "lru_max_length ops (lru_new ops n) = n"
    and "lru_peek ops m k = None \<longleftrightarrow> k \<notin> set (keys m)" "lru_len ops m = length (keys m)"
  using assms by (auto simp: lru_spec_def)

lemma lru_remove_keys:
  assumes "lru_spec ops keys"
  shows "keys (lru_remove ops k m) = removeAll k (keys m)"
    and "lru_max_length ops (lru_remove ops k m) = lru_max_length ops m"
  using assms by (auto simp: lru_spec_def)

lemma lru_touch_keys:
  assumes "lru_spec ops keys"
  shows "k \<in> set (keys m) \<Longrightarrow> keys (lru_get_or_insert ops k m) = removeAll k (keys m) @ [k]"
    and "k \<notin> set (keys m) \<Longrightarrow> length (keys m) < unat (lru_max_length ops m)
           \<Longrightarrow> keys (lru_get_or_insert ops k m) = keys m @ [k]"
    and "lru_max_length ops (lru_get_or_insert ops k m) = lru_max_length ops m"
  using assms by (auto simp: lru_spec_def)

lemma removeAll_filter: "removeAll x xs = filter (\<lambda>y. y \<noteq> x) xs"
  by (induction xs) auto

lemma length_removeAll_le: "length (removeAll x xs) \<le> length xs"
  by (simp add: removeAll_filter)

lemma lru_pop_keys:
  assumes "lru_spec ops keys" "keys m = k # ks"
  shows "fst (lru_pop_oldest ops m) = Some (k, ())" "keys (snd (lru_pop_oldest ops m)) = ks"
    and "lru_max_length ops (snd (lru_pop_oldest ops m)) = lru_max_length ops m"
proof -
  have "case keys m of
      [] \<Rightarrow> fst (lru_pop_oldest ops m) = None \<and> keys (snd (lru_pop_oldest ops m)) = []
    | k # ks \<Rightarrow> fst (lru_pop_oldest ops m) = Some (k, ()) \<and> keys (snd (lru_pop_oldest ops m)) = ks"
    using assms(1) unfolding lru_spec_def by blast
  then show "fst (lru_pop_oldest ops m) = Some (k, ())" "keys (snd (lru_pop_oldest ops m)) = ks"
    by (simp_all add: assms(2))
  show "lru_max_length ops (snd (lru_pop_oldest ops m)) = lru_max_length ops m"
    using assms(1) by (simp add: lru_spec_def)
qed

text \<open>An LRU map as a list, for the witnesses: the limit and the keys, the oldest first.\<close>

definition list_lru :: "(u32 \<times> b256 list) lru_ops" where
  "list_lru = \<lparr>lru_new = \<lambda>n. (n, []),
     lru_peek = \<lambda>m k. if k \<in> set (snd m) then Some () else None,
     lru_max_length = fst, lru_len = \<lambda>m. length (snd m),
     lru_pop_oldest = \<lambda>m. (case snd m of [] \<Rightarrow> (None, m) | k # ks \<Rightarrow> (Some (k, ()), fst m, ks)),
     lru_get_or_insert = \<lambda>k m.
       if k \<in> set (snd m) \<or> length (snd m) < unat (fst m) then (fst m, removeAll k (snd m) @ [k]) else m,
     lru_remove = \<lambda>k m. (fst m, removeAll k (snd m))\<rparr>"

lemma list_lru_spec: "lru_spec list_lru snd"
  by (auto simp: lru_spec_def list_lru_def split: list.splits)

section \<open>Well-formedness\<close>

text \<open>The maps of the buffer: blocks under their hash, both indexes naming only buffered blocks,
  and missing bytecodes recorded only for a witness, and only when there are some. The parent
  index need not name every block: \<open>remove_children\<close> drops the link of a child it leaves in the
  buffer.\<close>

definition bb_maps :: "'l block_buffer \<Rightarrow> bool" where
  "bb_maps s \<longleftrightarrow>
     keyed_by_hash (blocks s) \<and>
     index_sound parent_hash (parent_to_child s) (blocks s) \<and>
     index_sound number (earliest_blocks s) (blocks s) \<and>
     no_empty_entry (missing_bytecodes s) \<and>
     fmdom (missing_bytecodes s) |\<subseteq>| fmdom (witnesses s)"

text \<open>The LRU map holds each buffered block once, within its limit.\<close>

definition bb_tracked :: "'l lru_ops \<Rightarrow> ('l \<Rightarrow> b256 list) \<Rightarrow> 'l block_buffer \<Rightarrow> bool" where
  "bb_tracked ops keys s \<longleftrightarrow>
     distinct (keys (lru s)) \<and> set (keys (lru s)) = fset (fmdom (blocks s)) \<and>
     0 < lru_max_length ops (lru s) \<and> length (keys (lru s)) \<le> unat (lru_max_length ops (lru s))"

definition bb_wf :: "'l lru_ops \<Rightarrow> ('l \<Rightarrow> b256 list) \<Rightarrow> 'l block_buffer \<Rightarrow> bool" where
  "bb_wf ops keys s \<longleftrightarrow>
     bb_maps s \<and> bb_tracked ops keys s \<and> index_complete number (earliest_blocks s) (blocks s)"

lemma bb_mapsD:
  assumes "bb_maps s"
  shows "keyed_by_hash (blocks s)" "index_sound parent_hash (parent_to_child s) (blocks s)"
    and "index_sound number (earliest_blocks s) (blocks s)" "no_empty_entry (missing_bytecodes s)"
    and "fmdom (missing_bytecodes s) |\<subseteq>| fmdom (witnesses s)"
  using assms by (auto simp: bb_maps_def)

lemma bb_wfD:
  assumes "bb_wf ops keys s"
  shows "bb_maps s" "bb_tracked ops keys s" "index_complete number (earliest_blocks s) (blocks s)"
  using assms by (auto simp: bb_wf_def)

lemma index_sound_unlist:
  "index_sound key idx bs \<Longrightarrow> index_sound key (entry_remove k h idx) bs"
  by (auto simp: index_sound_alt view_simps intro: wf_intros)

lemma bb_wf_new [wf_intros]:
  "lru_spec ops keys \<Longrightarrow> 0 < n \<Longrightarrow> bb_wf ops keys (bb_new ops n)"
  by (simp add: bb_wf_def bb_maps_def bb_tracked_def bb_new_def lru_reads)

section \<open>Evicting one block\<close>

lemma bb_evict_None: "fmlookup (blocks s) h = None \<Longrightarrow> bb_evict_block ops h s = (None, s)"
  by (simp add: bb_evict_block_def)

lemma bb_evict_views:
  assumes "fmlookup (blocks s) h = Some b"
  shows "fst (bb_evict_block ops h s) = Some b"
    and "blocks (snd (bb_evict_block ops h s)) = fmdrop h (blocks s)"
    and "witnesses (snd (bb_evict_block ops h s)) = fmdrop h (witnesses s)"
    and "missing_bytecodes (snd (bb_evict_block ops h s)) = fmdrop h (missing_bytecodes s)"
    and "parent_to_child (snd (bb_evict_block ops h s)) = entry_remove (parent_hash b) h (parent_to_child s)"
    and "earliest_blocks (snd (bb_evict_block ops h s)) = entry_remove (number b) h (earliest_blocks s)"
    and "lru (snd (bb_evict_block ops h s)) = lru_remove ops h (lru s)"
  using assms by (simp_all add: bb_evict_block_def bb_remove_from_parent_def
      bb_remove_from_earliest_blocks_def Let_def)

lemma bb_maps_evict [wf_intros]:
  assumes "bb_maps s"
  shows "bb_maps (snd (bb_evict_block ops h s))"
proof (cases "fmlookup (blocks s) h")
  case (Some b)
  note wf = bb_mapsD [OF assms]
  show ?thesis
    using wf(5) by (auto simp: bb_maps_def bb_evict_views [OF Some] intro!: wf_intros wf Some)
qed (simp add: bb_evict_None assms)

lemma bb_tracked_evict [wf_intros]:
  assumes "lru_spec ops keys" "bb_tracked ops keys s"
  shows "bb_tracked ops keys (snd (bb_evict_block ops h s))"
proof (cases "fmlookup (blocks s) h")
  case (Some b)
  show ?thesis
    using assms(2) order_trans [OF length_removeAll_le]
    by (auto simp: bb_tracked_def bb_evict_views [OF Some] lru_remove_keys [OF assms(1)]
          distinct_removeAll)
qed (simp add: bb_evict_None assms(2))

text \<open>Completeness of the number index on the blocks that satisfy \<open>P\<close> is kept.\<close>

lemma bb_complete_evict:
  assumes "index_complete number (earliest_blocks s) (fmfilter P (blocks s))"
  shows "index_complete number (earliest_blocks (snd (bb_evict_block ops h s)))
           (fmfilter P (blocks (snd (bb_evict_block ops h s))))"
proof (cases "fmlookup (blocks s) h")
  case (Some b)
  have "fmfilter P (fmdrop h (blocks s)) = fmdrop h (fmfilter P (blocks s))"
    by (intro fmap_ext) simp
  with assms show ?thesis
    by (simp add: bb_evict_views [OF Some] index_complete_remove)
qed (simp add: bb_evict_None assms)

section \<open>Evicting several blocks\<close>

lemma bb_evict_each_simps [simp]:
  "bb_evict_each ops [] s = s"
  "bb_evict_each ops (h # hs) s = bb_evict_each ops hs (snd (bb_evict_block ops h s))"
  by (simp_all add: bb_evict_each_def)

lemma bb_evict_blocks:
  "fmlookup (blocks (snd (bb_evict_block ops h s))) k = (if k = h then None else fmlookup (blocks s) k)"
  by (cases "fmlookup (blocks s) h") (simp_all add: bb_evict_None bb_evict_views)

lemma bb_evict_each_blocks:
  "fmlookup (blocks (bb_evict_each ops hs s)) k =
     (if k \<in> set hs then None else fmlookup (blocks s) k)"
  by (induction hs arbitrary: s) (auto simp: bb_evict_blocks)

lemma bb_evict_each_maps [wf_intros]: "bb_maps s \<Longrightarrow> bb_maps (bb_evict_each ops hs s)"
  by (induction hs arbitrary: s) (simp_all add: bb_maps_evict)

lemma bb_evict_each_tracked [wf_intros]:
  "lru_spec ops keys \<Longrightarrow> bb_tracked ops keys s \<Longrightarrow> bb_tracked ops keys (bb_evict_each ops hs s)"
  by (induction hs arbitrary: s) (simp_all add: bb_tracked_evict)

lemma bb_evict_each_complete:
  "index_complete number (earliest_blocks s) (fmfilter P (blocks s)) \<Longrightarrow>
   index_complete number (earliest_blocks (bb_evict_each ops hs s))
     (fmfilter P (blocks (bb_evict_each ops hs s)))"
  by (induction hs arbitrary: s) (simp_all add: bb_complete_evict)

lemma bb_evict_each_wf [wf_intros]:
  "lru_spec ops keys \<Longrightarrow> bb_wf ops keys s \<Longrightarrow> bb_wf ops keys (bb_evict_each ops hs s)"
  using bb_evict_each_complete [of s "\<lambda>_. True" ops hs]
  by (auto simp: bb_wf_def intro: wf_intros)

lemma bb_evict_each_parent_absent:
  assumes "\<And>h b. h \<in> set hs \<Longrightarrow> fmlookup (blocks s) h = Some b
             \<Longrightarrow> fmlookup (parent_to_child s) (parent_hash b) = None"
  shows "parent_to_child (bb_evict_each ops hs s) = parent_to_child s"
  using assms
proof (induction hs arbitrary: s)
  case (Cons h hs)
  have *: "parent_to_child (snd (bb_evict_block ops h s)) = parent_to_child s"
    using Cons.prems [of h]
    by (cases "fmlookup (blocks s) h")
       (simp_all add: bb_evict_None bb_evict_views entry_remove_absent)
  have "parent_to_child (bb_evict_each ops hs (snd (bb_evict_block ops h s))) =
      parent_to_child (snd (bb_evict_block ops h s))"
    by (rule Cons.IH) (use Cons.prems in \<open>auto simp: * bb_evict_blocks split: if_splits\<close>)
  with * show ?case by simp
qed simp

lemma bb_evict_parent_entries:
  assumes "bb_maps s"
  shows "entry (parent_to_child (snd (bb_evict_block ops h s))) p k \<longleftrightarrow>
    entry (parent_to_child s) p k \<and> k \<noteq> h"
proof (cases "fmlookup (blocks s) h")
  case None
  then show ?thesis
    using index_soundD [OF bb_mapsD(2) [OF assms], of p h] by (auto simp: bb_evict_None)
next
  case (Some b)
  then show ?thesis
    using index_soundD [OF bb_mapsD(2) [OF assms], of p h]
    by (auto simp: bb_evict_views [OF Some] view_simps)
qed

lemma bb_evict_each_parent_entries:
  "bb_maps s \<Longrightarrow> entry (parent_to_child (bb_evict_each ops hs s)) p k \<longleftrightarrow>
     entry (parent_to_child s) p k \<and> k \<notin> set hs"
  by (induction hs arbitrary: s) (auto simp: bb_evict_parent_entries bb_maps_evict)

text \<open>A witness and its missing bytecodes leave the buffer with the block.\<close>

lemma bb_evict_witnesses:
  "fmlookup (witnesses (snd (bb_evict_block ops h s))) k =
     (if k = h \<and> fmlookup (blocks s) h \<noteq> None then None else fmlookup (witnesses s) k)"
  by (cases "fmlookup (blocks s) h") (simp_all add: bb_evict_None bb_evict_views)

text \<open>No operation changes the limit of the LRU map.\<close>

abbreviation bb_limit :: "'l lru_ops \<Rightarrow> 'l block_buffer \<Rightarrow> u32" where
  "bb_limit ops s \<equiv> lru_max_length ops (lru s)"

lemma bb_limit_evict: "lru_spec ops keys \<Longrightarrow> bb_limit ops (snd (bb_evict_block ops h s)) = bb_limit ops s"
  by (cases "fmlookup (blocks s) h") (simp_all add: bb_evict_None bb_evict_views lru_remove_keys)

lemma bb_limit_evict_each: "lru_spec ops keys \<Longrightarrow> bb_limit ops (bb_evict_each ops hs s) = bb_limit ops s"
  by (induction hs arbitrary: s) (simp_all add: bb_limit_evict)

section \<open>Eviction of the descendants\<close>

lemma bb_evict_children_simps:
  "bb_evict_children it ops [] s = s"
  "fmlookup (parent_to_child s) p = None \<Longrightarrow>
     bb_evict_children it ops (ps @ [p]) s = bb_evict_children it ops ps s"
  "fmlookup (parent_to_child s) p = Some cs \<Longrightarrow>
     bb_evict_children it ops (ps @ [p]) s =
       bb_evict_children it ops (ps @ it cs) (bb_evict_each ops (it cs) (drop_parent p s))"
  by (subst bb_evict_children.simps; simp add: Let_def)+

text \<open>The hypotheses on the iteration order and on the LRU map ride along with the invariant.\<close>

definition bb_good ::
  "(b256 fset \<Rightarrow> b256 list) \<Rightarrow> 'l lru_ops \<Rightarrow> ('l \<Rightarrow> b256 list) \<Rightarrow> 'l block_buffer \<Rightarrow> bool" where
  "bb_good it ops keys s \<longleftrightarrow> iteration_order it \<and> lru_spec ops keys \<and> bb_wf ops keys s"

lemma bb_goodD:
  assumes "bb_good it ops keys s"
  shows "iteration_order it" "lru_spec ops keys" "bb_wf ops keys s" "bb_maps s"
  using assms by (auto simp: bb_good_def bb_wf_def)

lemma bb_wf_drop_parent [wf_intros]: "bb_wf ops keys s \<Longrightarrow> bb_wf ops keys (drop_parent p s)"
  by (auto simp: bb_wf_def bb_maps_def bb_tracked_def intro: wf_intros)

abbreviation buffered :: "'l block_buffer \<Rightarrow> b256 \<Rightarrow> bool" where
  "buffered s h \<equiv> fmlookup (blocks s) h \<noteq> None"

interpretation evict: child_drain it "bb_evict_each ops" "bb_evict_children it ops" buffered
    "bb_good it ops keys" for it ops keys
proof (unfold_locales, goal_cases)
  case (7 s hs)
  then show ?case
    using bb_evict_each_parent_absent [of hs s ops]
    by (auto simp: bb_good_def bb_evict_each_blocks intro: wf_intros)
qed (auto simp: bb_evict_children_simps bb_good_def dest: bb_wfD(1) bb_mapsD(2) intro: wf_intros)

section \<open>Removing the blocks that are ready\<close>

lemma fmdrop_absent: "fmlookup m k = None \<Longrightarrow> fmdrop k m = m"
  by (intro fmap_ext) simp

text \<open>What \<open>remove_block\<close> returns: the block with its witness, when the witness is there and no
  bytecode is missing for it.\<close>

definition bb_ready :: "'l block_buffer \<Rightarrow> b256 \<Rightarrow> (recovered_block \<times> execution_witness) option" where
  "bb_ready s h =
     (case fmlookup (blocks s) h of
        None \<Rightarrow> None
      | Some b \<Rightarrow>
          if fmlookup (missing_bytecodes s) h = None
          then map_option (Pair b) (fmlookup (witnesses s) h)
          else None)"

lemma bb_ready_Some:
  "bb_ready s h = Some (b, w) \<longleftrightarrow>
     fmlookup (blocks s) h = Some b \<and> fmlookup (witnesses s) h = Some w \<and>
     fmlookup (missing_bytecodes s) h = None"
  by (auto simp: bb_ready_def split: option.splits)

lemma bb_remove_ready:
  assumes "bb_maps s" "bb_ready s h = Some (b, w)"
  shows "bb_remove_block ops h s = (Some (b, w), snd (bb_evict_block ops h s))"
  using assms(2)
  by (auto simp: bb_ready_Some bb_remove_block_def bb_remove_witness_def bb_evict_block_def Let_def
      bb_remove_from_earliest_blocks_def bb_remove_from_parent_def)

lemma bb_remove_not_ready:
  assumes "bb_maps s" "bb_ready s h = None"
  shows "bb_remove_block ops h s = (None, s)"
proof (cases "fmlookup (blocks s) h")
  case (Some b)
  have ne: "fmlookup (missing_bytecodes s) h \<noteq> Some {||}"
    using bb_mapsD(4) [OF assms(1)] by (auto simp: no_empty_entry_alt)
  show ?thesis
  proof (cases "fmlookup (missing_bytecodes s) h")
    case None
    then have "fmlookup (witnesses s) h = None"
      using assms(2) Some by (simp add: bb_ready_def)
    with None Some show ?thesis
      by (simp add: bb_remove_block_def bb_remove_witness_def fmdrop_absent)
  next
    case (Some m)
    with ne \<open>fmlookup (blocks s) h = Some b\<close> show ?thesis
      by (auto simp: bb_remove_block_def bb_remove_witness_def)
  qed
qed (simp add: bb_remove_block_def)

lemma bb_remove_block_out: "bb_maps s \<Longrightarrow> fst (bb_remove_block ops h s) = bb_ready s h"
  by (cases "bb_ready s h") (auto simp: bb_remove_ready bb_remove_not_ready)

lemma bb_remove_block_state:
  "bb_maps s \<Longrightarrow> snd (bb_remove_block ops h s) =
     (if bb_ready s h = None then s else snd (bb_evict_block ops h s))"
  by (cases "bb_ready s h") (auto simp: bb_remove_ready bb_remove_not_ready)

lemma bb_ready_evict:
  "bb_ready (snd (bb_evict_block ops h s)) k = (if k = h then None else bb_ready s k)"
proof (cases "fmlookup (blocks s) h")
  case (Some b)
  then show ?thesis
    by (cases "fmlookup (blocks s) k") (simp_all add: bb_ready_def bb_evict_views [OF Some])
qed (simp add: bb_ready_def bb_evict_None)

text \<open>Hence removing a list of blocks is evicting those that are ready.\<close>

lemma bb_remove_each_ready:
  assumes "bb_maps s" "distinct hs"
  shows "bb_remove_each ops hs s =
    (List.map_filter (bb_ready s) hs, bb_evict_each ops (filter (\<lambda>h. bb_ready s h \<noteq> None) hs) s)"
  using assms
proof (induction hs arbitrary: s)
  case (Cons h hs)
  show ?case
  proof (cases "bb_ready s h")
    case None
    with Cons show ?thesis by (simp add: bb_remove_not_ready map_filter_simps)
  next
    case (Some r)
    let ?s = "snd (bb_evict_block ops h s)"
    have same: "bb_ready ?s k = bb_ready s k" if "k \<in> set hs" for k
      using that Cons.prems(2) by (auto simp: bb_ready_evict)
    have "bb_remove_each ops hs ?s =
        (List.map_filter (bb_ready ?s) hs, bb_evict_each ops (filter (\<lambda>h. bb_ready ?s h \<noteq> None) hs) ?s)"
      using Cons.prems by (intro Cons.IH) (auto intro: wf_intros)
    also have "\<dots> = (List.map_filter (bb_ready s) hs, bb_evict_each ops (filter (\<lambda>h. bb_ready s h \<noteq> None) hs) ?s)"
      using same by (auto simp: List.map_filter_def cong: filter_cong map_cong)
    finally show ?thesis
      using Some Cons.prems(1) by (cases r) (simp add: bb_remove_ready map_filter_simps)
  qed
qed (simp add: map_filter_simps)

lemma bb_ready_evict_each:
  "bb_ready (bb_evict_each ops hs s) k = (if k \<in> set hs then None else bb_ready s k)"
  by (induction hs arbitrary: s) (auto simp: bb_ready_evict)

lemma map_filter_keys:
  assumes "\<And>h r. f h = Some r \<Longrightarrow> k r = h"
  shows "map k (List.map_filter f hs) = filter (\<lambda>h. f h \<noteq> None) hs"
  by (induction hs) (auto simp: map_filter_simps assms split: option.splits)

lemma set_map_filterD: "r \<in> set (List.map_filter f hs) \<Longrightarrow> \<exists>h. f h = Some r"
  by (auto simp: List.map_filter_def)

lemma bb_ready_drop_parent: "bb_ready (drop_parent p s) h = bb_ready s h"
  by (cases "fmlookup (blocks s) h") (simp_all add: bb_ready_def)

lemma bb_remove_children_simps:
  "bb_remove_children it ops [] s = ([], s)"
  "fmlookup (parent_to_child s) p = None \<Longrightarrow>
     bb_remove_children it ops (ps @ [p]) s = bb_remove_children it ops ps s"
  "fmlookup (parent_to_child s) p = Some cs \<Longrightarrow>
     bb_remove_children it ops (ps @ [p]) s =
       (let r = bb_remove_each ops (it cs) (drop_parent p s);
            r' = bb_remove_children it ops (ps @ it cs) (snd r)
        in (fst r @ fst r', snd r'))"
  by (subst bb_remove_children.simps; simp add: Let_def)+

lemma bb_ready_key:
  "bb_maps s \<Longrightarrow> bb_ready s h = Some r \<Longrightarrow> hash (fst r) = h \<and> fmlookup (blocks s) h = Some (fst r)"
  by (cases r) (auto simp: bb_ready_Some dest: bb_mapsD(1) keyed_by_hashD)

interpretation collect: child_collect it
    "\<lambda>hs s. snd (bb_remove_each ops hs s)" "\<lambda>ps s. snd (bb_remove_children it ops ps s)"
    "\<lambda>s h. bb_ready s h \<noteq> None" "bb_good it ops keys"
    "\<lambda>hs s. fst (bb_remove_each ops hs s)" "\<lambda>ps s. fst (bb_remove_children it ops ps s)"
    bb_ready fst for it ops keys
proof (unfold_locales, goal_cases)
  case (7 s hs)
  note wf = bb_goodD [OF 7(1)]
  let ?hs = "filter (\<lambda>h. bb_ready s h \<noteq> None) hs"
  have "parent_to_child (bb_evict_each ops ?hs s) = parent_to_child s"
    by (rule bb_evict_each_parent_absent) (use 7(3) in auto)
  with wf 7(2) show ?case
    by (auto simp: bb_remove_each_ready bb_good_def bb_evict_each_blocks bb_ready_evict_each
          intro: wf_intros)
next
  case (12 s hs)
  note wf = bb_goodD [OF 12(1)]
  have "map (\<lambda>r. hash (fst r)) (List.map_filter (bb_ready s) hs) = filter (\<lambda>h. bb_ready s h \<noteq> None) hs"
    using bb_ready_key [OF wf(4)] by (intro map_filter_keys) simp
  moreover have "bb_ready s (hash (fst r)) = Some r" if "r \<in> set (List.map_filter (bb_ready s) hs)" for r
  proof -
    from set_map_filterD [OF that] obtain h where "bb_ready s h = Some r" by blast
    with bb_ready_key [OF wf(4) this] show ?thesis by simp
  qed
  ultimately show ?case
    using 12(2) wf(4) by (simp add: bb_remove_each_ready)
next
  case (15 s h hs)
  then show ?case using bb_goodD(4) [OF 15(1)]
    by (simp add: bb_remove_each_ready bb_ready_evict_each)
next
  case (6 s)
  then show ?case by (rule bb_mapsD(2) [OF bb_goodD(4)])
next
  case (13 s h r)
  then show ?case using bb_ready_key [OF bb_goodD(4)] by blast
next
  case (5 s p)
  then show ?case by (simp add: bb_good_def bb_wf_drop_parent)
next
  case (4 s)
  then show ?case by (rule bb_goodD(1))
qed (simp_all add: bb_remove_children_simps Let_def bb_ready_drop_parent)

section \<open>Inserting a block\<close>

text \<open>The block that makes room: the least recently used one, when the buffer is full and the
  inserted block is new.\<close>

definition bb_evicted_by :: "'l lru_ops \<Rightarrow> ('l \<Rightarrow> b256 list) \<Rightarrow> b256 \<Rightarrow> 'l block_buffer \<Rightarrow> b256 option" where
  "bb_evicted_by ops keys h s =
     (if h \<notin> set (keys (lru s)) \<and> unat (lru_max_length ops (lru s)) \<le> length (keys (lru s))
      then Some (hd (keys (lru s))) else None)"

text \<open>The buffer with the block in its maps, before the LRU map is asked.\<close>

definition bb_enter :: "recovered_block \<Rightarrow> 'l block_buffer \<Rightarrow> 'l block_buffer" where
  "bb_enter b s =
     s\<lparr>parent_to_child := entry_insert (parent_hash b) (hash b) (parent_to_child s),
        earliest_blocks := entry_insert (number b) (hash b) (earliest_blocks s),
        blocks := fmupd (hash b) b (blocks s)\<rparr>"

lemma bb_enter_views [view_simps]:
  "blocks (bb_enter b s) = fmupd (hash b) b (blocks s)"
  "witnesses (bb_enter b s) = witnesses s"
  "missing_bytecodes (bb_enter b s) = missing_bytecodes s"
  "parent_to_child (bb_enter b s) = entry_insert (parent_hash b) (hash b) (parent_to_child s)"
  "earliest_blocks (bb_enter b s) = entry_insert (number b) (hash b) (earliest_blocks s)"
  "lru (bb_enter b s) = lru s"
  by (simp_all add: bb_enter_def)

lemma bb_maps_enter:
  "bb_maps s \<Longrightarrow> no_hash_clash (blocks s) b \<Longrightarrow> bb_maps (bb_enter b s)"
  by (auto simp: bb_maps_def view_simps no_hash_clash_def intro!: wf_intros)

lemma bb_complete_enter:
  "index_complete number (earliest_blocks s) (blocks s) \<Longrightarrow>
   index_complete number (earliest_blocks (bb_enter b s)) (blocks (bb_enter b s))"
  by (simp add: view_simps index_complete_insert)

lemma bb_maps_lru [simp]: "bb_maps (s\<lparr>lru := l\<rparr>) = bb_maps s"
  by (simp add: bb_maps_def)

text \<open>The whole operation, on a well-formed buffer.\<close>

lemma bb_insert_room:
  assumes "lru_spec ops keys" "bb_evicted_by ops keys (hash b) s = None"
  shows "bb_insert_block ops b s =
    (bb_enter b s)\<lparr>lru := lru_get_or_insert ops (hash b) (lru s)\<rparr>"
  using assms(2)
  by (auto simp: bb_insert_block_def bb_insert_hash_and_get_evicted_def bb_enter_def Let_def
      bb_evicted_by_def lru_reads [OF assms(1)] split: if_splits)

lemma bb_insert_full:
  assumes spec: "lru_spec ops keys" and ev: "bb_evicted_by ops keys (hash b) s = Some e"
    and ks: "keys (lru s) = e # ks" and e: "fmlookup (blocks (bb_enter b s)) e = Some x"
  shows "bb_insert_block ops b s =
    bb_remove_from_parent (parent_hash x) e (snd (bb_evict_block ops e
      ((bb_enter b s)\<lparr>lru := lru_get_or_insert ops (hash b) (snd (lru_pop_oldest ops (lru s)))\<rparr>)))"
proof -
  have "bb_insert_hash_and_get_evicted ops (hash b) (bb_enter b s) =
      (Some e, (bb_enter b s)\<lparr>lru := lru_get_or_insert ops (hash b) (snd (lru_pop_oldest ops (lru s)))\<rparr>)"
    using ev lru_pop_keys [OF spec ks]
    by (auto simp: bb_insert_hash_and_get_evicted_def Let_def bb_evicted_by_def lru_reads [OF spec]
        view_simps apfst_def map_prod_def case_prod_beta split: if_splits)
  moreover have "bb_insert_block ops b s =
    (case bb_insert_hash_and_get_evicted ops (hash b) (bb_enter b s) of
       (None, s) \<Rightarrow> s
     | (Some eh, s) \<Rightarrow> (case bb_evict_block ops eh s of
                (None, s) \<Rightarrow> s
              | (Some eb, s) \<Rightarrow> bb_remove_from_parent (parent_hash eb) eh s))"
    by (simp add: bb_insert_block_def bb_enter_def Let_def case_prod_beta split: option.splits)
  ultimately show ?thesis
    using e bb_evict_views(1) [of "bb_enter b s\<lparr>lru := lru_get_or_insert ops (hash b) (snd (lru_pop_oldest ops (lru s)))\<rparr>" e x ops]
    by (simp add: case_prod_beta split: option.splits)
qed

lemma bb_evicted_by_Some:
  assumes "lru_spec ops keys" "bb_wf ops keys s" "bb_evicted_by ops keys (hash b) s = Some e"
  obtains ks x where "keys (lru s) = e # ks" "e \<noteq> hash b" "hash b \<notin> set (keys (lru s))"
    "fmlookup (blocks s) e = Some x" "length (keys (lru s)) = unat (lru_max_length ops (lru s))"
proof -
  note tr = bb_wfD(2) [OF assms(2), unfolded bb_tracked_def]
  from assms(3) have full: "hash b \<notin> set (keys (lru s))" "e = hd (keys (lru s))"
    "unat (lru_max_length ops (lru s)) \<le> length (keys (lru s))"
    by (auto simp: bb_evicted_by_def split: if_splits)
  have "0 < unat (lru_max_length ops (lru s))" using tr by (simp add: unat_gt_0 word_gt_0)
  with full obtain ks where ks: "keys (lru s) = e # ks" by (cases "keys (lru s)") auto
  have "e \<in> fset (fmdom (blocks s))" using tr ks by auto
  then obtain x where "fmlookup (blocks s) e = Some x" by (auto simp: fmlookup_dom_iff)
  moreover have "e \<noteq> hash b" using full(1) ks by auto
  moreover have "length (keys (lru s)) = unat (lru_max_length ops (lru s))" using full(3) tr by simp
  ultimately show ?thesis using that ks full(1) by blast
qed

text \<open>What an insertion leaves: the inserted block, and every block but the evicted one. The LRU
  order is the old one without the evicted and the inserted block, which becomes the last.\<close>

text \<open>The buffer that forgets its oldest block while a new one comes in.\<close>

lemma bb_wf_replaced:
  fixes p e :: b256 and l :: 'l
  assumes wf: "bb_wf ops keys s" and b: "no_hash_clash (blocks s) b"
  defines "t \<equiv> bb_remove_from_parent p e (snd (bb_evict_block ops e ((bb_enter b s)\<lparr>lru := l\<rparr>)))"
  shows "bb_maps t" "index_complete number (earliest_blocks t) (blocks t)"
proof -
  have "bb_maps (snd (bb_evict_block ops e ((bb_enter b s)\<lparr>lru := l\<rparr>)))"
    by (intro wf_intros) (simp add: bb_maps_enter bb_wfD(1) [OF wf] b)
  then show "bb_maps t"
    by (auto simp: t_def bb_maps_def bb_remove_from_parent_def intro: index_sound_unlist)
  show "index_complete number (earliest_blocks t) (blocks t)"
    using bb_complete_evict [of "(bb_enter b s)\<lparr>lru := l\<rparr>" "\<lambda>_. True" ops e]
      bb_complete_enter [OF bb_wfD(3) [OF wf], of b]
    by (simp add: t_def bb_remove_from_parent_def)
qed

lemma bb_insert_outcome:
  fixes b :: recovered_block and h :: b256
  assumes spec: "lru_spec ops keys" and wf: "bb_wf ops keys s"
  defines "s' \<equiv> bb_insert_block ops b s" and "ev \<equiv> bb_evicted_by ops keys (hash b) s"
  shows "fmlookup (blocks s') h =
      (if h = hash b then Some b else if ev = Some h then None else fmlookup (blocks s) h) \<and>
    keys (lru s') = removeAll (hash b) (if ev = None then keys (lru s) else tl (keys (lru s))) @ [hash b] \<and>
    lru_max_length ops (lru s') = lru_max_length ops (lru s) \<and>
    (no_hash_clash (blocks s) b \<longrightarrow> bb_maps s' \<and> index_complete number (earliest_blocks s') (blocks s'))"
proof (cases ev)
  case None
  have *: "s' = (bb_enter b s)\<lparr>lru := lru_get_or_insert ops (hash b) (lru s)\<rparr>"
    using bb_insert_room [OF spec] None by (simp add: s'_def ev_def)
  have "hash b \<in> set (keys (lru s)) \<or> length (keys (lru s)) < unat (lru_max_length ops (lru s))"
    using None by (auto simp: ev_def bb_evicted_by_def split: if_splits)
  then have "keys (lru_get_or_insert ops (hash b) (lru s)) = removeAll (hash b) (keys (lru s)) @ [hash b]"
    using lru_touch_keys [OF spec] by (cases "hash b \<in> set (keys (lru s))") auto
  then show ?thesis
    using bb_maps_enter [OF bb_wfD(1) [OF wf]] bb_complete_enter [OF bb_wfD(3) [OF wf]]
    by (auto simp: * None view_simps lru_touch_keys [OF spec])
next
  case (Some e)
  then have ev: "bb_evicted_by ops keys (hash b) s = Some e" by (simp add: ev_def)
  from bb_evicted_by_Some [OF spec wf ev] obtain ks x where ks: "keys (lru s) = e # ks"
    and e: "e \<noteq> hash b" "fmlookup (blocks s) e = Some x" and new: "hash b \<notin> set (keys (lru s))"
    and full: "length (keys (lru s)) = unat (lru_max_length ops (lru s))" by metis
  let ?l = "lru_get_or_insert ops (hash b) (snd (lru_pop_oldest ops (lru s)))"
  let ?t = "(bb_enter b s)\<lparr>lru := ?l\<rparr>"
  have x: "fmlookup (blocks ?t) e = Some x" using e by (simp add: view_simps)
  have s': "s' = bb_remove_from_parent (parent_hash x) e (snd (bb_evict_block ops e ?t))"
    unfolding s'_def by (rule bb_insert_full [OF spec ev ks]) (use e in \<open>simp add: view_simps\<close>)
  note pop = lru_pop_keys [OF spec ks]
  have "keys ?l = ks @ [hash b]"
    using lru_touch_keys(2) [OF spec] new full by (simp add: pop ks)
  moreover have "e \<notin> set ks" using bb_wfD(2) [OF wf] by (simp add: bb_tracked_def ks)
  ultimately have keys: "keys (lru s') = ks @ [hash b]"
    using e by (simp add: s' bb_evict_views [OF x] bb_remove_from_parent_def lru_remove_keys [OF spec])
  note maps = bb_wf_replaced [OF wf, where p = "parent_hash x" and e = e and l = ?l and b = b,
      folded s']
  have "keys (lru s') = removeAll (hash b) (if ev = None then keys (lru s) else tl (keys (lru s))) @ [hash b]"
    using new by (simp add: keys Some ks removeAll_id)
  then show ?thesis
    using e maps
    by (auto simp: Some s' bb_remove_from_parent_def bb_evict_blocks view_simps
        bb_evict_views [OF x] lru_remove_keys [OF spec] lru_touch_keys [OF spec] pop)
qed

lemma bb_wf_insert [wf_intros]:
  assumes spec: "lru_spec ops keys" and wf: "bb_wf ops keys s" and "no_hash_clash (blocks s) b"
  shows "bb_wf ops keys (bb_insert_block ops b s)"
proof -
  note out = bb_insert_outcome [OF spec wf, where b = b]
  note tr = bb_wfD(2) [OF wf, unfolded bb_tracked_def]
  have "bb_tracked ops keys (bb_insert_block ops b s)"
  proof (cases "bb_evicted_by ops keys (hash b) s")
    case None
    have "length (removeAll (hash b) (keys (lru s))) < unat (lru_max_length ops (lru s))"
    proof (cases "hash b \<in> set (keys (lru s))")
      case True
      then show ?thesis
        using tr length_removeAll_less [OF True] by linarith
    next
      case False
      with None show ?thesis by (simp add: bb_evicted_by_def split: if_splits)
    qed
    then show ?thesis
      using out None tr
      by (auto simp: bb_tracked_def distinct_removeAll fmlookup_dom_iff set_eq_iff)
  next
    case (Some e)
    from bb_evicted_by_Some [OF spec wf Some] obtain ks x where ks: "keys (lru s) = e # ks"
      and e: "e \<noteq> hash b" and new: "hash b \<notin> set (keys (lru s))"
      and full: "length (keys (lru s)) = unat (lru_max_length ops (lru s))" by metis
    have "fset (fmdom (blocks (bb_insert_block ops b s))) =
        insert (hash b) (fset (fmdom (blocks s)) - {e})"
      using out Some e by (auto simp: fmlookup_dom_iff split: if_splits)
    also have "\<dots> = insert (hash b) (set ks)" using tr ks by auto
    finally have dom: "fset (fmdom (blocks (bb_insert_block ops b s))) = insert (hash b) (set ks)" .
    have nks: "hash b \<notin> set ks" using new ks by simp
    with out Some ks have "keys (lru (bb_insert_block ops b s)) = ks @ [hash b]"
      by (simp add: removeAll_id)
    then show ?thesis
      using dom nks out [THEN conjunct2, THEN conjunct2, THEN conjunct1] tr full
      by (simp add: bb_tracked_def ks)
  qed
  with out assms(3) show ?thesis by (simp add: bb_wf_def)
qed

section \<open>The other operations\<close>

lemma bb_wf_insert_witness [wf_intros]:
  "bb_wf ops keys s \<Longrightarrow> bb_wf ops keys (bb_insert_witness h w m s)"
  by (auto simp: bb_wf_def bb_maps_def bb_tracked_def bb_insert_witness_def Let_def no_empty_entry_alt)

lemma bb_wf_remove_witness [wf_intros]:
  "bb_wf ops keys s \<Longrightarrow> bb_wf ops keys (snd (bb_remove_witness h s))"
  by (auto simp: bb_wf_def bb_maps_def bb_tracked_def bb_remove_witness_def intro: wf_intros
      split: option.splits)

lemma bb_bytecode_views:
  "fst (bb_on_bytecode_received c s) =
     ffilter (\<lambda>h. map_option (\<lambda>m. m |-| {|c|}) (fmlookup (missing_bytecodes s) h) = Some {||})
       (fmdom (missing_bytecodes s))"
  "fmlookup (missing_bytecodes (snd (bb_on_bytecode_received c s))) h =
     (case fmlookup (missing_bytecodes s) h of
        None \<Rightarrow> None | Some m \<Rightarrow> if m |-| {|c|} = {||} then None else Some (m |-| {|c|}))"
  "blocks (snd (bb_on_bytecode_received c s)) = blocks s"
  "witnesses (snd (bb_on_bytecode_received c s)) = witnesses s"
  "parent_to_child (snd (bb_on_bytecode_received c s)) = parent_to_child s"
  "earliest_blocks (snd (bb_on_bytecode_received c s)) = earliest_blocks s"
  "lru (snd (bb_on_bytecode_received c s)) = lru s"
  by (auto simp: bb_on_bytecode_received_def Let_def fmlookup_dom_iff split: option.splits)

lemma bb_wf_bytecode [wf_intros]:
  assumes "bb_wf ops keys s"
  shows "bb_wf ops keys (snd (bb_on_bytecode_received c s))"
proof -
  let ?m = "missing_bytecodes (snd (bb_on_bytecode_received c s))"
  have "no_empty_entry ?m"
    by (auto simp: no_empty_entry_alt bb_bytecode_views split: option.splits if_splits)
  moreover have "fmdom ?m |\<subseteq>| fmdom (missing_bytecodes s)"
    by (rule fsubsetI) (auto simp: fmlookup_dom_iff bb_bytecode_views split: option.splits)
  ultimately show ?thesis
    using assms by (auto simp: bb_wf_def bb_maps_def bb_tracked_def bb_bytecode_views(3-))
qed

lemma bb_wf_remove_block [wf_intros]:
  assumes "lru_spec ops keys" "bb_wf ops keys s"
  shows "bb_wf ops keys (snd (bb_remove_block ops h s))"
  using bb_evict_each_wf [OF assms, of "[h]"] assms(2)
  by (simp add: bb_remove_block_state bb_wfD(1))

lemma bb_remove_with_children_parts:
  "fst (bb_remove_block_with_children it ops p s) =
     (case fst (bb_remove_block ops p s) of None \<Rightarrow> [] | Some r \<Rightarrow> [r]) @
     fst (bb_remove_children it ops [p] (snd (bb_remove_block ops p s)))"
  "snd (bb_remove_block_with_children it ops p s) =
     snd (bb_remove_children it ops [p] (snd (bb_remove_block ops p s)))"
  by (auto simp: bb_remove_block_with_children_def Let_def case_prod_beta split: option.splits)

lemma bb_wf_remove_with_children [wf_intros]:
  assumes "iteration_order it" "lru_spec ops keys" "bb_wf ops keys s"
  shows "bb_wf ops keys (snd (bb_remove_block_with_children it ops p s))"
proof -
  have "bb_good it ops keys (snd (bb_remove_block ops p s))"
    using assms by (simp add: bb_good_def bb_wf_remove_block)
  from collect.drain_inv [OF this] show ?thesis
    by (simp add: bb_good_def bb_remove_with_children_parts)
qed

section \<open>Evicting old blocks\<close>

text \<open>The hashes \<open>evict_old_blocks\<close> collects: those of the buffered blocks at or below the
  number.\<close>

lemma bb_old_hashes:
  assumes it: "iteration_order it"
  shows "set (snd (drain_first (\<lambda>n. n \<le> k) (\<lambda>hs acc. acc @ it hs) idx acc)) =
    set acc \<union> {h. \<exists>n. n \<le> k \<and> entry idx n h}"
proof -
  let ?I = "\<lambda>m l. set l \<union> {h. \<exists>n. n \<le> k \<and> entry m n h} = set acc \<union> {h. \<exists>n. n \<le> k \<and> entry idx n h}"
  have "?I (fst (drain_first (\<lambda>n. n \<le> k) (\<lambda>hs acc. acc @ it hs) idx acc))
          (snd (drain_first (\<lambda>n. n \<le> k) (\<lambda>hs acc. acc @ it hs) idx acc))"
  proof (rule drain_first_invariant)
    fix m n hs l
    assume I: "?I m l" and n: "fmlookup m n = Some hs" "n \<le> k"
    have "{h. \<exists>n. n \<le> k \<and> entry m n h} = fset hs \<union> {h. \<exists>i. i \<le> k \<and> entry (fmdrop n m) i h}"
      using n entry_lookup_Some [OF n(1)] by (auto simp: view_simps)
    with I show "?I (fmdrop n m) (l @ it hs)"
      by (auto simp: iteration_order_set [OF it])
  qed simp
  moreover have "{h. \<exists>n. n \<le> k \<and>
      entry (fst (drain_first (\<lambda>n. n \<le> k) (\<lambda>hs acc. acc @ it hs) idx acc)) n h} = {}"
    by (auto simp: drain_first_map [OF down_closed_le] view_simps)
  ultimately show ?thesis by auto
qed

text \<open>The state before \<open>evict_children\<close> runs, and the stack it starts with.\<close>

lemma bb_evict_old_start:
  assumes it: "iteration_order it" and spec: "lru_spec ops keys" and wf: "bb_wf ops keys s"
  obtains hs t where "bb_evict_old_blocks it ops k s = bb_evict_children it ops hs t"
    "lru_max_length ops (lru t) = lru_max_length ops (lru s)"
    "set hs = {h. \<exists>b. fmlookup (blocks s) h = Some b \<and> number b \<le> k}" "bb_wf ops keys t"
    "\<And>h. fmlookup (blocks t) h = (if h \<in> set hs then None else fmlookup (blocks s) h)"
    "\<And>p h. entry (parent_to_child t) p h \<longleftrightarrow> entry (parent_to_child s) p h \<and> h \<notin> set hs"
proof -
  let ?d = "drain_first (\<lambda>n. n \<le> k) (\<lambda>hs acc. acc @ it hs) (earliest_blocks s) []"
  let ?hs = "snd ?d" and ?s = "s\<lparr>earliest_blocks := fst ?d\<rparr>"
  let ?t = "bb_evict_each ops ?hs ?s"
  note m = bb_wfD [OF wf]
  have hs: "set ?hs = {h. \<exists>b. fmlookup (blocks s) h = Some b \<and> number b \<le> k}"
    unfolding bb_old_hashes [OF it] by (auto simp: index_exact [OF bb_mapsD(3) [OF m(1)] m(3)])
  have fst: "fst ?d = fmfilter (\<lambda>n. \<not> n \<le> k) (earliest_blocks s)"
    by (rule drain_first_map [OF down_closed_le])
  have maps: "bb_maps ?s" and tr: "bb_tracked ops keys ?s"
    using m by (auto simp: bb_maps_def bb_tracked_def fst intro: wf_intros)
  have "index_complete number (earliest_blocks ?s) (fmfilter (\<lambda>h. h \<notin> set ?hs) (blocks ?s))"
    using m(3) by (auto simp: index_complete_def fmpred_iff fst view_simps hs split: if_splits)
  from bb_evict_each_complete [OF this]
  have "index_complete number (earliest_blocks ?t) (fmfilter (\<lambda>h. h \<notin> set ?hs) (blocks ?t))" .
  moreover have "fmfilter (\<lambda>h. h \<notin> set ?hs) (blocks ?t) = blocks ?t"
    by (intro fmap_ext) (simp add: bb_evict_each_blocks)
  ultimately have t: "bb_wf ops keys ?t"
    by (simp add: bb_wf_def bb_evict_each_maps [OF maps] bb_evict_each_tracked [OF spec tr])
  have "entry (parent_to_child ?t) p h \<longleftrightarrow> entry (parent_to_child ?s) p h \<and> h \<notin> set ?hs" for p h
    using bb_evict_each_parent_entries [OF maps, of ops ?hs p h] .
  moreover have "bb_evict_old_blocks it ops k s = bb_evict_children it ops ?hs ?t"
    by (simp add: bb_evict_old_blocks_def Let_def case_prod_beta)
  moreover have "fmlookup (blocks ?t) h = (if h \<in> set ?hs then None else fmlookup (blocks s) h)" for h
    by (simp add: bb_evict_each_blocks)
  moreover have "lru_max_length ops (lru ?t) = lru_max_length ops (lru s)"
    by (simp add: bb_limit_evict_each [OF spec])
  ultimately show ?thesis
    using hs t by (intro that [of ?hs ?t]) simp_all
qed

lemma bb_wf_evict_old [wf_intros]:
  assumes "iteration_order it" "lru_spec ops keys" "bb_wf ops keys s"
  shows "bb_wf ops keys (bb_evict_old_blocks it ops k s)"
proof -
  obtain hs t where "bb_evict_old_blocks it ops k s = bb_evict_children it ops hs t" "bb_wf ops keys t"
    by (rule bb_evict_old_start [OF assms, of k]) blast
  with evict.drain_inv [of it ops keys t hs] assms show ?thesis by (simp add: bb_good_def)
qed

text \<open>A block leaves when it is old or descends from an old block.\<close>

lemma descendants_unlist:
  assumes "\<And>q h. entry G' q h \<longleftrightarrow> entry G q h \<and> h \<notin> R"
  shows "R \<union> descendants G' R = R \<union> descendants G R"
proof -
  have "h \<in> R \<union> descendants G' R" if "h \<in> descendants G R" for h
    using that
  proof (induction rule: descendants.induct)
    case (child q h)
    then show ?case using assms [of q h] by (auto intro: descendants.child)
  next
    case (grandchild q h)
    then show ?case using assms [of q h] by (auto intro: descendants.intros)
  qed
  moreover have "descendants G' R \<subseteq> descendants G R"
    using assms by (intro descendants_mono) auto
  ultimately show ?thesis by blast
qed

lemma bb_evict_old_outcome:
  fixes k :: u64
  assumes "iteration_order it" "lru_spec ops keys" "bb_wf ops keys s"
  defines "old \<equiv> {h. \<exists>b. fmlookup (blocks s) h = Some b \<and> number b \<le> k}"
  shows "fmlookup (blocks (bb_evict_old_blocks it ops k s)) h =
    (if h \<in> old \<union> descendants (parent_to_child s) old then None else fmlookup (blocks s) h)"
proof -
  obtain hs t where eq: "bb_evict_old_blocks it ops k s = bb_evict_children it ops hs t"
    and hs: "set hs = old" and t: "bb_wf ops keys t"
    and bl: "\<And>h. fmlookup (blocks t) h = (if h \<in> set hs then None else fmlookup (blocks s) h)"
    and en: "\<And>p h. entry (parent_to_child t) p h \<longleftrightarrow> entry (parent_to_child s) p h \<and> h \<notin> set hs"
    unfolding old_def by (rule bb_evict_old_start [OF assms(1-3), of k]) blast
  have "bb_good it ops keys t" using assms t by (simp add: bb_good_def)
  from evict.drain_blocks [OF this, of hs h]
  have "fmlookup (blocks (bb_evict_old_blocks it ops k s)) h =
      (if h \<in> old \<union> descendants (parent_to_child t) old then None else fmlookup (blocks s) h)"
    by (auto simp: eq bl hs)
  also have "old \<union> descendants (parent_to_child t) old = old \<union> descendants (parent_to_child s) old"
    using en by (intro descendants_unlist) (simp add: hs)
  finally show ?thesis .
qed

section \<open>Removing a block with its descendants\<close>

lemma bb_ready_removed:
  "bb_maps s \<Longrightarrow> bb_ready (snd (bb_remove_block ops p s)) h = (if h = p then None else bb_ready s h)"
  by (simp add: bb_remove_block_state bb_ready_evict)

lemma bb_descendants_removed:
  assumes m: "bb_maps s"
  shows "insert p (descendants (parent_to_child (snd (bb_remove_block ops p s))) {p}) =
    insert p (descendants (parent_to_child s) {p})"
proof (cases "bb_ready s p")
  case None
  then show ?thesis by (simp add: bb_remove_block_state [OF m])
next
  case (Some r)
  then have "{p} \<union> descendants (parent_to_child (snd (bb_remove_block ops p s))) {p} =
      {p} \<union> descendants (parent_to_child s) {p}"
    by (intro descendants_unlist) (simp add: bb_remove_block_state [OF m] bb_evict_parent_entries [OF m])
  then show ?thesis by simp
qed

lemma bb_remove_with_children_outcome:
  fixes p :: b256
  assumes it: "iteration_order it" and spec: "lru_spec ops keys" and wf: "bb_wf ops keys s"
  defines "out \<equiv> fst (bb_remove_block_with_children it ops p s)"
    and "D \<equiv> insert p (descendants (parent_to_child s) {p})"
  shows "(\<lambda>r. hash (fst r)) ` set out = {h \<in> D. bb_ready s h \<noteq> None}"
    and "distinct (map (\<lambda>r. hash (fst r)) out)"
    and "\<And>r. r \<in> set out \<Longrightarrow> bb_ready s (hash (fst r)) = Some r"
    and "\<And>h. fmlookup (blocks (snd (bb_remove_block_with_children it ops p s))) h =
           (if h \<in> D \<and> bb_ready s h \<noteq> None then None else fmlookup (blocks s) h)"
    and "\<exists>rest. out = (case bb_ready s p of None \<Rightarrow> [] | Some r \<Rightarrow> [r]) @ rest \<and>
           parents_first (\<lambda>r. hash (fst r)) (\<lambda>r. parent_hash (fst r))
             (insert p {h \<in> D. bb_ready s h = None}) rest"
proof -
  let ?t = "snd (bb_remove_block ops p s)" and ?k = "\<lambda>r. hash (fst r)"
  let ?rest = "fst (bb_remove_children it ops [p] ?t)"
  have m: "bb_maps s" using wf by (rule bb_wfD(1))
  have good: "bb_good it ops keys ?t"
    using assms by (simp add: bb_good_def bb_wf_remove_block)
  note parts = bb_remove_with_children_parts [of it ops p s, unfolded bb_remove_block_out [OF m]]
  note ready = bb_ready_removed [OF m, of ops p]
  have D: "insert p (descendants (parent_to_child ?t) {p}) = D"
    using bb_descendants_removed [OF m] by (simp add: D_def)
  note oh = collect.out_hashes [OF good, of "[p]"]
  have rest: "?k ` set ?rest = {h \<in> D. h \<noteq> p \<and> bb_ready s h \<noteq> None}"
    using oh by (auto simp: ready D [symmetric])
  have p: "?k r = p" if "bb_ready s p = Some r" for r using bb_ready_key [OF m that] by simp
  have "p \<in> D" by (simp add: D_def)
  with rest p show "?k ` set out = {h \<in> D. bb_ready s h \<noteq> None}"
    unfolding out_def parts image_Un set_append by (cases "bb_ready s p") auto
  show "distinct (map ?k out)"
    using oh rest p unfolding out_def parts by (cases "bb_ready s p") auto
  show "bb_ready s (?k r) = Some r" if r: "r \<in> set out" for r
  proof (cases "r \<in> set ?rest")
    case True
    then have "bb_ready ?t (?k r) = Some r" using oh by blast
    then show ?thesis unfolding ready by (simp split: if_splits)
  next
    case False
    with r have "bb_ready s p = Some r" unfolding out_def parts by (cases "bb_ready s p") auto
    with p [OF this] show ?thesis by simp
  qed
  show "fmlookup (blocks (snd (bb_remove_block_with_children it ops p s))) h =
      (if h \<in> D \<and> bb_ready s h \<noteq> None then None else fmlookup (blocks s) h)" for h
  proof -
    have "fmlookup (blocks ?t) h = (if h = p \<and> bb_ready s p \<noteq> None then None else fmlookup (blocks s) h)"
      by (auto simp: bb_remove_block_state [OF m] bb_evict_blocks)
    then show ?thesis
      unfolding parts collect.drain_blocks [OF good] ready D [symmetric] by auto
  qed
  have "parents_first ?k (\<lambda>r. parent_hash (fst r))
      (set [p] \<union> {h \<in> descendants (parent_to_child ?t) (set [p]). \<not> bb_ready ?t h \<noteq> None}) ?rest"
    by (rule collect.out_parents_first [OF good])
  then have "parents_first ?k (\<lambda>r. parent_hash (fst r)) (insert p {h \<in> D. bb_ready s h = None}) ?rest"
    by (rule parents_first_mono) (auto simp: ready D [symmetric] simp del: not_None_eq)
  then show "\<exists>rest. out = (case bb_ready s p of None \<Rightarrow> [] | Some r \<Rightarrow> [r]) @ rest \<and>
      parents_first ?k (\<lambda>r. parent_hash (fst r)) (insert p {h \<in> D. bb_ready s h = None}) rest"
    unfolding out_def parts by blast
qed

text \<open>The links of the given block and of its descendants are gone, whether or not they were ready.\<close>

lemma bb_remove_with_children_links:
  assumes it: "iteration_order it" and spec: "lru_spec ops keys" and wf: "bb_wf ops keys s"
    and "entry (parent_to_child (snd (bb_remove_block_with_children it ops p s))) q h"
  shows "entry (parent_to_child s) q h \<and> q \<notin> insert p (descendants (parent_to_child s) {p})"
proof -
  let ?t = "snd (bb_remove_block ops p s)"
  have m: "bb_maps s" using wf by (rule bb_wfD(1))
  have "bb_good it ops keys ?t" using assms by (simp add: bb_good_def bb_wf_remove_block)
  from collect.drain_parents [OF this, of "[p]"] assms(4)
  have "entry (parent_to_child ?t) q h" "q \<notin> insert p (descendants (parent_to_child ?t) {p})"
    by (auto simp: bb_remove_with_children_parts entry_def split: if_splits)
  moreover have "entry (parent_to_child s) q h" if "entry (parent_to_child ?t) q h"
    using that by (auto simp: bb_remove_block_state [OF m] bb_evict_parent_entries [OF m] split: option.splits if_splits)
  ultimately show ?thesis using bb_descendants_removed [OF m, of p ops] by simp
qed

section \<open>The lowest buffered ancestor\<close>

lemma bb_walk_lowest_result:
  assumes "keyed_by_hash (blocks s)" "hash_ranked rank (blocks s)" "fmlookup (blocks s) h = Some b"
  shows "\<exists>a. bb_walk_lowest (blocks s) b = Some a \<and>
    fmlookup (blocks s) (hash a) = Some a \<and> ancestor (fmlookup (blocks s)) h (hash a) \<and>
    fmlookup (blocks s) (parent_hash a) = None \<and> rank (hash a) \<le> rank h"
  using assms(3)
proof (induction "rank h" arbitrary: h b rule: less_induct)
  case less
  have hb: "hash b = h" using assms(1) less.prems by (rule keyed_by_hashD)
  have rank: "rank (parent_hash b) < rank h" using assms(2) less.prems by (rule hash_rankedD)
  show ?case
  proof (cases "fmlookup (blocks s) (parent_hash b)")
    case None
    with less.prems hb show ?thesis
      by (auto simp: bb_walk_lowest.simps intro: ancestor_refl)
  next
    case (Some p)
    from less.hyps [OF rank Some] obtain a where
      a: "bb_walk_lowest (blocks s) p = Some a" "fmlookup (blocks s) (hash a) = Some a"
        "ancestor (fmlookup (blocks s)) (parent_hash b) (hash a)"
        "fmlookup (blocks s) (parent_hash a) = None" "rank (hash a) \<le> rank (parent_hash b)" by blast
    then have "bb_walk_lowest (blocks s) b = Some a"
      by (subst bb_walk_lowest.simps) (simp add: Some)
    with a rank less.prems show ?thesis
      by (intro exI [of _ a]) (auto intro: ancestor_step)
  qed
qed

section \<open>The buffer as a machine\<close>

inductive bb_step ::
  "(b256 fset \<Rightarrow> b256 list) \<Rightarrow> 'l lru_ops \<Rightarrow> 'l block_buffer \<Rightarrow> 'l block_buffer \<Rightarrow> bool"
  for it ops where
  bb_step_insert: "no_hash_clash (blocks s) b \<Longrightarrow> bb_step it ops s (bb_insert_block ops b s)"
| bb_step_witness: "bb_step it ops s (bb_insert_witness h w m s)"
| bb_step_remove_witness: "bb_step it ops s (snd (bb_remove_witness h s))"
| bb_step_remove: "bb_step it ops s (snd (bb_remove_block ops h s))"
| bb_step_remove_children: "bb_step it ops s (snd (bb_remove_block_with_children it ops h s))"
| bb_step_evict_old: "bb_step it ops s (bb_evict_old_blocks it ops n s)"
| bb_step_bytecode: "bb_step it ops s (snd (bb_on_bytecode_received c s))"

lemma bb_step_wf:
  "bb_step it ops s t \<Longrightarrow> iteration_order it \<Longrightarrow> lru_spec ops keys \<Longrightarrow> bb_wf ops keys s
   \<Longrightarrow> bb_wf ops keys t"
  by (erule bb_step.cases) (auto intro: wf_intros)

lemma bb_limit_evict_children:
  "bb_good it ops keys s \<Longrightarrow> bb_limit ops (bb_evict_children it ops ps s) = bb_limit ops s"
  by (induction s rule: evict.drain_induct)
     (simp_all add: bb_evict_children_simps bb_limit_evict_each [OF bb_goodD(2)])

lemma bb_limit_remove_children:
  "bb_good it ops keys s \<Longrightarrow> bb_limit ops (snd (bb_remove_children it ops ps s)) = bb_limit ops s"
proof (induction s rule: collect.drain_induct)
  case (present ps p cs s)
  note g = bb_goodD [OF present.hyps(1)]
  have "bb_maps (drop_parent p s)" using bb_wf_drop_parent [OF g(3)] by (rule bb_wfD(1))
  with present g show ?case
    by (simp add: bb_remove_children_simps Let_def bb_remove_each_ready iteration_order_distinct
        bb_limit_evict_each)
qed (simp_all add: bb_remove_children_simps)

lemma bb_limit_remove: 
  "lru_spec ops keys \<Longrightarrow> bb_maps s \<Longrightarrow> bb_limit ops (snd (bb_remove_block ops h s)) = bb_limit ops s"
  by (simp add: bb_remove_block_state bb_limit_evict)

lemma bb_limit_evict_old:
  assumes "iteration_order it" "lru_spec ops keys" "bb_wf ops keys s"
  shows "bb_limit ops (bb_evict_old_blocks it ops k s) = bb_limit ops s"
proof -
  obtain hs t where "bb_evict_old_blocks it ops k s = bb_evict_children it ops hs t"
    "bb_limit ops t = bb_limit ops s" "bb_wf ops keys t"
    by (rule bb_evict_old_start [OF assms, of k]) blast
  with assms show ?thesis using bb_limit_evict_children [of it ops keys t hs] by (simp add: bb_good_def)
qed

lemma bb_step_limit:
  assumes "bb_step it ops s t" "iteration_order it" "lru_spec ops keys" "bb_wf ops keys s"
  shows "bb_limit ops t = bb_limit ops s"
  using assms(1)
proof cases
  case (bb_step_remove_children h)
  have "bb_good it ops keys (snd (bb_remove_block ops h s))"
    using assms by (simp add: bb_good_def bb_wf_remove_block)
  with assms show ?thesis
    by (simp add: bb_step_remove_children bb_remove_with_children_parts bb_limit_remove_children
        bb_limit_remove bb_wfD(1))
qed (use assms in \<open>auto simp: bb_insert_outcome bb_insert_witness_def Let_def bb_remove_witness_def
       bb_limit_remove bb_wfD(1) bb_limit_evict_old bb_bytecode_views split: option.splits\<close>)

interpretation bb_machine: invariant_system "\<lambda>s. s = bb_new ops limit" "bb_step it ops"
    "\<lambda>s. iteration_order it \<and> lru_spec ops keys \<and> 0 < limit \<longrightarrow>
         bb_wf ops keys s \<and> bb_limit ops s = limit" for it ops keys limit
  by unfold_locales
     (auto simp: bb_new_def lru_reads bb_step_limit intro: bb_wf_new [unfolded bb_new_def] bb_step_wf)

section \<open>Properties\<close>

text \<open>A buffer for the witnesses: the child 8 of block 7 with its witness, and its own child 9,
  which has none yet.\<close>

definition sample_buffer :: "(u32 \<times> b256 list) block_buffer" where
  "sample_buffer =
     bb_insert_block list_lru (sample_block 9 8 4)
       (bb_insert_witness 8 (ew_new [] 0) {||}
         (bb_insert_block list_lru (sample_block 8 7 3) (bb_new list_lru 2)))"

lemma sample_buffer_wf: "bb_wf list_lru snd sample_buffer"
  unfolding sample_buffer_def
  by (intro wf_intros list_lru_spec)
     (simp_all add: no_hash_clash_def bb_new_def bb_insert_witness_def bb_insert_outcome
        bb_insert_block_def bb_insert_hash_and_get_evicted_def Let_def list_lru_def)

lemma sample_buffer_views:
  "blocks sample_buffer = fmupd 9 (sample_block 9 8 4) (fmupd 8 (sample_block 8 7 3) fmempty)"
  "witnesses sample_buffer = fmupd 8 (ew_new [] 0) fmempty"
  "missing_bytecodes sample_buffer = fmempty"
  "parent_to_child sample_buffer = fmupd 8 {|9|} (fmupd 7 {|8|} fmempty)"
  "snd (lru sample_buffer) = [8, 9]"
  by (simp_all add: sample_buffer_def bb_new_def bb_insert_witness_def bb_insert_block_def
      bb_insert_hash_and_get_evicted_def Let_def list_lru_def entry_insert_def)

text \<open>(C18) Every buffer that the operations of \<open>BlockBuffer\<close> can produce from an empty one with a
  limit above 0 is well-formed, and holds at most \<open>limit\<close> blocks: blocks are stored under their
  hash, both indexes name only buffered blocks, the index by number names all of them, and the
  LRU map tracks exactly the buffered blocks.\<close>

theorem bb_reachable_bounded:
  assumes "iteration_order it" "lru_spec ops keys" "0 < limit"
    and "reachable (\<lambda>s. s = bb_new ops limit) (bb_step it ops) s"
  shows "bb_wf ops keys s \<and> fcard (fmdom (blocks s)) \<le> unat limit"
proof -
  have wf: "bb_wf ops keys s" and limit: "bb_limit ops s = limit"
    using bb_machine.reachable_inv [OF assms(4)] assms(1-3) by blast+
  note tr = bb_wfD(2) [OF wf, unfolded bb_tracked_def]
  then have "fcard (fmdom (blocks s)) = length (keys (lru s))"
    by (metis distinct_card fcard.rep_eq)
  with wf tr limit show ?thesis by simp
qed

theorem bb_reachable_bounded_witness:
  "fcard (fmdom (blocks (snd (bb_remove_witness 8
       (bb_insert_block list_lru (sample_block 8 7 3) (bb_new list_lru 2)))))) \<le> 2"
proof -
  let ?reach = "reachable (\<lambda>s. s = bb_new list_lru 2) (bb_step sorted_list_of_fset list_lru)"
  have "?reach (bb_new list_lru 2)" by (rule reachable_init) simp
  then have "?reach (bb_insert_block list_lru (sample_block 8 7 3) (bb_new list_lru 2))"
    by (rule reachable_step) (rule bb_step_insert, simp add: no_hash_clash_def bb_new_def)
  then have "?reach (snd (bb_remove_witness 8
      (bb_insert_block list_lru (sample_block 8 7 3) (bb_new list_lru 2))))"
    by (rule reachable_step) (rule bb_step_remove_witness)
  from bb_reachable_bounded [OF iteration_order_sorted list_lru_spec _ this] show ?thesis by simp
qed

text \<open>(C21) Inserting a block makes it the most recently used one and keeps every other block,
  except that a new block inserted into a full buffer takes the place of the least recently used
  one. Inserting a block that is already buffered evicts nothing.\<close>

theorem bb_insert_block_exact:
  assumes "lru_spec ops keys" "bb_wf ops keys s"
  shows "let s' = bb_insert_block ops b s;
             full = (fcard (fmdom (blocks s)) = unat (lru_max_length ops (lru s)));
             evicted = (if hash b |\<notin>| fmdom (blocks s) \<and> full then {hd (keys (lru s))} else {})
         in fmlookup (blocks s') (hash b) = Some b \<and>
            (\<forall>h x. h \<noteq> hash b \<longrightarrow>
               (fmlookup (blocks s') h = Some x \<longleftrightarrow> fmlookup (blocks s) h = Some x \<and> h \<notin> evicted)) \<and>
            keys (lru s') = filter (\<lambda>h. h \<notin> evicted \<union> {hash b}) (keys (lru s)) @ [hash b]"
proof -
  note tr = bb_wfD(2) [OF assms(2), unfolded bb_tracked_def]
  have card: "fcard (fmdom (blocks s)) = length (keys (lru s))"
    using tr by (metis distinct_card fcard.rep_eq)
  let ?ev = "if hash b |\<notin>| fmdom (blocks s) \<and> length (keys (lru s)) = unat (lru_max_length ops (lru s))
             then {hd (keys (lru s))} else {}"
  have ev: "?ev = set_option (bb_evicted_by ops keys (hash b) s)"
    using tr by (auto simp: bb_evicted_by_def)
  have "removeAll (hash b) (if bb_evicted_by ops keys (hash b) s = None then keys (lru s)
      else tl (keys (lru s))) = filter (\<lambda>h. h \<notin> ?ev \<union> {hash b}) (keys (lru s))"
  proof (cases "bb_evicted_by ops keys (hash b) s")
    case None
    then show ?thesis unfolding ev by (simp add: removeAll_filter)
  next
    case (Some e)
    from bb_evicted_by_Some [OF assms Some] obtain ks where ks: "keys (lru s) = e # ks" by metis
    with tr have "filter (\<lambda>h. h \<noteq> hash b \<and> e \<noteq> h) ks = filter (\<lambda>h. h \<noteq> hash b) ks"
      by (intro filter_cong) auto
    then show ?thesis
      unfolding ev by (simp add: removeAll_filter ks Some eq_commute [of _ e])
  qed
  with bb_insert_outcome [OF assms, where b = b] show ?thesis
    unfolding Let_def card ev by simp
qed

theorem bb_insert_block_exact_witness:
  "fmlookup (blocks (bb_insert_block list_lru (sample_block 5 4 2) sample_buffer)) 8 = None \<and>
   fmlookup (blocks (bb_insert_block list_lru (sample_block 5 4 2) sample_buffer)) 9 = Some (sample_block 9 8 4)"
proof -
  let ?bs = "blocks (bb_insert_block list_lru (sample_block 5 4 2) sample_buffer)"
  have len: "fcard (fmdom (blocks sample_buffer)) = unat (lru_max_length list_lru (lru sample_buffer))"
    by (simp add: sample_buffer_def bb_new_def bb_insert_witness_def bb_insert_block_def
      bb_insert_hash_and_get_evicted_def Let_def list_lru_def fcard_finsert_if)
  have "fmlookup ?bs h = Some x \<longleftrightarrow> fmlookup (blocks sample_buffer) h = Some x \<and> h \<noteq> 8" if "h \<noteq> 5" for h x
    using bb_insert_block_exact [OF list_lru_spec sample_buffer_wf, of "sample_block 5 4 2"] that
    by (simp add: Let_def sample_buffer_views(5) len) (simp add: sample_buffer_views)
  then have "fmlookup ?bs 8 \<noteq> Some x" "fmlookup ?bs 9 = Some (sample_block 9 8 4)" for x
    by (simp_all add: sample_buffer_views)
  then show ?thesis by (metis not_Some_eq)
qed

text \<open>(C19) \<open>remove_block_with_children\<close> returns exactly the blocks that are ready, among the given
  block and its descendants by \<open>parent_to_child\<close>, each once and with its own witness; a block is
  ready when it is buffered with a witness that misses no bytecode. These blocks leave the
  buffer and no other does. The given block comes first, and every other one comes after its
  parent, unless the parent is a descendant that was not ready.\<close>

theorem bb_remove_block_with_children_exact:
  assumes "iteration_order it" "lru_spec ops keys" "bb_wf ops keys s"
  shows "let (out, s') = bb_remove_block_with_children it ops p s;
             family = insert p (descendants (parent_to_child s) {p});
             ready = {h \<in> family. bb_ready s h \<noteq> None}
         in distinct (map (\<lambda>r. hash (fst r)) out) \<and>
            set out = {r. \<exists>h\<in>ready. bb_ready s h = Some r} \<and>
            (\<forall>h. fmlookup (blocks s') h = (if h \<in> ready then None else fmlookup (blocks s) h)) \<and>
            (\<exists>rest. out = (case bb_ready s p of None \<Rightarrow> [] | Some r \<Rightarrow> [r]) @ rest \<and>
               parents_first (\<lambda>r. hash (fst r)) (\<lambda>r. parent_hash (fst r))
                 (insert p (family - ready)) rest)"
proof -
  let ?out = "fst (bb_remove_block_with_children it ops p s)"
  let ?D = "insert p (descendants (parent_to_child s) {p})"
  let ?ready = "{h \<in> ?D. bb_ready s h \<noteq> None}"
  note o = bb_remove_with_children_outcome [OF assms, where p = p]
  have "set ?out = {r. \<exists>h\<in>?ready. bb_ready s h = Some r}"
  proof (intro set_eqI iffI)
    fix r assume "r \<in> set ?out"
    then have "bb_ready s (hash (fst r)) = Some r" "hash (fst r) \<in> ?ready"
      using o(1,3) by blast+
    then show "r \<in> {r. \<exists>h\<in>?ready. bb_ready s h = Some r}" by blast
  next
    fix r assume "r \<in> {r. \<exists>h\<in>?ready. bb_ready s h = Some r}"
    then obtain h where h: "h \<in> ?ready" "bb_ready s h = Some r" by blast
    then obtain r' where "r' \<in> set ?out" "h = hash (fst r')" using o(1) by blast
    with o(3) h(2) show "r \<in> set ?out" by fastforce
  qed
  moreover have "?D - ?ready = {h \<in> ?D. bb_ready s h = None}"
  proof (rule set_eqI)
    show "h \<in> ?D - ?ready \<longleftrightarrow> h \<in> {h \<in> ?D. bb_ready s h = None}" for h
      by (cases "bb_ready s h") auto
  qed
  ultimately show ?thesis
    using o(2,4,5) by (simp only: Let_def case_prod_beta) simp
qed

theorem bb_remove_block_with_children_exact_witness:
  "(sample_block 8 7 3, ew_new [] 0) \<in>
     set (fst (bb_remove_block_with_children sorted_list_of_fset list_lru 7 sample_buffer))"
proof -
  have "entry (parent_to_child sample_buffer) 7 8"
    by (simp add: sample_buffer_views entry_def)
  then have "8 \<in> descendants (parent_to_child sample_buffer) {7}"
    by (intro descendants.child) simp
  moreover have "bb_ready sample_buffer 8 = Some (sample_block 8 7 3, ew_new [] 0)"
    by (simp add: bb_ready_def sample_buffer_views)
  ultimately show ?thesis
    using bb_remove_block_with_children_exact [OF iteration_order_sorted list_lru_spec sample_buffer_wf, of 7]
    by (auto simp: Let_def case_prod_beta)
qed

text \<open>(C20) \<open>evict_old_blocks\<close> removes exactly the buffered blocks at or below the given number and
  their descendants by \<open>parent_to_child\<close>; every other block stays. The documentation of the method
  says the blocks that precede the number: those at the number are removed too.\<close>

theorem bb_evict_old_blocks_exact:
  assumes "iteration_order it" "lru_spec ops keys" "bb_wf ops keys s"
  shows "let old = {h. \<exists>b. fmlookup (blocks s) h = Some b \<and> number b \<le> n};
             s' = bb_evict_old_blocks it ops n s
         in bb_wf ops keys s' \<and>
            (\<forall>h b. fmlookup (blocks s') h = Some b \<longleftrightarrow>
                   fmlookup (blocks s) h = Some b \<and> n < number b \<and>
                   h \<notin> descendants (parent_to_child s) old)"
proof -
  let ?old = "{h. \<exists>b. fmlookup (blocks s) h = Some b \<and> number b \<le> n}"
  have "fmlookup (blocks (bb_evict_old_blocks it ops n s)) h = Some b \<longleftrightarrow>
      fmlookup (blocks s) h = Some b \<and> n < number b \<and> h \<notin> descendants (parent_to_child s) ?old"
    for h b
    unfolding bb_evict_old_outcome [OF assms] by (auto simp: not_le)
  with bb_wf_evict_old [OF assms] show ?thesis by (simp add: Let_def)
qed

theorem bb_evict_old_blocks_exact_witness:
  "fmlookup (blocks (bb_evict_old_blocks sorted_list_of_fset list_lru 3 sample_buffer)) 9 = None"
proof -
  let ?old = "{h. \<exists>b. fmlookup (blocks sample_buffer) h = Some b \<and> number b \<le> 3}"
  have "entry (parent_to_child sample_buffer) 8 9" "8 \<in> ?old"
    by (simp_all add: sample_buffer_views entry_def)
  then have "9 \<in> descendants (parent_to_child sample_buffer) ?old"
    by (intro descendants.child)
  then have "fmlookup (blocks (bb_evict_old_blocks sorted_list_of_fset list_lru 3 sample_buffer)) 9 \<noteq> Some b" for b
    using bb_evict_old_blocks_exact [OF iteration_order_sorted list_lru_spec sample_buffer_wf, of 3]
    by (simp add: Let_def)
  then show ?thesis by (metis not_Some_eq)
qed

text \<open>(C29) A received bytecode completes exactly the blocks that were waiting for it alone: these
  hashes are returned and forgotten, every other waiting block keeps what it still misses, and
  a buffered block with a witness whose hash is returned is ready afterwards.\<close>

theorem bb_on_bytecode_received_exact:
  assumes "bb_wf ops keys s"
  shows "let (ready, s') = bb_on_bytecode_received c s in
    (\<forall>h. h |\<in>| ready \<longleftrightarrow> fmlookup (missing_bytecodes s) h = Some {|c|}) \<and>
    (\<forall>h. fmlookup (missing_bytecodes s') h =
        (if h |\<in>| ready then None
         else map_option (\<lambda>m. m |-| {|c|}) (fmlookup (missing_bytecodes s) h))) \<and>
    (\<forall>h b. h |\<in>| ready \<longrightarrow> fmlookup (blocks s) h = Some b \<longrightarrow>
        (\<exists>w. bb_ready s' h = Some (b, w) \<and> fmlookup (witnesses s) h = Some w))"
proof -
  let ?ready = "fst (bb_on_bytecode_received c s)" and ?s = "snd (bb_on_bytecode_received c s)"
  have ne: "fmlookup (missing_bytecodes s) h \<noteq> Some {||}" for h
    using bb_mapsD(4) [OF bb_wfD(1) [OF assms]] by (auto simp: no_empty_entry_alt)
  have single: "m |-| {|c|} = {||} \<longleftrightarrow> m = {||} \<or> m = {|c|}" for m :: "b256 fset"
    by auto
  have ready: "h |\<in>| ?ready \<longleftrightarrow> fmlookup (missing_bytecodes s) h = Some {|c|}" for h
    using ne [of h] by (auto simp: bb_bytecode_views(1) fmlookup_dom_iff single)
  moreover have missing: "fmlookup (missing_bytecodes ?s) h =
      (if h |\<in>| ?ready then None else map_option (\<lambda>m. m |-| {|c|}) (fmlookup (missing_bytecodes s) h))" for h
    using ne [of h] by (auto simp: bb_bytecode_views(2) ready single split: option.splits)
  moreover have "\<exists>w. bb_ready ?s h = Some (b, w) \<and> fmlookup (witnesses s) h = Some w"
    if h: "h |\<in>| ?ready" "fmlookup (blocks s) h = Some b" for h b
  proof -
    have "h |\<in>| fmdom (missing_bytecodes s)" using h(1) by (auto simp: ready intro: fmdomI)
    then obtain w where "fmlookup (witnesses s) h = Some w"
      using bb_mapsD(5) [OF bb_wfD(1) [OF assms]] by (meson fmdomE fsubsetD)
    with h show ?thesis by (simp add: bb_ready_Some missing bb_bytecode_views(3,4))
  qed
  ultimately show ?thesis by (simp add: Let_def case_prod_beta)
qed

theorem bb_on_bytecode_received_exact_witness:
  "bb_ready (snd (bb_on_bytecode_received 5 (bb_insert_witness 9 (ew_new [] 1) {|5|} sample_buffer))) 9
     = Some (sample_block 9 8 4, ew_new [] 1)"
proof -
  let ?s = "bb_insert_witness 9 (ew_new [] 1) {|5|} sample_buffer"
  have "bb_wf list_lru snd ?s" by (intro wf_intros sample_buffer_wf)
  note exact = bb_on_bytecode_received_exact [OF this, of 5, unfolded case_prod_beta Let_def]
  have "fmlookup (missing_bytecodes ?s) 9 = Some {|5|}" "fmlookup (witnesses ?s) 9 = Some (ew_new [] 1)"
    "fmlookup (blocks ?s) 9 = Some (sample_block 9 8 4)"
    by (simp_all add: bb_insert_witness_def sample_buffer_views)
  moreover from this(1) have "9 |\<in>| fst (bb_on_bytecode_received 5 ?s)"
    using exact [THEN conjunct1] by blast
  ultimately show ?thesis
    using exact [THEN conjunct2, THEN conjunct2, rule_format, of 9] by auto
qed

text \<open>(C28) \<open>lowest_ancestor\<close> returns whenever no buffered block is its own ancestor: nothing for a
  block that is not buffered, and otherwise the one buffered ancestor whose own parent is not
  buffered. Block numbers play no part: the buffered headers need not have been validated.\<close>

theorem bb_lowest_ancestor_correct:
  assumes "keyed_by_hash (blocks s)" "hash_ranked rank (blocks s)"
  shows "\<exists>r. bb_lowest_ancestor s h = Some r \<and>
    (case r of
       None \<Rightarrow> fmlookup (blocks s) h = None
     | Some a \<Rightarrow> fmlookup (blocks s) (hash a) = Some a \<and> ancestor (fmlookup (blocks s)) h (hash a) \<and>
         fmlookup (blocks s) (parent_hash a) = None \<and> fmlookup (blocks s) h \<noteq> None)"
proof (cases "fmlookup (blocks s) h")
  case (Some b)
  from bb_walk_lowest_result [OF assms Some] Some show ?thesis
    by (auto simp: bb_lowest_ancestor_def)
qed (simp add: bb_lowest_ancestor_def)

theorem bb_lowest_ancestor_correct_witness:
  "\<exists>a. bb_lowest_ancestor sample_buffer 9 = Some (Some a) \<and>
       fmlookup (blocks sample_buffer) (parent_hash a) = None"
proof -
  have "hash_ranked unat (blocks sample_buffer)"
    unfolding hash_ranked_def by (rule fmpredI) (auto simp: sample_buffer_views split: if_splits)
  moreover have "fmlookup (blocks sample_buffer) 9 \<noteq> None" by (simp add: sample_buffer_views)
  ultimately show ?thesis
    using bb_lowest_ancestor_correct [OF bb_mapsD(1) [OF bb_wfD(1) [OF sample_buffer_wf]], of unat 9]
    by (auto split: option.splits)
qed

text \<open>A buffer in which the child 8 of block 7 has no witness, and its own child 9 has one.\<close>

definition gap_buffer :: "(u32 \<times> b256 list) block_buffer" where
  "gap_buffer =
     bb_insert_witness 9 (ew_new [] 0) {||}
       (bb_insert_block list_lru (sample_block 9 8 4)
         (bb_insert_block list_lru (sample_block 8 7 3) (bb_new list_lru 2)))"

text \<open>(C31) A descendant is returned without its parent when the parent is not ready: let \<open>c\<close> be a
  descendant of the given block that is not ready, and \<open>g\<close> a child of \<open>c\<close> that is. Then \<open>g\<close> is
  returned and \<open>c\<close> is not; \<open>c\<close> stays in the buffer, and no block links to it any more, so a later
  call for its parent does not find it.\<close>

theorem bb_remove_children_skips_parent:
  assumes "iteration_order it" "lru_spec ops keys" "bb_wf ops keys s"
    and "c \<in> descendants (parent_to_child s) {p}" "bb_ready s c = None"
    and "entry (parent_to_child s) c g" "bb_ready s g = Some r"
  shows "let (out, s') = bb_remove_block_with_children it ops p s in
    r \<in> set out \<and> c \<notin> (\<lambda>r. hash (fst r)) ` set out \<and>
    fmlookup (blocks s') c = fmlookup (blocks s) c \<and> fmlookup (blocks s) c \<noteq> None \<and>
    (\<forall>q. \<not> entry (parent_to_child s') q c)"
proof -
  let ?D = "insert p (descendants (parent_to_child s) {p})"
  let ?out = "fst (bb_remove_block_with_children it ops p s)" and ?s = "snd (bb_remove_block_with_children it ops p s)"
  note out = bb_remove_with_children_outcome [OF assms(1-3), where p = p]
  have sound: "index_sound parent_hash (parent_to_child s) (blocks s)" using bb_mapsD(2) [OF bb_wfD(1) [OF assms(3)]] .
  have "g \<in> ?D" using descendants.grandchild [OF assms(4,6)] by simp
  with assms(7) have "g \<in> (\<lambda>r. hash (fst r)) ` set ?out" using out(1) by simp
  then obtain r' where "r' \<in> set ?out" "hash (fst r') = g" by auto
  with out(3) [of r'] assms(7) have "r \<in> set ?out" by auto
  moreover have "c \<notin> (\<lambda>r. hash (fst r)) ` set ?out" using out(1) assms(5) by simp
  moreover have "fmlookup (blocks ?s) c = fmlookup (blocks s) c" using out(4) assms(5) by simp
  moreover from descendants_has_parent [OF assms(4)] obtain q where q: "entry (parent_to_child s) q c" "q \<in> ?D" by auto
  then obtain b where b: "fmlookup (blocks s) c = Some b" "parent_hash b = q" using index_soundD [OF sound] by blast
  moreover have "\<not> entry (parent_to_child ?s) q' c" for q'
  proof
    assume "entry (parent_to_child ?s) q' c"
    from bb_remove_with_children_links [OF assms(1-3) this] index_soundD [OF sound, of q' c] b q(2) show False by auto
  qed
  ultimately show ?thesis by (simp add: case_prod_beta)
qed

lemma gap_buffer_views:
  "blocks gap_buffer = fmupd 9 (sample_block 9 8 4) (fmupd 8 (sample_block 8 7 3) fmempty)"
  "parent_to_child gap_buffer = fmupd 8 {|9|} (fmupd 7 {|8|} fmempty)"
  "bb_ready gap_buffer 8 = None" "bb_ready gap_buffer 9 = Some (sample_block 9 8 4, ew_new [] 0)"
  by (simp_all add: gap_buffer_def bb_new_def bb_insert_witness_def bb_insert_block_def
      bb_insert_hash_and_get_evicted_def Let_def list_lru_def entry_insert_def bb_ready_def)

lemma gap_buffer_wf: "bb_wf list_lru snd gap_buffer"
  unfolding gap_buffer_def
  by (intro wf_intros list_lru_spec) (simp_all add: no_hash_clash_def bb_new_def bb_insert_block_def
      bb_insert_hash_and_get_evicted_def Let_def list_lru_def)

theorem bb_remove_children_skips_parent_witness:
  "let (out, s') = bb_remove_block_with_children sorted_list_of_fset list_lru 7 gap_buffer in
     (sample_block 9 8 4, ew_new [] 0) \<in> set out \<and> fmlookup (blocks s') 8 = Some (sample_block 8 7 3) \<and>
     \<not> entry (parent_to_child s') 7 8"
proof -
  have "entry (parent_to_child gap_buffer) 7 8" "entry (parent_to_child gap_buffer) 8 9"
    by (simp_all add: gap_buffer_views entry_def)
  from bb_remove_children_skips_parent [OF iteration_order_sorted list_lru_spec gap_buffer_wf
      descendants.child [OF _ this(1), of "{7}"] gap_buffer_views(3) this(2) gap_buffer_views(4)]
  show ?thesis by (auto simp: gap_buffer_views)
qed

end
