(* ===== verification/Tree_Canonical.thy ===== *)
theory Tree_Canonical
  imports Engine_Tree Buffer_Correct
begin

text \<open>
  The canonical chain of the engine tree: the fork detection \<open>is_fork\<close>, the chain that
  \<open>on_new_head\<close> computes, and what \<open>on_canonical_chain_update\<close> makes of the canonical hashes.
\<close>

section \<open>The executed blocks as a store of headers\<close>

definition et_linked :: "('d, 'l, 'c, 'f) engine_tree \<Rightarrow> bool" where
  "et_linked t \<longleftrightarrow> cs_linked (rp_chain_state (et_provider t))"

abbreviation known :: "('d, 'l, 'c, 'f) engine_tree \<Rightarrow> b256 \<Rightarrow> sealed_header option" where
  "known t \<equiv> rp_sealed_header (et_provider t)"

lemma known_cases:
  assumes "known t h = Some b"
  obtains x where "fmlookup (executed_blocks (et_provider t)) h = Some x" "b = sealed_header.truncate x"
  using assms by (auto simp: rp_sealed_header_iff)

lemma et_linked_keyed: "et_linked t \<Longrightarrow> known t h = Some b \<Longrightarrow> hash b = h"
  by (erule known_cases) (simp add: et_linked_def executed.keyed)

lemma et_linked_child:
  assumes "et_linked t" "known t h = Some b" "known t (parent_hash b) = Some p"
  shows "next_number (number p) (number b)"
proof -
  from assms(2) obtain x where
    x: "fmlookup (executed_blocks (et_provider t)) h = Some x" "b = sealed_header.truncate x"
    by (rule known_cases)
  from assms(3) obtain y where
    y: "fmlookup (executed_blocks (et_provider t)) (parent_hash b) = Some y" "p = sealed_header.truncate y"
    by (rule known_cases)
  from executed.child_number [OF assms(1) [unfolded et_linked_def] x(1), of y] y
  show ?thesis by (simp add: x(2))
qed

interpretation tree: header_chain "\<lambda>t. known t" et_linked
  by unfold_locales (auto intro: et_linked_keyed et_linked_child)

section \<open>Fork detection\<close>

text \<open>The loop of \<open>is_fork\<close> returns, and says whether the canonical head is an executed ancestor.\<close>

lemma et_walk_is_fork_result:
  assumes "et_linked t"
    and head: "\<And>b. known t (bnh_hash head) = Some b \<Longrightarrow> number b = bnh_number head"
  shows "\<exists>r. et_walk_is_fork (known t) head h = Some r \<and>
    (r \<longleftrightarrow> \<not> (ancestor (known t) h (bnh_hash head) \<and> known t (bnh_hash head) \<noteq> None))"
  using assms(1)
proof (induction h rule: tree.parent_induct)
  case (parent h)
  show ?case
  proof (cases "known t h")
    case None
    then show ?thesis by (auto simp: et_walk_is_fork.simps ancestor_None)
  next
    case (Some b)
    have hb: "hash b = h" using assms(1) Some by (rule tree.keyed)
    note anc = ancestor_Some [where get = "known t", OF Some]
    consider (here) "h = bnh_hash head" | (below) "h \<noteq> bnh_hash head" "number b \<le> bnh_number head"
      | (above) "h \<noteq> bnh_hash head" "\<not> number b \<le> bnh_number head" by blast
    then show ?thesis
    proof cases
      case here
      with Some hb show ?thesis by (auto simp: et_walk_is_fork.simps intro: ancestor_refl)
    next
      case below
      have "\<not> (ancestor (known t) h (bnh_hash head) \<and> known t (bnh_hash head) \<noteq> None)"
      proof
        assume *: "ancestor (known t) h (bnh_hash head) \<and> known t (bnh_hash head) \<noteq> None"
        then obtain x where x: "known t (bnh_hash head) = Some x" by auto
        from * below anc have "ancestor (known t) (parent_hash b) (bnh_hash head)" by auto
        then obtain p where p: "known t (parent_hash b) = Some p"
          using x by (cases "known t (parent_hash b)") (auto simp: ancestor_None)
        have "number x \<le> number p"
          using tree.ancestor_number_le [OF assms(1) _ p x] * below anc by auto
        also have "number p < number b" using assms(1) Some p by (rule tree.child_number_less)
        finally show False using below(2) head [OF x] by simp
      qed
      with below Some hb show ?thesis by (auto simp: et_walk_is_fork.simps)
    next
      case above
      with parent [OF Some] Some hb anc show ?thesis
        by (simp add: et_walk_is_fork.simps)
    qed
  qed
qed

section \<open>Walking back\<close>

lemma et_walk_back_stop: "\<not> stop < n \<Longrightarrow> et_walk_back get stop n h ch = Some (n, h, ch)"
  by (simp add: et_walk_back.simps)

lemma et_walk_back_step:
  "stop < n \<Longrightarrow> get h = Some b \<Longrightarrow>
   et_walk_back get stop n h ch = et_walk_back get stop (n - 1) (parent_hash b) (ch @ [b])"
  "stop < n \<Longrightarrow> get h = None \<Longrightarrow> et_walk_back get stop n h ch = None"
  by (subst et_walk_back.simps; simp)+

text \<open>\<open>back_path get h xs h'\<close>: the blocks \<open>xs\<close>, newest first, lead from \<open>h\<close> back to \<open>h'\<close>.\<close>

fun back_path :: "(b256 \<Rightarrow> sealed_header option) \<Rightarrow> b256 \<Rightarrow> sealed_header list \<Rightarrow> b256 \<Rightarrow> bool" where
  "back_path get h [] h' \<longleftrightarrow> h = h'"
| "back_path get h (x # xs) h' \<longleftrightarrow> get h = Some x \<and> back_path get (parent_hash x) xs h'"

lemma back_path_append:
  "back_path get h (xs @ ys) h' \<longleftrightarrow> (\<exists>m. back_path get h xs m \<and> back_path get m ys h')"
  by (induction xs arbitrary: h) auto

lemma back_path_ancestor: "back_path get h xs h' \<Longrightarrow> ancestor get h h'"
  by (induction xs arbitrary: h) (auto intro: ancestor.intros)

lemma back_path_linked:
  "et_linked t \<Longrightarrow> back_path (known t) h xs h' \<Longrightarrow> linked h' (rev xs) \<and> chain_tip h' (rev xs) = h"
proof (induction xs arbitrary: h)
  case (Cons x xs)
  then have "hash x = h" "linked h' (rev xs)" "chain_tip h' (rev xs) = parent_hash x"
    by (auto intro: tree.keyed)
  then show ?case by (simp add: linked_append)
qed simp

text \<open>Where the numbers of the blocks agree with the counter: a block, when stored, has the
  counter's number.\<close>

definition at_number :: "('d, 'l, 'c, 'f) engine_tree \<Rightarrow> b256 \<Rightarrow> u64 \<Rightarrow> bool" where
  "at_number t h n \<longleftrightarrow> (\<forall>b. known t h = Some b \<longrightarrow> number b = n)"

lemma at_number_parent:
  assumes "et_linked t" "known t h = Some b" "number b = n"
  shows "at_number t (parent_hash b) (n - 1)"
  unfolding at_number_def
proof (intro allI impI)
  fix p assume "known t (parent_hash b) = Some p"
  with assms have "next_number (number p) n" using tree.child_number by blast
  then show "number p = n - 1" by (simp add: next_number_pred)
qed

lemma walk_number:
  assumes "stop < (n :: u64)"
  shows "n \<noteq> 0" "unat (n - 1) = unat n - 1" "min (n - 1) stop = min n stop" "0 < unat n"
proof -
  from assms show n: "n \<noteq> 0" by auto
  then show u: "unat (n - 1) = unat n - 1" by (rule unat_minus_one)
  from n show "0 < unat n" by (simp add: unat_gt_0)
  have "stop \<le> n - 1" using assms u by (simp add: word_le_nat_alt word_less_nat_alt)
  then show "min (n - 1) stop = min n stop" using assms by (simp add: min_absorb2)
qed

lemma et_walk_back_result:
  assumes "et_linked t" "at_number t h n"
  shows "case et_walk_back (known t) stop n h ch of
      Some (n', h', ch') \<Rightarrow> n' = min n stop \<and> at_number t h' n' \<and>
        (\<exists>xs. ch' = ch @ xs \<and> back_path (known t) h xs h' \<and> unat n = unat n' + length xs)
    | None \<Rightarrow> \<exists>xs m. back_path (known t) h xs m \<and> known t m = None \<and> unat stop + length xs < unat n"
  using assms(2)
proof (induction "known t" stop n h ch rule: et_walk_back.induct)
  case (1 stop n h ch)
  show ?case
  proof (cases "stop < n")
    case False
    then show ?thesis
      using 1(2) by (auto simp: et_walk_back_stop min_def not_less intro!: exI [of _ "[]"])
  next
    case stop: True
    show ?thesis
    proof (cases "known t h")
      case None
      with stop show ?thesis
        by (auto simp: et_walk_back_step word_less_nat_alt intro!: exI [of _ "[]"] exI [of _ h])
    next
      case (Some b)
      have n: "n \<noteq> 0" "unat (n - 1) = unat n - 1" "min (n - 1) stop = min n stop" "0 < unat n"
        using walk_number [OF stop] by auto
      have "at_number t (parent_hash b) (n - 1)"
        using 1(2) Some by (intro at_number_parent [OF assms(1) Some]) (simp add: at_number_def)
      note IH = 1(1) [OF stop Some this]
      show ?thesis
      proof (cases "et_walk_back (known t) stop (n - 1) (parent_hash b) (ch @ [b])")
        case None
        with IH obtain xs m where "back_path (known t) (parent_hash b) xs m" "known t m = None"
          "unat stop + length xs < unat (n - 1)" by auto
        with Some n have "back_path (known t) h (b # xs) m" "unat stop + length (b # xs) < unat n"
          by auto
        with \<open>known t m = None\<close> show ?thesis
          unfolding et_walk_back_step(1) [where get = "known t", OF stop Some] None option.case by blast
      next
        case (Some r)
        obtain n' h' ch' where r: "r = (n', h', ch')" by (cases r)
        with IH Some obtain xs where "ch' = (ch @ [b]) @ xs" "back_path (known t) (parent_hash b) xs h'"
          "unat (n - 1) = unat n' + length xs" and rest: "n' = min (n - 1) stop" "at_number t h' n'" by auto
        then have "ch' = ch @ (b # xs)" "back_path (known t) h (b # xs) h'" "unat n = unat n' + length (b # xs)"
          using \<open>known t h = Some b\<close> n by auto
        with rest n r Some show ?thesis
          by (auto simp: et_walk_back_step(1) [where get = "known t", OF stop \<open>known t h = Some b\<close>])
      qed
    qed
  qed
qed

text \<open>The loop over both chains.\<close>

lemma et_walk_fork_simps:
  "et_walk_fork get h h old new = Some (Some (old, new))"
  "a \<noteq> c \<Longrightarrow> get a = None \<Longrightarrow> et_walk_fork get a c old new = Some None"
  "a \<noteq> c \<Longrightarrow> get a = Some x \<Longrightarrow> get c = None \<Longrightarrow> et_walk_fork get a c old new = Some None"
  "a \<noteq> c \<Longrightarrow> get a = Some x \<Longrightarrow> get c = Some y \<Longrightarrow> et_walk_fork get a c old new =
     et_walk_fork get (parent_hash x) (parent_hash y) (old @ [x]) (new @ [y])"
  by (subst et_walk_fork.simps; simp)+

text \<open>Two paths of the same length to one block.\<close>

definition meet :: "('d, 'l, 'c, 'f) engine_tree \<Rightarrow> b256 \<Rightarrow> b256 \<Rightarrow> sealed_header list \<Rightarrow> sealed_header list \<Rightarrow> b256 \<Rightarrow> bool" where
  "meet t a c xs ys fork \<longleftrightarrow>
     length xs = length ys \<and> back_path (known t) a xs fork \<and> back_path (known t) c ys fork"

lemma meet_missing: "a \<noteq> c \<Longrightarrow> known t a = None \<or> known t c = None \<Longrightarrow> \<not> meet t a c xs ys fork"
  by (cases xs; cases ys) (auto simp: meet_def)

lemma meet_step:
  "a \<noteq> c \<Longrightarrow> known t a = Some x \<Longrightarrow> known t c = Some y \<Longrightarrow>
   meet t a c xs ys fork \<longleftrightarrow>
     (\<exists>xs' ys'. xs = x # xs' \<and> ys = y # ys' \<and> meet t (parent_hash x) (parent_hash y) xs' ys' fork)"
  by (cases xs; cases ys) (auto simp: meet_def)

lemma et_walk_fork_result:
  assumes "et_linked t"
  shows "\<exists>r. et_walk_fork (known t) a c old new = Some r \<and>
    (case r of
       Some (old', new') \<Rightarrow> \<exists>xs ys fork. old' = old @ xs \<and> new' = new @ ys \<and> meet t a c xs ys fork
     | None \<Rightarrow> \<forall>xs ys fork. \<not> meet t a c xs ys fork)"
  using assms
proof (induction a arbitrary: c old new rule: tree.parent_induct)
  case (parent a)
  consider (same) "a = c" | (no_old) "a \<noteq> c" "known t a = None"
    | (no_new) x where "a \<noteq> c" "known t a = Some x" "known t c = None"
    | (both) x y where "a \<noteq> c" "known t a = Some x" "known t c = Some y"
    by (cases "known t a"; cases "known t c") auto
  then show ?case
  proof cases
    case same
    then show ?thesis by (auto simp: et_walk_fork_simps meet_def intro!: exI [of _ "[]"])
  next
    case no_old
    then show ?thesis using meet_missing [of a c t] by (simp add: et_walk_fork_simps(2) [where get = "known t", OF no_old(1)])
  next
    case no_new
    then show ?thesis
      using meet_missing [of a c t] by (simp add: et_walk_fork_simps(3) [where get = "known t", OF no_new(1,2)])
  next
    case both
    note walk = et_walk_fork_simps(4) [where get = "known t", OF both] and step = meet_step [OF both]
    from parent [OF both(2), of "parent_hash y" "old @ [x]" "new @ [y]"]
    obtain r where r: "et_walk_fork (known t) a c old new = Some r"
      and IH: "case r of
        Some (old', new') \<Rightarrow> \<exists>xs ys fork. old' = (old @ [x]) @ xs \<and> new' = (new @ [y]) @ ys \<and>
          meet t (parent_hash x) (parent_hash y) xs ys fork
      | None \<Rightarrow> \<forall>xs ys fork. \<not> meet t (parent_hash x) (parent_hash y) xs ys fork"
      unfolding walk by blast
    show ?thesis
    proof (cases r)
      case None
      with r IH step show ?thesis by simp
    next
      case (Some p)
      obtain old' new' where p: "p = (old', new')" by (cases p)
      with IH Some obtain xs ys fork where "old' = old @ (x # xs)" "new' = new @ (y # ys)"
        "meet t a c (x # xs) (y # ys) fork"
        using step by auto
      then show ?thesis using r Some p by (intro exI [of _ r] conjI) (simp_all, blast)
    qed
  qed
qed

section \<open>The new chain\<close>

lemma back_path_prefix:
  assumes "back_path get h xs m" "back_path get h ys f" "length xs \<le> length ys"
  shows "\<exists>zs. ys = xs @ zs \<and> back_path get m zs f"
  using assms
proof (induction xs arbitrary: h ys)
  case (Cons x xs)
  then obtain ys' where "ys = x # ys'" by (cases ys) auto
  with Cons show ?case by auto
qed simp

lemma back_path_maximal:
  assumes "back_path get h xs m" "get m = None" "back_path get h ys f"
  shows "length ys \<le> length xs"
proof (rule ccontr)
  assume "\<not> length ys \<le> length xs"
  then obtain zs where zs: "ys = xs @ zs" "back_path get m zs f"
    using back_path_prefix [OF assms(1,3)] by auto
  with assms(2) have "zs = []" by (cases zs) auto
  with zs \<open>\<not> length ys \<le> length xs\<close> show False by simp
qed

text \<open>What \<open>on_new_head\<close> promises of the chain it returns for the head \<open>h\<close>.\<close>

definition chain_to_head :: "('d, 'l, 'c, 'f) engine_tree \<Rightarrow> b256 \<Rightarrow> new_canonical_chain \<Rightarrow> bool" where
  "chain_to_head t h u \<longleftrightarrow>
     (case u of
        Commit new \<Rightarrow> new \<noteq> [] \<and> back_path (known t) h (rev new) (bnh_hash (et_canonical_head t))
      | Reorg new old \<Rightarrow> new \<noteq> [] \<and> old \<noteq> [] \<and>
          unat (bnh_number (et_canonical_head t)) \<le> unat (number (last new)) + length old \<and>
          (\<exists>fork. back_path (known t) h (rev new) fork \<and>
                  back_path (known t) (bnh_hash (et_canonical_head t)) (rev old) fork))"

text \<open>The head and the canonical head have a common ancestor at the same height.\<close>

definition connects :: "('d, 'l, 'c, 'f) engine_tree \<Rightarrow> b256 \<Rightarrow> bool" where
  "connects t h \<longleftrightarrow>
     (\<exists>b xs ys fork. known t h = Some b \<and> number b \<noteq> 0 \<and> xs \<noteq> [] \<and>
        back_path (known t) h xs fork \<and>
        back_path (known t) (bnh_hash (et_canonical_head t)) ys fork \<and>
        unat (number b) + length ys = unat (bnh_number (et_canonical_head t)) + length xs)"

lemma parent_at_number:
  assumes "et_linked t" "parent_num_hash_spec (pnh D)" "known t h = Some b"
  shows "bnh_hash (pnh D (header.truncate b)) = parent_hash b"
    and "at_number t (parent_hash b) (bnh_number (pnh D (header.truncate b)))"
    and "number b \<noteq> 0 \<Longrightarrow> Suc (unat (bnh_number (pnh D (header.truncate b)))) = unat (number b)"
    and "unat (bnh_number (pnh D (header.truncate b))) \<le> unat (number b)"
proof -
  show "bnh_hash (pnh D (header.truncate b)) = parent_hash b"
    using assms(2) by (simp add: parent_num_hash_hash)
  have n: "bnh_number (pnh D (header.truncate b)) = (if number b = 0 then 0 else number b - 1)"
    using parent_num_hash_number [OF assms(2), of "header.truncate b"] by simp
  show "at_number t (parent_hash b) (bnh_number (pnh D (header.truncate b)))"
  proof (cases "number b = 0")
    case True
    have "known t (parent_hash b) = None"
      using tree.child_number [OF assms(1,3)] next_number_less True
      by (cases "known t (parent_hash b)") fastforce+
    then show ?thesis by (simp add: at_number_def)
  next
    case False
    with at_number_parent [OF assms(1,3) refl] show ?thesis by (simp add: n)
  qed
  show "number b \<noteq> 0 \<Longrightarrow> Suc (unat (bnh_number (pnh D (header.truncate b)))) = unat (number b)"
    using unat_minus_one [of "number b"] unat_gt_0 [of "number b"] by (simp add: n)
  then show "unat (bnh_number (pnh D (header.truncate b))) \<le> unat (number b)"
    by (cases "number b = 0") (simp_all add: n)
qed

text \<open>The three early returns: there is no common ancestor at the same height.\<close>

lemma connects_cases:
  assumes "connects t h" "known t h = Some b"
  obtains xs ys fork where "back_path (known t) (parent_hash b) xs fork"
    "back_path (known t) (bnh_hash (et_canonical_head t)) ys fork" "number b \<noteq> 0"
    "unat (number b) + length ys = unat (bnh_number (et_canonical_head t)) + Suc (length xs)"
proof -
  from assms obtain xs ys fork where "xs \<noteq> []" and p: "back_path (known t) h xs fork"
    "back_path (known t) (bnh_hash (et_canonical_head t)) ys fork" "number b \<noteq> 0"
    "unat (number b) + length ys = unat (bnh_number (et_canonical_head t)) + length xs"
    unfolding connects_def by auto
  then obtain xs' where "xs = b # xs'" using assms(2) by (cases xs) auto
  with p that show ?thesis by auto
qed

text \<open>The first walk goes from the parent of the new head down to the height of the canonical head.\<close>

lemma new_walk_incomplete:
  assumes "back_path (known t) (parent_hash b) xs0 m" "known t m = None" "known t h = Some b"
    and "unat (bnh_number (et_canonical_head t)) + length xs0 < n" "number b \<noteq> 0 \<Longrightarrow> Suc n = unat (number b)"
  shows "\<not> connects t h"
proof
  assume "connects t h"
  from connects_cases [OF this assms(3)] obtain xs ys fork where
    c: "back_path (known t) (parent_hash b) xs fork" "back_path (known t) (bnh_hash (et_canonical_head t)) ys fork"
      "number b \<noteq> 0" "unat (number b) + length ys = unat (bnh_number (et_canonical_head t)) + Suc (length xs)" .
  with back_path_maximal [OF assms(1,2) c(1)] assms(4) assms(5) [OF c(3)] show False by linarith
qed

text \<open>The second one from the canonical head down to the height of the first.\<close>

lemma old_walk_incomplete:
  assumes "back_path (known t) (bnh_hash (et_canonical_head t)) ys0 m" "known t m = None" "known t h = Some b"
    and "n + length ys0 < unat (bnh_number (et_canonical_head t))" "number b \<noteq> 0 \<Longrightarrow> Suc n = unat (number b)"
  shows "\<not> connects t h"
proof
  assume "connects t h"
  from connects_cases [OF this assms(3)] obtain xs ys fork where
    c: "back_path (known t) (parent_hash b) xs fork" "back_path (known t) (bnh_hash (et_canonical_head t)) ys fork"
      "number b \<noteq> 0" "unat (number b) + length ys = unat (bnh_number (et_canonical_head t)) + Suc (length xs)" .
  with back_path_maximal [OF assms(1,2) c(2)] assms(4) assms(5) [OF c(3)] show False by linarith
qed

text \<open>After both, the walks are at the same height, and one of them is empty.\<close>

lemma level_walks_meet:
  assumes new: "back_path (known t) (parent_hash b) xs1 h1" and old: "back_path (known t) (bnh_hash (et_canonical_head t)) ys1 h2"
    and level: "number b \<noteq> 0 \<Longrightarrow> unat (number b) = Suc (n + length xs1)"
      "unat (bnh_number (et_canonical_head t)) = n + length ys1" "xs1 = [] \<or> ys1 = []"
    and b: "known t h = Some b" and conn: "connects t h"
  shows "\<exists>us vs f. meet t h2 h1 us vs f"
proof -
  from connects_cases [OF conn b] obtain xs ys f where
    c: "back_path (known t) (parent_hash b) xs f" "back_path (known t) (bnh_hash (et_canonical_head t)) ys f"
      "number b \<noteq> 0" "unat (number b) + length ys = unat (bnh_number (et_canonical_head t)) + Suc (length xs)" .
  have eq: "length xs1 + length ys = length ys1 + length xs" using c(4) level(1) [OF c(3)] level(2) by linarith
  with level(3) have "length xs1 \<le> length xs" "length ys1 \<le> length ys" by auto
  then obtain us vs where "xs = xs1 @ us" "back_path (known t) h1 us f" "ys = ys1 @ vs" "back_path (known t) h2 vs f"
    using back_path_prefix [OF new c(1)] back_path_prefix [OF old c(2)] by auto
  with eq show ?thesis by (auto simp: meet_def)
qed

lemma meeting_walks_reorg:
  assumes new: "back_path (known t) h (b # xs1) h1" and old: "back_path (known t) (bnh_hash (et_canonical_head t)) ys1 h2"
    and "meet t h2 h1 us vs f" "h1 \<noteq> bnh_hash (et_canonical_head t)"
    and "unat (bnh_number (et_canonical_head t)) \<le> unat (number b) + length ys1" "known t h = Some b"
  shows "chain_to_head t h (Reorg (rev ((b # xs1) @ vs)) (rev (ys1 @ us)))"
proof -
  have paths: "back_path (known t) h ((b # xs1) @ vs) f" "back_path (known t) (bnh_hash (et_canonical_head t)) (ys1 @ us) f"
    using assms(3) new old by (auto simp: meet_def back_path_append)
  moreover have "ys1 @ us \<noteq> []" using assms(3,4) old by (auto simp: meet_def)
  ultimately show ?thesis using assms(5) by (auto simp: chain_to_head_def)
qed

lemma et_on_new_head_result:
  assumes t: "et_linked t" and pnh: "parent_num_hash_spec (pnh D)"
    and head: "at_number t (bnh_hash (et_canonical_head t)) (bnh_number (et_canonical_head t))"
  shows "\<exists>r. et_on_new_head D t h = Some r \<and>
    (case r of
       None \<Rightarrow> \<not> connects t h
     | Some u \<Rightarrow> chain_to_head t h u \<and> known t h = Some (last (ncc_new u)))"
proof (cases "known t h")
  case None
  then show ?thesis by (auto simp: et_on_new_head_def connects_def)
next
  case (Some b)
  let ?head = "et_canonical_head t" and ?par = "pnh D (header.truncate b)"
  note par = parent_at_number [OF t pnh Some]
  let ?w1 = "et_walk_back (known t) (bnh_number ?head) (bnh_number ?par) (parent_hash b) [b]"
  note w1 = et_walk_back_result [OF t par(2), of "bnh_number ?head" "[b]"]
  show ?thesis
  proof (cases ?w1)
    case None
    with w1 new_walk_incomplete [OF _ _ Some _ par(3)] have "\<not> connects t h" by auto
    with None Some par(1) show ?thesis by (simp add: et_on_new_head_def Let_def)
  next
    case w: (Some r)
    obtain n1 h1 ch1 where r: "r = (n1, h1, ch1)" by (cases r)
    with w w1 obtain xs1 where n1: "n1 = min (bnh_number ?par) (bnh_number ?head)"
      and xs1: "ch1 = b # xs1" "back_path (known t) (parent_hash b) xs1 h1"
        "unat (bnh_number ?par) = unat n1 + length xs1" by auto
    have level: "n1 = bnh_number ?par \<or> n1 = bnh_number ?head" unfolding n1 min_def by simp
    show ?thesis
    proof (cases "h1 = bnh_hash ?head")
      case True
      with xs1 w r Some par(1) show ?thesis by (simp add: et_on_new_head_def Let_def chain_to_head_def)
    next
      case ne: False
      let ?w2 = "et_walk_back (known t) n1 (bnh_number ?head) (bnh_hash ?head) []"
      note w2 = et_walk_back_result [OF t head, of n1 "[]"]
      have le: "min (bnh_number ?head) n1 = n1" unfolding n1 by (simp add: min.commute)
      show ?thesis
      proof (cases ?w2)
        case None
        with w2 obtain ys0 m where m: "back_path (known t) (bnh_hash ?head) ys0 m" "known t m = None"
          "unat n1 + length ys0 < unat (bnh_number ?head)" by auto
        then have "unat n1 = unat (bnh_number ?par)" using level by auto
        with old_walk_incomplete [OF m(1,2) Some m(3)] par(3) have "\<not> connects t h" by simp
        with None Some w r ne par(1) show ?thesis by (simp add: et_on_new_head_def Let_def)
      next
        case w': (Some r')
        obtain n2 h2 ys1 where r': "r' = (n2, h2, ys1)" by (cases r')
        have ys1: "back_path (known t) (bnh_hash ?head) ys1 h2" "unat (bnh_number ?head) = unat n1 + length ys1"
          using w2 le unfolding w' r' by simp_all
        obtain q where q: "et_walk_fork (known t) h2 h1 ys1 ch1 = Some q"
          and fork: "case q of
             Some (old', new') \<Rightarrow> \<exists>us vs f. old' = ys1 @ us \<and> new' = ch1 @ vs \<and> meet t h2 h1 us vs f
           | None \<Rightarrow> \<forall>us vs f. \<not> meet t h2 h1 us vs f"
          using et_walk_fork_result [OF t, of h2 h1 ys1 ch1] by blast
        have res: "et_on_new_head D t h = Some (map_option (\<lambda>(old, new). Reorg (rev new) (rev old)) q)"
          using Some w r ne par(1) w' r' q by (simp add: et_on_new_head_def Let_def)
        show ?thesis
        proof (cases q)
          case None
          have "xs1 = [] \<or> ys1 = []" using level xs1(3) ys1(2) by auto
          with level_walks_meet [OF xs1(2) ys1(1) _ ys1(2) _ Some] par(3) xs1(3) fork None have "\<not> connects t h" by auto
          with res None show ?thesis by simp
        next
          case p: (Some p)
          with fork obtain us vs f where uv: "p = (ys1 @ us, ch1 @ vs)" "meet t h2 h1 us vs f" by (cases p) auto
          have "chain_to_head t h (Reorg (rev (ch1 @ vs)) (rev (ys1 @ us)))"
            using meeting_walks_reorg [OF _ ys1(1) uv(2) ne, of h b xs1] xs1 ys1(2) par(4) Some by simp
          then show ?thesis using res p uv(1) xs1(1) Some by simp
        qed
      qed
    qed
  qed
qed

section \<open>The canonical hashes\<close>

text \<open>The index of canonical hashes agrees with the canonical head: every executed ancestor of the
  head is canonical under its number, nothing is canonical above the head, and a canonical hash
  of a stored block is filed under the block's number. The head is stored, or is the genesis.\<close>

definition canonical_ok :: "('d, 'l, 'c, 'f) engine_tree \<Rightarrow> bool" where
  "canonical_ok t \<longleftrightarrow>
     (\<forall>h b. ancestor (known t) (bnh_hash (et_canonical_head t)) h \<longrightarrow> known t h = Some b \<longrightarrow>
            canonical (et_provider t) (number b) = Some h) \<and>
     (\<forall>n. bnh_number (et_canonical_head t) < n \<longrightarrow> canonical (et_provider t) n = None) \<and>
     (\<forall>n h b. canonical (et_provider t) n = Some h \<longrightarrow> known t h = Some b \<longrightarrow> number b = n) \<and>
     at_number t (bnh_hash (et_canonical_head t)) (bnh_number (et_canonical_head t)) \<and>
     (known t (bnh_hash (et_canonical_head t)) = None \<longrightarrow> bnh_number (et_canonical_head t) = 0)"

lemma canonical_okD:
  assumes "canonical_ok t"
  shows "ancestor (known t) (bnh_hash (et_canonical_head t)) h \<Longrightarrow> known t h = Some b
           \<Longrightarrow> canonical (et_provider t) (number b) = Some h"
    and "bnh_number (et_canonical_head t) < n \<Longrightarrow> canonical (et_provider t) n = None"
    and "canonical (et_provider t) n = Some h \<Longrightarrow> known t h = Some b \<Longrightarrow> number b = n"
    and "at_number t (bnh_hash (et_canonical_head t)) (bnh_number (et_canonical_head t))"
    and "known t (bnh_hash (et_canonical_head t)) = None \<Longrightarrow> bnh_number (et_canonical_head t) = 0"
  using assms unfolding canonical_ok_def by blast+

text \<open>The two chains of an update.\<close>

fun ncc_chains :: "new_canonical_chain \<Rightarrow> sealed_header list \<times> sealed_header list" where
  "ncc_chains (Commit new) = (new, [])"
| "ncc_chains (Reorg new old) = (new, old)"

lemma et_update_views [simp]:
  "et_canonical_head (et_on_canonical_chain_update u t) = num_hash (ncc_tip u)"
  "et_provider (et_on_canonical_chain_update u t) =
     rp_on_chain_update (fst (ncc_chains u)) (snd (ncc_chains u)) (et_provider t)"
  "et_buffer (et_on_canonical_chain_update u t) = et_buffer t"
  "et_invalid (et_on_canonical_chain_update u t) = et_invalid t"
  "et_tracker (et_on_canonical_chain_update u t) = et_tracker t"
  "et_events (et_on_canonical_chain_update u t) = et_events t @ [CanonicalChainCommitted (ncc_tip u)]"
  by (cases u; simp add: et_on_canonical_chain_update_def et_set_canonical_head_def et_emit_event_def
      Let_def)+

lemma known_chain_update [simp]: "rp_sealed_header (rp_on_chain_update new old p) = rp_sealed_header p"
  by (rule ext) (simp add: rp_sealed_header_iff)

lemma et_linked_update [simp]: "et_linked t \<Longrightarrow> et_linked (et_on_canonical_chain_update u t)"
  by (simp add: et_linked_def rp_on_chain_update_linked)

text \<open>Both shapes of update, in the terms of \<open>ncc_chains\<close>.\<close>

lemma chain_to_head_fork:
  assumes "chain_to_head t h u"
  obtains fork where "back_path (known t) h (rev (fst (ncc_chains u))) fork"
    "back_path (known t) (bnh_hash (et_canonical_head t)) (rev (snd (ncc_chains u))) fork"
    "fst (ncc_chains u) \<noteq> []" "ncc_tip u = last (fst (ncc_chains u))"
    "snd (ncc_chains u) = [] \<Longrightarrow> fork = bnh_hash (et_canonical_head t)"
    "snd (ncc_chains u) \<noteq> [] \<Longrightarrow> unat (bnh_number (et_canonical_head t)) \<le>
       unat (number (ncc_tip u)) + length (snd (ncc_chains u))"
  using assms by (cases u) (auto simp: chain_to_head_def ncc_tip_def)

lemma back_path_split:
  assumes "et_linked t" "back_path (known t) h xs f" "x \<in> set xs"
  shows "known t (hash x) = Some x \<and> ancestor (known t) h (hash x) \<and>
    ancestor (known t) (parent_hash x) f"
proof -
  from assms(3) obtain us vs where xs: "xs = us @ x # vs" by (meson split_list)
  with assms(2) obtain m where m: "back_path (known t) h us m" "known t m = Some x"
    "back_path (known t) (parent_hash x) vs f" by (auto simp: back_path_append)
  have "hash x = m" using assms(1) m(2) by (rule tree.keyed)
  with m show ?thesis by (auto intro: back_path_ancestor)
qed

lemma back_path_ancestor_cases:
  assumes "et_linked t" "back_path (known t) h xs f" "ancestor (known t) h a" "known t a = Some b"
  shows "b \<in> set xs \<or> ancestor (known t) f a"
  using assms(2,3)
proof (induction xs arbitrary: h)
  case (Cons x xs)
  then have x: "known t h = Some x" "back_path (known t) (parent_hash x) xs f" by auto
  show ?case
  proof (cases "a = h")
    case True
    with x assms(4) show ?thesis by simp
  next
    case False
    with Cons.prems(2) ancestor_Some [where get = "known t", OF x(1)]
    have "ancestor (known t) (parent_hash x) a" by simp
    with Cons.IH [OF x(2)] show ?thesis by auto
  qed
qed simp

lemma back_path_numbers:
  assumes "et_linked t" "back_path (known t) h xs f" "i < length xs"
    and "at_number t h n"
  shows "unat (number (xs ! i)) + i = unat n"
  using assms(2-)
proof (induction xs arbitrary: h n i)
  case (Cons x xs)
  then have x: "known t h = Some x" "number x = n" "back_path (known t) (parent_hash x) xs f"
    by (auto simp: at_number_def)
  show ?case
  proof (cases i)
    case 0
    then show ?thesis using x by simp
  next
    case (Suc j)
    have "xs \<noteq> []" using Suc Cons.prems(2) by auto
    then obtain y ys where "xs = y # ys" by (cases xs) auto
    then have "known t (parent_hash x) = Some y" using x(3) by simp
    from tree.unat_child_number [OF assms(1) x(1) this]
    have n: "unat n = Suc (unat (n - 1))" using x(2) unat_minus_one [of n] by fastforce
    have "at_number t (parent_hash x) (n - 1)" using at_number_parent [OF assms(1) x(1,2)] .
    from Cons.IH [OF x(3) _ this, of j] Suc Cons.prems(2) n show ?thesis by simp
  qed
qed simp

text \<open>A stored block is no ancestor of its own parent.\<close>

lemma not_own_ancestor:
  assumes "et_linked t" "known t a = Some b" "ancestor (known t) (parent_hash b) a"
  shows False
proof (cases "known t (parent_hash b)")
  case None
  with assms show False by (simp add: ancestor_None)
next
  case (Some p)
  have "number b \<le> number p" using tree.ancestor_number_le [OF assms(1,3) Some assms(2)] .
  with tree.child_number_less [OF assms(1,2) Some] show False by simp
qed

lemma map_of_rev_SomeD:
  "map_of (rev (map (\<lambda>x. (number x, hash x)) xs)) n = Some v \<Longrightarrow> \<exists>x\<in>set xs. number x = n \<and> hash x = v"
  for xs :: "'a sealed_header_scheme list"
  by (auto dest!: map_of_SomeD)

lemma map_of_rev_None:
  "map_of (rev (map (\<lambda>x. (number x, hash x)) xs)) n = None \<longleftrightarrow> (\<forall>x\<in>set xs. number x \<noteq> n)"
  for xs :: "'a sealed_header_scheme list"
  by (auto simp: map_of_eq_None_iff image_image)

text \<open>The three parts of the invariant after an update to \<open>h\<close>.\<close>

lemma update_ancestors_canonical:
  assumes t: "et_linked t" and ok: "canonical_ok t" and u: "chain_to_head t h u"
    and a: "ancestor (known t) h a" "known t a = Some b"
  shows "canonical (et_provider (et_on_canonical_chain_update u t)) (number b) = Some a"
proof -
  let ?new = "fst (ncc_chains u)" and ?old = "snd (ncc_chains u)"
  let ?head = "bnh_hash (et_canonical_head t)"
  obtain fork where new: "back_path (known t) h (rev ?new) fork" and old: "back_path (known t) ?head (rev ?old) fork"
    by (rule chain_to_head_fork [OF u]) blast
  have ha: "hash b = a" using t a(2) by (rule tree.keyed)
  show ?thesis
  proof (cases "map_of (rev (map (\<lambda>x. (number x, hash x)) ?new)) (number b)")
    case (Some v)
    from map_of_rev_SomeD [OF this] obtain x where x: "x \<in> set ?new" "number x = number b" "hash x = v" by blast
    with back_path_split [OF t new] have "known t v = Some x" "ancestor (known t) h v" by auto
    with x a have "v = a" using tree.ancestor_number_unique [OF t] by metis
    with Some show ?thesis by (simp add: rp_on_chain_update_canonical)
  next
    case None
    then have "b \<notin> set (rev ?new)" by (auto simp: map_of_rev_None)
    with back_path_ancestor_cases [OF t new a] have fa: "ancestor (known t) fork a" by blast
    have "ancestor (known t) ?head a"
      using back_path_ancestor [OF old] fa by (rule ancestor_trans)
    then have c: "canonical (et_provider t) (number b) = Some a" using canonical_okD(1) [OF ok _ a(2)] by blast
    have "\<not> (\<exists>x\<in>set ?old. number x = number b \<and> canonical (et_provider t) (number b) = Some (hash x))"
    proof
      assume "\<exists>x\<in>set ?old. number x = number b \<and> canonical (et_provider t) (number b) = Some (hash x)"
      then obtain x where x: "x \<in> set ?old" "hash x = a" using c by auto
      with back_path_split [OF t old] a(2) have "ancestor (known t) (parent_hash b) fork" by auto
      then have "ancestor (known t) (parent_hash b) a" using fa by (rule ancestor_trans)
      with not_own_ancestor [OF t a(2)] show False by blast
    qed
    with None c show ?thesis by (simp add: rp_on_chain_update_canonical)
  qed
qed

text \<open>A canonical number above the new tip belongs to a block that the update gives up: the old chain
  reaches from the head down to the fork.\<close>

lemma given_up_above:
  assumes t: "et_linked t" and ok: "canonical_ok t" and u: "chain_to_head t h u"
    and tip: "known t h = Some (ncc_tip u)" and n: "number (ncc_tip u) < n"
    and c: "canonical (et_provider t) n \<noteq> None"
  shows "\<exists>x\<in>set (snd (ncc_chains u)). number x = n \<and> canonical (et_provider t) n = Some (hash x)"
proof -
  let ?old = "snd (ncc_chains u)"
  let ?head = "bnh_hash (et_canonical_head t)" and ?N = "bnh_number (et_canonical_head t)"
  obtain fork where new: "back_path (known t) h (rev (fst (ncc_chains u))) fork"
    and old: "back_path (known t) ?head (rev ?old) fork" and commit: "?old = [] \<Longrightarrow> fork = ?head"
    and len: "?old \<noteq> [] \<Longrightarrow> unat ?N \<le> unat (number (ncc_tip u)) + length ?old"
    by (rule chain_to_head_fork [OF u]) blast
  have nN: "n \<le> ?N" using canonical_okD(2) [OF ok, of n] c by (cases "?N < n") (auto simp: not_less)
  have "?old \<noteq> []"
  proof
    assume "?old = []"
    with commit new have anc: "ancestor (known t) h ?head" by (auto intro: back_path_ancestor)
    show False
    proof (cases "known t ?head")
      case None
      with canonical_okD(5) [OF ok] nN n show False by simp
    next
      case (Some c)
      with canonical_okD(4) [OF ok] have "number c = ?N" by (simp add: at_number_def)
      with tree.ancestor_number_le [OF t anc tip Some] nN n show False by simp
    qed
  qed
  let ?i = "unat ?N - unat n"
  let ?x = "rev ?old ! ?i"
  have i: "?i < length (rev ?old)" using len [OF \<open>?old \<noteq> []\<close>] n nN by (simp add: word_less_nat_alt word_le_nat_alt)
  have "unat (number ?x) + ?i = unat ?N"
    using back_path_numbers [OF t old i canonical_okD(4) [OF ok]] .
  then have xn: "number ?x = n" using nN by (simp add: word_le_nat_alt word_unat_eq_iff)
  have x: "?x \<in> set (rev ?old)" using i by (rule nth_mem)
  have "canonical (et_provider t) (number ?x) = Some (hash ?x)"
    using back_path_split [OF t old x] canonical_okD(1) [OF ok] by blast
  then have "canonical (et_provider t) n = Some (hash ?x)" unfolding xn .
  moreover have "?x \<in> set ?old" using x by simp
  ultimately show ?thesis using xn by blast
qed

lemma update_above_not_canonical:
  assumes t: "et_linked t" and ok: "canonical_ok t" and u: "chain_to_head t h u"
    and tip: "known t h = Some (ncc_tip u)" and n: "number (ncc_tip u) < n"
  shows "canonical (et_provider (et_on_canonical_chain_update u t)) n = None"
proof -
  obtain fork where new: "back_path (known t) h (rev (fst (ncc_chains u))) fork"
    by (rule chain_to_head_fork [OF u]) blast
  have "number x \<le> number (ncc_tip u)" if "x \<in> set (fst (ncc_chains u))" for x
    using back_path_split [OF t new, of x] that tree.ancestor_number_le [OF t _ tip, of "hash x" x] by auto
  with n have "map_of (rev (map (\<lambda>x. (number x, hash x)) (fst (ncc_chains u)))) n = None"
    by (auto simp: map_of_rev_None dest: leD)
  with given_up_above [OF assms] show ?thesis
    by (cases "canonical (et_provider t) n") (auto simp: rp_on_chain_update_canonical)
qed

lemma update_filed_by_number:
  assumes t: "et_linked t" and ok: "canonical_ok t" and u: "chain_to_head t h u"
    and c: "canonical (et_provider (et_on_canonical_chain_update u t)) n = Some v" "known t v = Some b"
  shows "number b = n"
proof -
  let ?new = "fst (ncc_chains u)"
  obtain fork where new: "back_path (known t) h (rev ?new) fork" by (rule chain_to_head_fork [OF u]) blast
  show ?thesis
  proof (cases "map_of (rev (map (\<lambda>x. (number x, hash x)) ?new)) n")
    case None
    with c(1) have "canonical (et_provider t) n = Some v"
      by (auto simp: rp_on_chain_update_canonical split: if_splits)
    with c(2) show ?thesis by (intro canonical_okD(3) [OF ok])
  next
    case (Some w)
    with c(1) have "w = v" by (simp add: rp_on_chain_update_canonical)
    with map_of_rev_SomeD [OF Some] obtain x where "x \<in> set ?new" "number x = n" "hash x = v" by blast
    with back_path_split [OF t new, of x] c(2) show ?thesis by auto
  qed
qed

lemma canonical_ok_update:
  assumes t: "et_linked t" and ok: "canonical_ok t" and u: "chain_to_head t h u"
    and tip: "known t h = Some (ncc_tip u)"
  shows "canonical_ok (et_on_canonical_chain_update u t)"
proof -
  have h: "hash (ncc_tip u) = h" using t tip by (rule tree.keyed)
  have "known (et_on_canonical_chain_update u t) = known t" by simp
  then show ?thesis
    unfolding canonical_ok_def
    using update_ancestors_canonical [OF t ok u] update_above_not_canonical [OF t ok u tip]
      update_filed_by_number [OF t ok u] h tip
    by (simp add: at_number_def)
qed

section \<open>Properties\<close>

text \<open>Dependencies and a tree for the witnesses. Every check succeeds, executing a block changes
  nothing, the invalid-header cache is an association list and the tracker the last state. The
  tree has block 7 with its two children 8 and 9, and the canonical head 8.\<close>

definition sample_evm :: "unit evm_ops" where
  "sample_evm = \<lparr>state_build = \<lambda>_. (), executor_for_block = \<lambda>_ _ x. x,
     apply_pre_execution_changes = Inr, execute_transaction = \<lambda>_ x. Inr x,
     apply_post_execution_changes = \<lambda>x. Inr ([], x), merge_transitions = id, take_bundle = \<lambda>_. []\<rparr>"

type_synonym sample_cache = "(b256 \<times> block_with_parent) list"

definition sample_deps ::
  "((b256 \<times> bytecode) list, (b256 \<times> bytecode) list, leaf_map \<times> (b256, leaf_map) fmap, leaf_map,
    u32 \<times> b256 list, sample_cache, forkchoice_state option, unit) tree_deps" where
  "sample_deps = \<lparr>it = sorted_list_of_fset, pnh = plain_parent_num_hash, codec_of = plain_codec,
     db = map_db, tries = map_trie, arrive = id, evm = sample_evm, lru_of = list_lru,
     from_bundle_state = \<lambda>_. \<lparr>accounts = fmempty, storages = fmempty\<rparr>,
     ihc_new = \<lambda>_. [], ihc_get = \<lambda>h c. (map_of c h, c),
     ihc_insert = \<lambda>b c. (bnh_hash (bwp_block b), b) # c,
     ihc_insert_with_invalid_ancestor = \<lambda>h b c. (h, b) # c,
     fct_default = None, sync_target_state = id,
     validate_header_with_total_difficulty = \<lambda>_ _. Inr (), validate_header = \<lambda>_. Inr (),
     validate_block_pre_execution = \<lambda>_. Inr (),
     validate_header_against_parent = \<lambda>h p. if next_number (number p) (number h) then Inr ()
       else Inl (Rule_violation ''number''),
     validate_block_post_execution = \<lambda>_ _. Inr (),
     payload_parent_hash = \<lambda>_. 0, ensure_well_formed_payload = \<lambda>_. Inl ''malformed'',
     is_block_hash_mismatch = \<lambda>_. False, is_invalid_versioned_hashes = \<lambda>_. False,
     status_of_payload_error = Invalid,
     validate_payload_attributes_against_header = \<lambda>_ _. Inr (),
     payload_builder_attributes_try_new = \<lambda>_ _ _. Inr (),
     ensure_validation_error = \<lambda>e. (case e of Consensus _ \<Rightarrow> Inr ''consensus'' | _ \<Rightarrow> Inl ''fatal''),
     validation_error_to_string = id\<rparr>"

lemma sample_deps_sel [simp]:
  "it sample_deps = sorted_list_of_fset" "pnh sample_deps = plain_parent_num_hash"
  "lru_of sample_deps = list_lru" "ihc_get sample_deps = (\<lambda>h c. (map_of c h, c))"
  by (simp_all add: sample_deps_def)

type_synonym sample_tree_type =
  "((b256 \<times> bytecode) list, u32 \<times> b256 list, sample_cache, forkchoice_state option) engine_tree"

definition sample_provider :: "(b256 \<times> bytecode) list ress_provider" where
  "sample_provider =
     rp_insert_canonical_hash 3 8 (rp_insert_canonical_hash 2 7
       (rp_insert_block (sample_block 9 7 3) None (rp_insert_block (sample_block 8 7 3) None
         (rp_insert_block (sample_block 7 5 2) None
           (rp_new \<lparr>genesis_header = header.truncate (sample_block 5 0 0), genesis_hash = 5, genesis_codes = []\<rparr> [])))))"

definition sample_tree :: sample_tree_type where
  "sample_tree = (et_new sample_deps sample_provider)
     \<lparr>et_canonical_head := \<lparr>bnh_number = 3, bnh_hash = 8\<rparr>\<rparr>"

lemma sample_tree_head [simp]: "et_canonical_head sample_tree = \<lparr>bnh_number = 3, bnh_hash = 8\<rparr>"
  by (simp add: sample_tree_def)

lemma sample_tree_provider [simp]: "et_provider sample_tree = sample_provider"
  by (simp add: sample_tree_def et_new_def Let_def)

lemma sample_known: "rp_sealed_header sample_provider h =
  (if h = 9 then Some (sealed_header.truncate (sample_block 9 7 3))
   else if h = 8 then Some (sealed_header.truncate (sample_block 8 7 3))
   else if h = 7 then Some (sealed_header.truncate (sample_block 7 5 2)) else None)"
  by (simp add: rp_sealed_header_iff sample_provider_def rp_insert_block_def
      rp_insert_canonical_hash_def rp_new_def view_simps) (simp add: cs_default_def)

lemma sample_canonical: "canonical sample_provider n = (if n = 3 then Some 8 else if n = 2 then Some 7 else None)"
  by (simp add: sample_provider_def rp_insert_block_def rp_insert_canonical_hash_def rp_new_def view_simps)
     (simp add: cs_default_def)

lemma next_number_sample: "next_number 2 (3 :: u64)" "next_number 3 (4 :: u64)"
  by (simp_all add: next_number_def)

lemma sample_tree_linked: "et_linked sample_tree"
proof -
  let ?cs = "rp_chain_state sample_provider"
  have bs: "blocks_by_hash ?cs =
      fmupd 9 (sample_block 9 7 3) (fmupd 8 (sample_block 8 7 3) (fmupd 7 (sample_block 7 5 2) fmempty))"
    by (simp add: sample_provider_def rp_insert_block_def rp_insert_canonical_hash_def rp_new_def view_simps)
       (simp add: cs_default_def)
  have "cs_wf ?cs"
    unfolding sample_provider_def
    by (simp add: rp_insert_block_def rp_insert_canonical_hash_def rp_new_def)
       (intro wf_intros cs_wf_default; simp add: no_hash_clash_def view_simps; simp add: cs_default_def)
  moreover have "numbers_linked (blocks_by_hash ?cs)"
    unfolding bs by (rule numbers_linkedI) (auto simp: next_number_sample split: if_splits)
  ultimately show ?thesis by (simp add: et_linked_def cs_linked_def)
qed

lemma sample_ancestors: "ancestor (rp_sealed_header sample_provider) 8 h \<longleftrightarrow> h = 8 \<or> h = 7 \<or> h = 5"
  using ancestor_Some [of "rp_sealed_header sample_provider" 8]
    ancestor_Some [of "rp_sealed_header sample_provider" 7]
    ancestor_None [of "rp_sealed_header sample_provider" 5]
  by (simp add: sample_known)

lemma sample_tree_canonical_ok: "canonical_ok sample_tree"
  unfolding canonical_ok_def sample_tree_head
  by (auto simp: sample_ancestors sample_known sample_canonical at_number_def
      split: if_splits)

text \<open>(C14) \<open>on_new_head\<close> returns whenever the stored blocks are linked, and what it returns is right:
  a \<open>Commit\<close> is a non-empty chain of stored blocks on top of the canonical head that ends in the
  new head; a \<open>Reorg\<close> is two chains of stored blocks on top of one common block, the new one
  ending in the new head and the old one in the canonical head. It returns nothing only when the
  two heads have no common ancestor at the same height.\<close>

theorem et_on_new_head_correct:
  assumes "et_linked t" "parent_num_hash_spec (pnh D)" "canonical_ok t"
  shows "\<exists>r. et_on_new_head D t new_head = Some r \<and>
    (case r of
       None \<Rightarrow> \<not> connects t new_head
     | Some (Commit new) \<Rightarrow>
         new \<noteq> [] \<and> linked (bnh_hash (et_canonical_head t)) new \<and> hash (last new) = new_head \<and>
         (\<forall>x\<in>set new. known t (hash x) = Some x)
     | Some (Reorg new old) \<Rightarrow>
         \<exists>fork. new \<noteq> [] \<and> linked fork new \<and> hash (last new) = new_head \<and>
           old \<noteq> [] \<and> linked fork old \<and> hash (last old) = bnh_hash (et_canonical_head t) \<and>
           (\<forall>x\<in>set new \<union> set old. known t (hash x) = Some x))"
proof -
  obtain r where r: "et_on_new_head D t new_head = Some r"
    and ok: "case r of None \<Rightarrow> \<not> connects t new_head
       | Some u \<Rightarrow> chain_to_head t new_head u \<and> known t new_head = Some (last (ncc_new u))"
    using et_on_new_head_result [OF assms(1,2) canonical_okD(4) [OF assms(3)], of new_head] by blast
  have path: "linked f xs \<and> (xs \<noteq> [] \<longrightarrow> hash (last xs) = h) \<and> (\<forall>x\<in>set xs. known t (hash x) = Some x)"
    if "back_path (known t) h (rev xs) f" for h xs f
    using back_path_linked [OF assms(1) that] back_path_split [OF assms(1) that]
    by (auto simp: chain_tip_def split: if_splits)
  show ?thesis
  proof (cases r)
    case None
    with r ok show ?thesis by simp
  next
    case (Some u)
    show ?thesis
    proof (cases u)
      case (Commit new)
      with Some ok have "new \<noteq> []" "back_path (known t) new_head (rev new) (bnh_hash (et_canonical_head t))"
        by (auto simp: chain_to_head_def)
      with path [OF this(2)] r Some Commit show ?thesis by simp
    next
      case (Reorg new old)
      with Some ok obtain fork where "new \<noteq> []" "old \<noteq> []"
        "back_path (known t) new_head (rev new) fork"
        "back_path (known t) (bnh_hash (et_canonical_head t)) (rev old) fork"
        by (auto simp: chain_to_head_def)
      with path [OF this(3)] path [OF this(4)] r Some Reorg show ?thesis by auto
    qed
  qed
qed

lemma sample_connects: "connects sample_tree 9"
  unfolding connects_def sample_tree_head
  by (intro exI [of _ "sealed_header.truncate (sample_block 9 7 3)"]
      exI [of _ "[sealed_header.truncate (sample_block 9 7 3)]"]
      exI [of _ "[sealed_header.truncate (sample_block 8 7 3)]"] exI [of _ 7]) (simp add: sample_known)

theorem et_on_new_head_correct_witness:
  "\<exists>u. et_on_new_head sample_deps sample_tree 9 = Some (Some u)"
  using et_on_new_head_correct [OF sample_tree_linked, of sample_deps 9] sample_tree_canonical_ok
    sample_connects
  by (auto simp: plain_parent_num_hash_spec split: option.splits)

text \<open>(C27) \<open>is_fork\<close> returns, and it returns false exactly for a block that has the stored canonical
  head among its executed ancestors (or is the head itself).\<close>

theorem et_is_fork_correct:
  assumes "et_linked t" "canonical_ok t"
  shows "\<exists>r. et_is_fork t h = Some r \<and>
    (r \<longleftrightarrow> \<not> (ancestor (known t) h (bnh_hash (et_canonical_head t)) \<and>
              known t (bnh_hash (et_canonical_head t)) \<noteq> None))"
  using et_walk_is_fork_result [OF assms(1), of "et_canonical_head t" h] canonical_okD(4) [OF assms(2)]
  by (simp add: et_is_fork_def at_number_def)

theorem et_is_fork_correct_witness: "et_is_fork sample_tree 8 = Some False"
  using et_is_fork_correct [OF sample_tree_linked sample_tree_canonical_ok, of 8]
  by (auto simp: sample_ancestors sample_known)

end
