(* ===== verification/Tree_Invariant.thy ===== *)
theory Tree_Invariant
  imports Tree_Canonical
begin

text \<open>
  The invariant of the engine tree, and what each of its building blocks does to it.

  Block hashes commit to headers. The proofs need two consequences, stated for the blocks the
  tree is given: \<open>hdr\<close> is the header with a given hash, and \<open>rank\<close> decreases from a hash to the
  parent hash in its header. No block has the zero hash, which the sources use for "none". A block
  with all three is \<open>authentic\<close>. Nothing is assumed of hashes no block was given for.
\<close>

section \<open>Authentic blocks\<close>

type_synonym header_of = "b256 \<Rightarrow> header"
type_synonym hash_rank = "b256 \<Rightarrow> nat"

definition authentic :: "header_of \<Rightarrow> hash_rank \<Rightarrow> 'a sealed_header_scheme \<Rightarrow> bool" where
  "authentic hdr rank b \<longleftrightarrow>
     header.truncate b = hdr (hash b) \<and> hash b \<noteq> 0 \<and> rank (parent_hash b) < rank (hash b)"

lemma authenticD:
  assumes "authentic hdr rank b"
  shows "number (hdr (hash b)) = number b" "parent_hash (hdr (hash b)) = parent_hash b"
    and "rank (parent_hash b) < rank (hash b)" "hash b \<noteq> 0"
  using assms unfolding authentic_def by (metis truncate_sel)+

lemma authentic_no_clash:
  assumes "authentic hdr rank b" "keyed_by_hash bs"
    and "\<And>h x. fmlookup bs h = Some x \<Longrightarrow> authentic hdr rank x"
  shows "no_hash_clash bs b"
proof (cases "fmlookup bs (hash b)")
  case (Some x)
  then have "hash x = hash b" using assms(2) by (intro keyed_by_hashD)
  with assms(3) [OF Some] assms(1) Some show ?thesis
    by (simp add: no_hash_clash_def) (metis authenticD(1,2))
qed (simp add: no_hash_clash_def)

section \<open>The parts of the invariant\<close>

text \<open>A stored block is authentic, and was validated against its parent or is the genesis.\<close>

definition validated :: "header_of \<Rightarrow> 'a sealed_header_scheme \<Rightarrow> bool" where
  "validated hdr x \<longleftrightarrow>
     (parent_hash x \<noteq> 0 \<and> next_number (number (hdr (parent_hash x))) (number x)) \<or>
     (parent_hash x = 0 \<and> number x = 0)"

definition stored_ok :: "header_of \<Rightarrow> hash_rank \<Rightarrow> 'd ress_provider \<Rightarrow> bool" where
  "stored_ok hdr rank p \<longleftrightarrow>
     cs_wf (rp_chain_state p) \<and>
     (\<forall>h x. fmlookup (executed_blocks p) h = Some x \<longrightarrow>
        authentic hdr rank x \<and> validated hdr x)"

text \<open>The buffer is well-formed and holds authentic blocks, which need not have been validated.\<close>

definition buffer_ok :: "header_of \<Rightarrow> hash_rank \<Rightarrow> 'l lru_ops \<Rightarrow> ('l \<Rightarrow> b256 list) \<Rightarrow> 'l block_buffer \<Rightarrow> bool" where
  "buffer_ok hdr rank ops keys s \<longleftrightarrow>
     bb_wf ops keys s \<and> (\<forall>h x. fmlookup (blocks s) h = Some x \<longrightarrow> authentic hdr rank x)"

text \<open>The cache of invalid headers, seen as a map, leads to lower ranks.\<close>

definition cache_ok :: "hash_rank \<Rightarrow> (b256 \<rightharpoonup> block_with_parent) \<Rightarrow> bool" where
  "cache_ok rank m \<longleftrightarrow> (\<forall>h b. m h = Some b \<longrightarrow> rank (bwp_parent b) < rank h)"

text \<open>The canonical head is a block hash with its number. The chain state and the head together:\<close>

definition head_ok :: "header_of \<Rightarrow> ('d, 'l, 'c, 'f) engine_tree \<Rightarrow> bool" where
  "head_ok hdr t \<longleftrightarrow>
     bnh_number (et_canonical_head t) = number (hdr (bnh_hash (et_canonical_head t))) \<and>
     bnh_hash (et_canonical_head t) \<noteq> 0"

definition tree_ok :: "header_of \<Rightarrow> hash_rank \<Rightarrow> ('d, 'l, 'c, 'f) engine_tree \<Rightarrow> bool" where
  "tree_ok hdr rank t \<longleftrightarrow> stored_ok hdr rank (et_provider t) \<and> head_ok hdr t"

text \<open>The invariant of the tree, with a condition \<open>J\<close> on the index of canonical hashes.\<close>

definition et_inv ::
  "header_of \<Rightarrow> hash_rank \<Rightarrow> ('d, 'u, 't, 's, 'l, 'c, 'f, 'x) tree_deps \<Rightarrow> ('l \<Rightarrow> b256 list)
     \<Rightarrow> ('c \<Rightarrow> b256 \<rightharpoonup> block_with_parent) \<Rightarrow> (('d, 'l, 'c, 'f) engine_tree \<Rightarrow> bool)
     \<Rightarrow> ('d, 'l, 'c, 'f) engine_tree \<Rightarrow> bool" where
  "et_inv hdr rank D keys view J t \<longleftrightarrow>
     tree_ok hdr rank t \<and> buffer_ok hdr rank (lru_of D) keys (et_buffer t) \<and>
     cache_ok rank (view (et_invalid t)) \<and> J t"

text \<open>A block was executed: the consensus rules hold for it alone and against its parent, and executing
  it on the parent's state, revealed from some witness, gave the state root of its header.\<close>

definition executed :: "header_of \<Rightarrow> ('d, 'u, 't, 's, 'l, 'c, 'f, 'x) tree_deps \<Rightarrow> recovered_block \<Rightarrow> bool" where
  "executed hdr D b \<longleftrightarrow>
     et_validate_block D (sealed_block.truncate b) = Inr () \<and>
     (\<exists>p parent witness out. header.truncate parent = hdr (parent_hash b) \<and> hash parent = parent_hash b \<and>
        validate_header_against_parent D (sealed_header.truncate b) parent = Inr () \<and>
        et_execute_block D p parent b witness = Inr out)"

text \<open>What the handlers need of such a condition: it speaks of the chain state and the head only, and
  holds on when a block is stored, the head moves, or a canonical block is finalized.\<close>

locale chain_view =
  fixes hdr :: header_of and rank :: hash_rank and D :: "('d, 'u, 't, 's, 'l, 'c, 'f, 'x) tree_deps"
    and J :: "('d, 'l, 'c, 'f) engine_tree \<Rightarrow> bool"
  assumes J_cong: "rp_chain_state (et_provider t') = rp_chain_state (et_provider t) \<Longrightarrow> et_canonical_head t' = et_canonical_head t \<Longrightarrow> J t' = J t"
    and J_store: "tree_ok hdr rank t \<Longrightarrow> J t \<Longrightarrow> authentic hdr rank b \<Longrightarrow> known t (hash b) = None
      \<Longrightarrow> known t (parent_hash b) = Some parent \<Longrightarrow> next_number (number parent) (number b) \<Longrightarrow> executed hdr D b
      \<Longrightarrow> J (t\<lparr>et_provider := rp_insert_block b w (et_provider t)\<rparr>)"
    and J_update: "tree_ok hdr rank t \<Longrightarrow> J t \<Longrightarrow> chain_to_head t h u \<Longrightarrow> known t h = Some (ncc_tip u)
      \<Longrightarrow> J (et_on_canonical_chain_update u t)"
    and J_finalized: "iteration_order ord \<Longrightarrow> tree_ok hdr rank t \<Longrightarrow> J t
      \<Longrightarrow> (f \<noteq> 0 \<Longrightarrow> rp_is_hash_canonical (et_provider t) f)
      \<Longrightarrow> J (t\<lparr>et_provider := rp_on_finalized ord f (et_provider t)\<rparr>)"

text \<open>What the documentation of the dependencies promises: an order of iteration visits each
  element once; the LRU map and \<open>parent_num_hash\<close> do what they say; a header validated against its
  parent has the next number; the cache of invalid headers may forget entries, on reading too, but
  makes none up.\<close>

definition tree_deps_spec ::
  "('d, 'u, 't, 's, 'l, 'c, 'f, 'x) tree_deps \<Rightarrow> ('l \<Rightarrow> b256 list)
     \<Rightarrow> ('c \<Rightarrow> b256 \<rightharpoonup> block_with_parent) \<Rightarrow> bool" where
  "tree_deps_spec D keys view \<longleftrightarrow>
     iteration_order (it D) \<and> lru_spec (lru_of D) keys \<and> parent_num_hash_spec (pnh D) \<and>
     (\<forall>h p. validate_header_against_parent D h p = Inr () \<longrightarrow> next_number (number p) (number h)) \<and>
     (\<forall>h c. fst (ihc_get D h c) \<in> {None, view c h} \<and> view (snd (ihc_get D h c)) \<subseteq>\<^sub>m view c) \<and>
     (\<forall>b c. view (ihc_insert D b c) \<subseteq>\<^sub>m (view c)(bnh_hash (bwp_block b) \<mapsto> b)) \<and>
     (\<forall>h b c. view (ihc_insert_with_invalid_ancestor D h b c) \<subseteq>\<^sub>m (view c)(h \<mapsto> b)) \<and>
     (\<forall>n. view (ihc_new D n) = Map.empty)"

lemma et_invD:
  assumes "et_inv hdr rank D keys view J t"
  shows "stored_ok hdr rank (et_provider t)" "buffer_ok hdr rank (lru_of D) keys (et_buffer t)"
    and "cache_ok rank (view (et_invalid t))" "head_ok hdr t" "tree_ok hdr rank t" "J t"
  using assms by (auto simp: et_inv_def tree_ok_def)

lemma tree_okD:
  assumes "tree_ok hdr rank t"
  shows "stored_ok hdr rank (et_provider t)" "head_ok hdr t"
  using assms by (auto simp: tree_ok_def)

lemma head_okD:
  assumes "head_ok hdr t"
  shows "bnh_number (et_canonical_head t) = number (hdr (bnh_hash (et_canonical_head t)))"
    and "bnh_hash (et_canonical_head t) \<noteq> 0"
  using assms by (auto simp: head_ok_def)

lemma tree_deps_specD:
  assumes "tree_deps_spec D keys view"
  shows "iteration_order (it D)" "lru_spec (lru_of D) keys" "parent_num_hash_spec (pnh D)"
    and "validate_header_against_parent D h p = Inr () \<Longrightarrow> next_number (number p) (number h)"
    and "fst (ihc_get D k c) = None \<or> fst (ihc_get D k c) = view c k"
    and "view (snd (ihc_get D k c)) \<subseteq>\<^sub>m view c"
    and "view (ihc_insert D b c) \<subseteq>\<^sub>m (view c)(bnh_hash (bwp_block b) \<mapsto> b)"
    and "view (ihc_insert_with_invalid_ancestor D k b c) \<subseteq>\<^sub>m (view c)(k \<mapsto> b)"
    and "view (ihc_new D n) = Map.empty"
  using assms unfolding tree_deps_spec_def by - (elim conjE, simp)+

lemma stored_okD:
  assumes "stored_ok hdr rank p"
  shows "cs_wf (rp_chain_state p)"
    and "fmlookup (executed_blocks p) h = Some x \<Longrightarrow> authentic hdr rank x"
    and "fmlookup (executed_blocks p) h = Some x \<Longrightarrow> validated hdr x"
  using assms by (auto simp: stored_ok_def)

text \<open>Hence the stored blocks are linked.\<close>

lemma stored_ok_linked:
  assumes "stored_ok hdr rank (et_provider t)"
  shows "et_linked t"
proof -
  let ?bs = "executed_blocks (et_provider t)"
  note wf = stored_okD(1) [OF assms]
  have "numbers_linked ?bs"
  proof (rule numbers_linkedI)
    fix h b p assume b: "fmlookup ?bs h = Some b" and p: "fmlookup ?bs (parent_hash b) = Some p"
    have "hash p = parent_hash b" using keyed_by_hashD [OF cs_wfD(1) [OF wf] p] .
    then have "number (hdr (parent_hash b)) = number p" "parent_hash b \<noteq> 0"
      using authenticD(1,4) [OF stored_okD(2) [OF assms p]] by simp_all
    with stored_okD(3) [OF assms b] show "next_number (number p) (number b)" by (simp add: validated_def)
  qed
  with wf show ?thesis by (simp add: et_linked_def cs_linked_def)
qed

lemma known_authentic:
  assumes "stored_ok hdr rank (et_provider t)" "known t h = Some b"
  shows "authentic hdr rank b" "hash b = h" "number (hdr h) = number b"
proof -
  from assms(2) obtain x where x: "fmlookup (executed_blocks (et_provider t)) h = Some x"
    "b = sealed_header.truncate x" by (rule known_cases)
  have "header.truncate (sealed_header.truncate x) = header.truncate x"
    by (simp add: header.defs sealed_header.defs)
  with stored_okD(2) [OF assms(1) x(1)] show a: "authentic hdr rank b"
    by (simp add: x(2) authentic_def)
  show "hash b = h" using stored_ok_linked [OF assms(1)] assms(2) by (rule tree.keyed)
  with authenticD(1) [OF a] show "number (hdr h) = number b" by simp
qed

section \<open>Storing a block\<close>

lemma known_insert:
  "rp_sealed_header (rp_insert_block b w p) =
     (rp_sealed_header p)(hash b \<mapsto> sealed_header.truncate b)"
  by (rule ext) (simp add: rp_sealed_header_iff rp_insert_block_def view_simps)

lemma canonical_insert [simp]: "canonical (rp_insert_block b w p) = canonical p"
  by (simp add: rp_insert_block_def view_simps)

lemma stored_ok_insert:
  assumes p: "stored_ok hdr rank p" and b: "authentic hdr rank b"
    and "validated hdr b"
  shows "stored_ok hdr rank (rp_insert_block b w p)"
proof -
  have "no_hash_clash (executed_blocks p) b"
    using b cs_wfD(1) [OF stored_okD(1) [OF p]] stored_okD(2) [OF p] by (rule authentic_no_clash)
  with stored_okD(1) [OF p] have "cs_wf (rp_chain_state (rp_insert_block b w p))"
    by (simp add: rp_insert_block_def cs_wf_insert_block)
  moreover have "executed_blocks (rp_insert_block b w p) = fmupd (hash b) b (executed_blocks p)"
    by (simp add: rp_insert_block_def view_simps)
  ultimately show ?thesis using assms by (auto simp: stored_ok_def)
qed

lemma validatedI:
  assumes "stored_ok hdr rank (et_provider t)" "known t (parent_hash b) = Some parent"
    and "next_number (number parent) (number b)"
  shows "validated hdr b"
proof -
  have "authentic hdr rank parent" "hash parent = parent_hash b" "number (hdr (parent_hash b)) = number parent"
    using known_authentic [OF assms(1,2)] by simp_all
  with authenticD(4) [OF this(1)] assms(3) show ?thesis by (simp add: validated_def)
qed

text \<open>The number of the head, where it is stored.\<close>

lemma tree_ok_at_number:
  assumes "tree_ok hdr rank t"
  shows "at_number t (bnh_hash (et_canonical_head t)) (bnh_number (et_canonical_head t))"
  unfolding at_number_def
  using known_authentic(3) [OF tree_okD(1) [OF assms]] head_okD(1) [OF tree_okD(2) [OF assms]] by metis

lemma tree_ok_store:
  assumes "tree_ok hdr rank t" "authentic hdr rank b" "known t (parent_hash b) = Some parent"
    and "next_number (number parent) (number b)"
  shows "tree_ok hdr rank (t\<lparr>et_provider := rp_insert_block b w (et_provider t)\<rparr>)"
  using assms validatedI [OF tree_okD(1) [OF assms(1)] assms(3,4)]
  by (simp add: tree_ok_def stored_ok_insert head_ok_def)

section \<open>Moving the canonical head\<close>

lemma tree_ok_update:
  assumes "tree_ok hdr rank t" "known t h = Some (ncc_tip u)"
  shows "tree_ok hdr rank (et_on_canonical_chain_update u t)"
proof -
  note a = known_authentic [OF tree_okD(1) [OF assms(1)] assms(2)]
  have "head_ok hdr (et_on_canonical_chain_update u t)"
    using a authenticD(4) [OF a(1)] by (simp add: head_ok_def)
  then show ?thesis
    using tree_okD(1) [OF assms(1)] rp_on_chain_update_wf [of "et_provider t"]
    by (simp add: tree_ok_def stored_ok_def)
qed

section \<open>Finalization\<close>

text \<open>The chain state after pruning: what is left, for a finalized block that is stored.\<close>

lemma known_finalized:
  assumes "iteration_order ord" "cs_wf (rp_chain_state p)" "f \<noteq> 0"
    and "fmlookup (executed_blocks p) f = Some b"
  shows "rp_sealed_header (rp_on_finalized ord f p) h =
    (case rp_sealed_header p h of None \<Rightarrow> None | Some x \<Rightarrow> if number x < number b then None else Some x)"
    and "canonical (rp_on_finalized ord f p) n =
      (if n < saturating_sub (number b) 256 then None else canonical p n)"
  using assms(3) cs_finalized_views [OF assms(1,2,4)]
  by (auto simp: rp_on_finalized_def rp_sealed_header_iff split: option.splits)

lemma rp_on_finalized_unknown:
  "f = 0 \<or> fmlookup (executed_blocks p) f = None \<Longrightarrow> rp_on_finalized ord f p = p"
  by (auto simp: rp_on_finalized_def cs_not_finalized)

lemma stored_ok_finalized:
  assumes "iteration_order ord" "stored_ok hdr rank p"
  shows "stored_ok hdr rank (rp_on_finalized ord f p)"
proof -
  have sub: "executed_blocks (rp_on_finalized ord f p) \<subseteq>\<^sub>f executed_blocks p"
    using cs_finalized_subset [OF assms(1) stored_okD(1) [OF assms(2)]]
    by (simp add: rp_on_finalized_def fmsubset_alt_def fmpred_iff)
  have "cs_wf (rp_chain_state (rp_on_finalized ord f p))"
    using assms stored_okD(1) by (auto simp: rp_on_finalized_def intro: wf_intros)
  with sub show ?thesis
    using assms(2) by (auto simp: stored_ok_def fmsubset_alt_def fmpred_iff)
qed

lemma tree_ok_finalized:
  "iteration_order ord \<Longrightarrow> tree_ok hdr rank t
   \<Longrightarrow> tree_ok hdr rank (t\<lparr>et_provider := rp_on_finalized ord f (et_provider t)\<rparr>)"
  by (simp add: tree_ok_def stored_ok_finalized head_ok_def)

section \<open>The buffer\<close>

lemma buffer_okD:
  assumes "buffer_ok hdr rank ops keys s"
  shows "bb_wf ops keys s" "fmlookup (blocks s) h = Some x \<Longrightarrow> authentic hdr rank x"
  using assms by (auto simp: buffer_ok_def)

lemma buffer_ok_subset:
  assumes "buffer_ok hdr rank ops keys s" "bb_wf ops keys s'"
    and "\<And>h x. fmlookup (blocks s') h = Some x \<Longrightarrow> fmlookup (blocks s) h = Some x"
  shows "buffer_ok hdr rank ops keys s'"
  using assms by (auto simp: buffer_ok_def)

lemma buffer_ok_ranked: "buffer_ok hdr rank ops keys s \<Longrightarrow> hash_ranked rank (blocks s)"
  unfolding hash_ranked_def
  by (rule fmpredI) (metis authenticD(3) bb_mapsD(1) bb_wfD(1) buffer_okD keyed_by_hashD)

lemma buffer_ok_insert:
  assumes "lru_spec ops keys" "buffer_ok hdr rank ops keys s" "authentic hdr rank b"
  shows "buffer_ok hdr rank ops keys (bb_insert_block ops b s)"
proof -
  note wf = buffer_okD(1) [OF assms(2)]
  have "no_hash_clash (blocks s) b"
    using assms(3) bb_mapsD(1) [OF bb_wfD(1) [OF wf]] buffer_okD(2) [OF assms(2)]
    by (rule authentic_no_clash)
  with wf assms(1) have "bb_wf ops keys (bb_insert_block ops b s)" by (intro wf_intros)
  with bb_insert_outcome [OF assms(1) wf, where b = b] buffer_okD(2) [OF assms(2)] assms(3)
  show ?thesis by (auto simp: buffer_ok_def split: if_splits)
qed

lemma bb_insert_witness_blocks [simp]: "blocks (bb_insert_witness h w m s) = blocks s"
  by (simp add: bb_insert_witness_def Let_def)

lemma buffer_ok_witness:
  "buffer_ok hdr rank ops keys s \<Longrightarrow> buffer_ok hdr rank ops keys (bb_insert_witness h w m s)"
  by (simp add: buffer_ok_def bb_wf_insert_witness)

lemma buffer_ok_remove:
  assumes "iteration_order ord" "lru_spec ops keys" "buffer_ok hdr rank ops keys s"
  shows "buffer_ok hdr rank ops keys (snd (bb_remove_block_with_children ord ops p s))"
    and "r \<in> set (fst (bb_remove_block_with_children ord ops p s)) \<Longrightarrow> authentic hdr rank (fst r)"
proof -
  note wf = buffer_okD(1) [OF assms(3)]
  note out = bb_remove_with_children_outcome [OF assms(1,2) wf, where p = p]
  show "buffer_ok hdr rank ops keys (snd (bb_remove_block_with_children ord ops p s))"
    using assms(3) bb_wf_remove_with_children [OF assms(1,2) wf]
    by (rule buffer_ok_subset) (auto simp: out(4) split: if_splits)
  assume "r \<in> set (fst (bb_remove_block_with_children ord ops p s))"
  from bb_ready_key [OF bb_wfD(1) [OF wf] out(3) [OF this]] buffer_okD(2) [OF assms(3)]
  show "authentic hdr rank (fst r)" by blast
qed

lemma buffer_ok_evict_old:
  assumes "iteration_order ord" "lru_spec ops keys" "buffer_ok hdr rank ops keys s"
  shows "buffer_ok hdr rank ops keys (bb_evict_old_blocks ord ops n s)"
proof -
  note wf = buffer_okD(1) [OF assms(3)]
  show ?thesis
    using assms(3) bb_wf_evict_old [OF assms(1,2) wf]
    by (rule buffer_ok_subset) (auto simp: bb_evict_old_outcome [OF assms(1,2) wf] split: if_splits)
qed

lemma lowest_ancestor_total:
  assumes "buffer_ok hdr rank ops keys s"
  shows "\<exists>r. bb_lowest_ancestor s h = Some r \<and>
    (\<forall>a. r = Some a \<longrightarrow> rank (parent_hash a) < rank h)"
proof (cases "fmlookup (blocks s) h")
  case None
  then show ?thesis by (simp add: bb_lowest_ancestor_def)
next
  case (Some b)
  have keyed: "keyed_by_hash (blocks s)" using assms by (intro bb_mapsD(1) bb_wfD(1) buffer_okD(1))
  from bb_walk_lowest_result [OF keyed buffer_ok_ranked [OF assms] Some] obtain a where
    a: "bb_walk_lowest (blocks s) b = Some a" "fmlookup (blocks s) (hash a) = Some a" "rank (hash a) \<le> rank h"
    by blast
  with hash_rankedD [OF buffer_ok_ranked [OF assms] a(2)] Some show ?thesis
    by (simp add: bb_lowest_ancestor_def)
qed

lemma lowest_buffered_total:
  assumes "et_inv hdr rank D keys view J t"
  shows "\<exists>k. et_lowest_buffered_ancestor_or t h = Some k \<and> (k = h \<or> rank k < rank h)"
proof -
  obtain r where "bb_lowest_ancestor (et_buffer t) h = Some r" "\<forall>a. r = Some a \<longrightarrow> rank (parent_hash a) < rank h"
    using lowest_ancestor_total [OF et_invD(2) [OF assms]] by blast
  then show ?thesis by (cases r) (auto simp: et_lowest_buffered_ancestor_or_def)
qed

section \<open>The cache of invalid headers\<close>

lemma cache_ok_subset: "cache_ok rank m \<Longrightarrow> m' \<subseteq>\<^sub>m m \<Longrightarrow> cache_ok rank m'"
  unfolding cache_ok_def map_le_def by (metis domI)

lemma cache_ok_upd: "cache_ok rank m \<Longrightarrow> rank (bwp_parent b) < rank h \<Longrightarrow> cache_ok rank (m(h \<mapsto> b))"
  by (simp add: cache_ok_def)

lemma cache_ok_get:
  assumes "tree_deps_spec D keys view" "cache_ok rank (view c)"
  shows "cache_ok rank (view (snd (ihc_get D h c)))"
    and "fst (ihc_get D h c) = Some b \<Longrightarrow> rank (bwp_parent b) < rank h"
proof -
  show "cache_ok rank (view (snd (ihc_get D h c)))"
    using assms(2) tree_deps_specD(6) [OF assms(1)] by (rule cache_ok_subset)
  show "rank (bwp_parent b) < rank h" if "fst (ihc_get D h c) = Some b"
    using tree_deps_specD(5) [OF assms(1), of h c] assms(2) that by (auto simp: cache_ok_def)
qed

text \<open>The walk through the cache ends, and can only end in a stored block.\<close>

lemma et_walk_invalid_total:
  assumes "tree_deps_spec D keys view" "cache_ok rank (view c)"
  shows "\<exists>r c'. et_walk_invalid (ihc_get D) kn cur c = Some (r, c') \<and> cache_ok rank (view c') \<and>
    (\<forall>h. r = Some h \<longrightarrow> kn h)"
  using assms(2)
proof (induction "case cur of None \<Rightarrow> 0 | Some b \<Rightarrow> Suc (rank (bwp_parent b))" arbitrary: cur c rule: less_induct)
  case less
  show ?case
  proof (cases cur)
    case None
    with less.prems show ?thesis by (simp add: et_walk_invalid.simps)
  next
    case (Some b)
    let ?h = "bwp_parent b"
    let ?next = "fst (ihc_get D ?h c)" and ?c = "snd (ihc_get D ?h c)"
    note got = cache_ok_get [OF assms(1) less.prems, of ?h]
    show ?thesis
    proof (cases "?next = None \<and> kn ?h")
      case True
      with Some got(1) show ?thesis by (simp add: et_walk_invalid.simps Let_def case_prod_beta)
    next
      case False
      have "(case ?next of None \<Rightarrow> 0 | Some b \<Rightarrow> Suc (rank (bwp_parent b))) <
          (case cur of None \<Rightarrow> 0 | Some b \<Rightarrow> Suc (rank (bwp_parent b)))"
        using Some got(2) by (auto split: option.splits)
      moreover have "et_walk_invalid (ihc_get D) kn cur c = et_walk_invalid (ihc_get D) kn ?next ?c"
        using False Some by (subst et_walk_invalid.simps) (auto simp: Let_def case_prod_beta)
      ultimately show ?thesis using less.hyps [OF _ got(1)] by simp
    qed
  qed
qed

lemma latest_valid_total:
  assumes D: "tree_deps_spec D keys view" and inv: "et_inv hdr rank D keys view J t"
  shows "\<exists>r c. et_latest_valid_hash_for_invalid_payload D h t = Some (r, t\<lparr>et_invalid := c\<rparr>) \<and>
    cache_ok rank (view c) \<and> (\<forall>v. r = Some v \<longrightarrow> known t v \<noteq> None)"
proof (cases "known t h = None")
  case False
  then show ?thesis
    using et_invD(3) [OF inv]
    by (auto simp: et_latest_valid_hash_for_invalid_payload_def Let_def intro!: exI [of _ "et_invalid t"])
next
  case True
  let ?kn = "\<lambda>h. known t h \<noteq> None"
  note got = cache_ok_get(1) [OF D et_invD(3) [OF inv], of h]
  from et_walk_invalid_total [OF D got, of ?kn "fst (ihc_get D h (et_invalid t))"] True
  show ?thesis
    by (auto simp: et_latest_valid_hash_for_invalid_payload_def Let_def case_prod_beta)
qed

section \<open>The invariant as a whole\<close>

context chain_view
begin

lemma inv_cong:
  assumes "et_inv hdr rank D keys view J t"
    and "rp_chain_state (et_provider t') = rp_chain_state (et_provider t)"
    and "et_canonical_head t' = et_canonical_head t"
    and "buffer_ok hdr rank (lru_of D) keys (et_buffer t')" "cache_ok rank (view (et_invalid t'))"
  shows "et_inv hdr rank D keys view J t'"
  using assms(1,4,5) J_cong [OF assms(2,3)] by (simp add: et_inv_def tree_ok_def stored_ok_def head_ok_def assms(2,3))

lemma inv_emit: "et_inv hdr rank D keys view J t \<Longrightarrow> et_inv hdr rank D keys view J (et_emit_event e t)"
  by (rule inv_cong) (auto simp: et_emit_event_def dest: et_invD)

lemma inv_buffer:
  "et_inv hdr rank D keys view J t \<Longrightarrow> buffer_ok hdr rank (lru_of D) keys s
   \<Longrightarrow> et_inv hdr rank D keys view J (t\<lparr>et_buffer := s\<rparr>)"
  by (rule inv_cong) (auto dest: et_invD)

lemma inv_cache:
  "et_inv hdr rank D keys view J t \<Longrightarrow> cache_ok rank (view c)
   \<Longrightarrow> et_inv hdr rank D keys view J (t\<lparr>et_invalid := c\<rparr>)"
  by (rule inv_cong) (auto dest: et_invD)

lemma inv_store:
  assumes "et_inv hdr rank D keys view J t" "authentic hdr rank b" "known t (hash b) = None"
    and "known t (parent_hash b) = Some parent" "next_number (number parent) (number b)" "executed hdr D b"
  shows "et_inv hdr rank D keys view J (t\<lparr>et_provider := rp_insert_block b w (et_provider t)\<rparr>)"
  using et_invD [OF assms(1)] J_store [OF _ _ assms(2-6)] tree_ok_store [OF _ assms(2,4,5)]
  by (simp add: et_inv_def)

lemma inv_update:
  assumes "et_inv hdr rank D keys view J t" "chain_to_head t h u" "known t h = Some (ncc_tip u)"
  shows "et_inv hdr rank D keys view J (et_on_canonical_chain_update u t)"
  using et_invD [OF assms(1)] J_update [OF _ _ assms(2,3)] tree_ok_update [OF _ assms(3)]
  by (simp add: et_inv_def)

lemma inv_finalized:
  assumes "et_inv hdr rank D keys view J t" "iteration_order ord"
    and "f \<noteq> 0 \<Longrightarrow> rp_is_hash_canonical (et_provider t) f"
  shows "et_inv hdr rank D keys view J (t\<lparr>et_provider := rp_on_finalized ord f (et_provider t)\<rparr>)"
  using et_invD [OF assms(1)] J_finalized [OF assms(2) _ _ assms(3)] tree_ok_finalized [OF assms(2)]
  by (simp add: et_inv_def)

end

end
