(* ===== verification/Tree_Handlers.thy ===== *)
theory Tree_Handlers
  imports Tree_Invariant
begin

text \<open>
  The handlers of the engine tree: each returns and keeps the invariant, whatever the condition on
  the canonical hashes is, so everything is proved once, in the locale \<open>chain_view\<close>.
\<close>

lemma et_emit_frame [simp]:
  "et_provider (et_emit_event e t) = et_provider t"
  "et_canonical_head (et_emit_event e t) = et_canonical_head t"
  "et_tracker (et_emit_event e t) = et_tracker t" "et_buffer (et_emit_event e t) = et_buffer t"
  "et_invalid (et_emit_event e t) = et_invalid t" "et_events (et_emit_event e t) = et_events t @ [e]"
  by (simp_all add: et_emit_event_def)

lemma ensure_consistent_finalized:
  "et_ensure_consistent_forkchoice_state state t = Inr () \<longleftrightarrow>
     (finalized_block_hash state \<noteq> 0 \<longrightarrow> rp_is_hash_canonical (et_provider t) (finalized_block_hash state)) \<and>
     (safe_block_hash state \<noteq> 0 \<longrightarrow> rp_is_hash_canonical (et_provider t) (safe_block_hash state))"
  by (auto simp: et_ensure_consistent_forkchoice_state_def)

text \<open>The five ways in which inserting a block can end.\<close>

lemma et_insert_block_cases [consumes 1, case_names error seen disconnected no_witness valid]:
  assumes "et_insert_block D b w t = Some (r, t')"
  obtains e where "r = Inl e" "t' = t"
  | "r = Inr AlreadySeen" "t' = t" "known t (hash b) \<noteq> None"
  | missing where "r = Inr (Inserted (BS_Disconnected (et_canonical_head t) missing))"
      "known t (parent_hash b) = None" "et_validate_block D (sealed_block.truncate b) = Inr ()"
      "t' = t\<lparr>et_buffer := bb_insert_block (lru_of D) b
         (case w of None \<Rightarrow> et_buffer t | Some w \<Rightarrow> bb_insert_witness (hash b) w {||} (et_buffer t))\<rparr>"
  | parent where "r = Inr (Inserted BS_NoWitness)" "w = None" "known t (hash b) = None"
      "known t (parent_hash b) = Some parent" "et_validate_block D (sealed_block.truncate b) = Inr ()"
      "t' = t\<lparr>et_buffer := bb_insert_block (lru_of D) b (et_buffer t)\<rparr>"
  | witness parent out fork where "r = Inr (Inserted BS_Valid)" "w = Some witness"
      "et_validate_block D (sealed_block.truncate b) = Inr ()" "known t (hash b) = None"
      "known t (parent_hash b) = Some parent"
      "validate_header_against_parent D (sealed_header.truncate b) (parent\<lparr>hash := parent_hash b\<rparr>) = Inr ()"
      "et_execute_block D (et_provider t) (parent\<lparr>hash := parent_hash b\<rparr>) b witness = Inr out"
      "et_is_fork (t\<lparr>et_provider := rp_insert_block b (Some (ew_state_witness witness)) (et_provider t)\<rparr>)
         (hash b) = Some fork"
      "t' = et_emit_event (if fork then ForkBlockAdded b out else CanonicalBlockAdded b out)
         (t\<lparr>et_provider := rp_insert_block b (Some (ew_state_witness witness)) (et_provider t)\<rparr>)"
proof -
  let ?p = "\<lambda>parent. parent\<lparr>hash := parent_hash b\<rparr>"
  note run = assms [unfolded et_insert_block_def Let_def et_buffer_disconnected_def]
  consider (seen) "known t (hash b) \<noteq> None"
    | (invalid) e where "known t (hash b) = None" "et_validate_block D (sealed_block.truncate b) = Inl e"
    | (orphan) "known t (hash b) = None" "et_validate_block D (sealed_block.truncate b) = Inr ()"
        "known t (parent_hash b) = None"
    | (child) parent where "known t (hash b) = None" "et_validate_block D (sealed_block.truncate b) = Inr ()"
        "known t (parent_hash b) = Some parent"
    by (cases "known t (hash b)"; cases "et_validate_block D (sealed_block.truncate b)";
        cases "known t (parent_hash b)") auto
  then show thesis
  proof cases
    case seen
    with run that(2) show thesis by simp
  next
    case invalid
    with run that(1) show thesis by auto
  next
    case orphan
    with run that(3) show thesis by (auto simp: bind_eq_Some_conv)
  next
    case pre: child
    consider (unlinked) e where "validate_header_against_parent D (sealed_header.truncate b) (?p parent) = Inl e"
      | (bare) "validate_header_against_parent D (sealed_header.truncate b) (?p parent) = Inr ()" "w = None"
      | (witnessed) x where "validate_header_against_parent D (sealed_header.truncate b) (?p parent) = Inr ()" "w = Some x"
      by (cases "validate_header_against_parent D (sealed_header.truncate b) (?p parent)"; cases w) auto
    then show thesis
    proof cases
      case unlinked
      with pre run that(1) show thesis by auto
    next
      case bare
      with pre run that(4) show thesis by simp
    next
      case witnessed
      with pre run that(1) that(5) [OF _ witnessed(2) pre(2,1,3) witnessed(1)] show thesis
        by (auto simp: bind_eq_Some_conv split: sum.splits)
    qed
  qed
qed

lemma executedI:
  assumes "stored_ok hdr rank (et_provider t)" "et_validate_block D (sealed_block.truncate b) = Inr ()"
    and p: "known t (parent_hash b) = Some parent"
    and "validate_header_against_parent D (sealed_header.truncate b) (parent\<lparr>hash := parent_hash b\<rparr>) = Inr ()"
    and "et_execute_block D q (parent\<lparr>hash := parent_hash b\<rparr>) b witness = Inr out"
  shows "executed hdr D b"
proof -
  have "authentic hdr rank parent" "hash parent = parent_hash b" using known_authentic [OF assms(1) p] by simp_all
  then have "header.truncate (parent\<lparr>hash := parent_hash b\<rparr>) = hdr (parent_hash b)"
    by (cases parent) (simp add: authentic_def header.defs)
  with assms(2,4,5) show ?thesis
    unfolding executed_def
    by (intro conjI exI [of _ q] exI [of _ "parent\<lparr>hash := parent_hash b\<rparr>"] exI [of _ witness] exI [of _ out])
       simp_all
qed

text \<open>The latest valid hash of an answer is that of a stored block, or zero for "none".\<close>

definition latest_ok :: "('d, 'l, 'c, 'f) engine_tree \<Rightarrow> payload_status \<Rightarrow> bool" where
  "latest_ok t st \<longleftrightarrow> (\<forall>h. ps_latest_valid_hash st = Some h \<longrightarrow> h = 0 \<or> known t h \<noteq> None)"

text \<open>A valid answer names the block, which is stored.\<close>

definition answer_ok :: "('d, 'l, 'c, 'f) engine_tree \<Rightarrow> b256 \<Rightarrow> payload_status \<Rightarrow> bool" where
  "answer_ok t h st \<longleftrightarrow>
     latest_ok t st \<and> (ps_status st = Valid \<longrightarrow> ps_latest_valid_hash st = Some h \<and> known t h \<noteq> None)"

lemma answer_ok_simps:
  "answer_ok t h (ps_new Valid (Some h)) \<longleftrightarrow> known t h \<noteq> None" "answer_ok t h (ps_new Syncing None)"
  "latest_ok t (ps_new Syncing None)" "known t h \<noteq> None \<Longrightarrow> latest_ok t (ps_new Valid (Some h))"
  by (auto simp: answer_ok_def latest_ok_def ps_new_def)

context chain_view
begin

section \<open>Invalid ancestors\<close>

text \<open>These operations change the cache of invalid headers only.\<close>

lemma prepare_invalid_total:
  assumes D: "tree_deps_spec D keys view" and inv: "et_inv hdr rank D keys view J t"
  shows "\<exists>h c. et_prepare_invalid_response D parent t =
      Some (ps_new (Invalid links_to_rejected) (Some h), t\<lparr>et_invalid := c\<rparr>) \<and> cache_ok rank (view c) \<and>
    (h = 0 \<or> known t h \<noteq> None)"
proof -
  let ?parent = "case known t parent of Some p \<Rightarrow> if difficulty p \<noteq> 0 then 0 else parent | None \<Rightarrow> parent"
  obtain r c where r: "et_latest_valid_hash_for_invalid_payload D ?parent t = Some (r, t\<lparr>et_invalid := c\<rparr>)"
    and c: "cache_ok rank (view c)" and v: "\<forall>v. r = Some v \<longrightarrow> known t v \<noteq> None"
    using latest_valid_total [OF D inv] by blast
  let ?h = "case r of None \<Rightarrow> 0 | Some h \<Rightarrow> h"
  have "et_prepare_invalid_response D parent t =
      Some (ps_new (Invalid links_to_rejected) (Some ?h), t\<lparr>et_invalid := c\<rparr>)"
    unfolding et_prepare_invalid_response_def Let_def r by simp
  moreover have "?h = 0 \<or> known t ?h \<noteq> None" using v by (cases r) auto
  ultimately show ?thesis using c by blast
qed

lemma check_invalid_total:
  assumes D: "tree_deps_spec D keys view" and inv: "et_inv hdr rank D keys view J t"
  shows "\<exists>r c. et_check_invalid_ancestor D head t = Some (r, t\<lparr>et_invalid := c\<rparr>) \<and> cache_ok rank (view c) \<and>
    (\<forall>st. r = Some st \<longrightarrow> ps_status st = Invalid links_to_rejected \<and> latest_ok t st)"
proof -
  let ?c = "snd (ihc_get D head (et_invalid t))"
  have c: "cache_ok rank (view ?c)" using D et_invD(3) [OF inv] by (rule cache_ok_get)
  show ?thesis
  proof (cases "fst (ihc_get D head (et_invalid t))")
    case None
    with c show ?thesis by (simp add: et_check_invalid_ancestor_def Let_def case_prod_beta) blast
  next
    case (Some b)
    from prepare_invalid_total [OF D inv_cache [where c = ?c, OF inv c], of "bwp_parent b"]
    obtain h c' where "et_prepare_invalid_response D (bwp_parent b) (t\<lparr>et_invalid := ?c\<rparr>) =
        Some (ps_new (Invalid links_to_rejected) (Some h), t\<lparr>et_invalid := c'\<rparr>)" "cache_ok rank (view c')"
      "h = 0 \<or> known t h \<noteq> None"
      by auto
    with Some show ?thesis
      by (auto simp: et_check_invalid_ancestor_def Let_def case_prod_beta ps_new_def latest_ok_def)
  qed
qed

lemma check_invalid_with_head_total:
  assumes D: "tree_deps_spec D keys view" and inv: "et_inv hdr rank D keys view J t"
    and rank: "check = head \<or> rank check < rank head"
  shows "\<exists>r c. et_check_invalid_ancestor_with_head D check head t = Some (r, t\<lparr>et_invalid := c\<rparr>) \<and>
    cache_ok rank (view c) \<and> (\<forall>st. r = Some st \<longrightarrow> ps_status st = Invalid links_to_rejected \<and> latest_ok t st)"
proof -
  let ?c = "snd (ihc_get D check (et_invalid t))"
  note got = cache_ok_get [OF D et_invD(3) [OF inv], of check]
  show ?thesis
  proof (cases "fst (ihc_get D check (et_invalid t))")
    case None
    with got(1) show ?thesis by (simp add: et_check_invalid_ancestor_with_head_def Let_def case_prod_beta) blast
  next
    case (Some b)
    from prepare_invalid_total [OF D inv_cache [where c = ?c, OF inv got(1)], of "bwp_parent b"]
    obtain h c' where prep: "et_prepare_invalid_response D (bwp_parent b) (t\<lparr>et_invalid := ?c\<rparr>) =
        Some (ps_new (Invalid links_to_rejected) (Some h), t\<lparr>et_invalid := c'\<rparr>)" "cache_ok rank (view c')"
      "h = 0 \<or> known t h \<noteq> None"
      by auto
    have "rank (bwp_parent b) < rank head" using got(2) [OF Some] rank by auto
    with prep(2) have "cache_ok rank ((view c')(head \<mapsto> b))" by (rule cache_ok_upd)
    then have "cache_ok rank (view (ihc_insert_with_invalid_ancestor D head b c'))"
      using tree_deps_specD(8) [OF D] by (rule cache_ok_subset)
    with Some prep show ?thesis
      by (auto simp: et_check_invalid_ancestor_with_head_def Let_def case_prod_beta ps_new_def latest_ok_def)
  qed
qed

lemma insert_error_total:
  assumes D: "tree_deps_spec D keys view" and inv: "et_inv hdr rank D keys view J t"
    and b: "rank (parent_hash b) < rank (hash b)"
  shows "\<exists>r c. et_on_insert_block_error D b e t = Some (r, t\<lparr>et_invalid := c\<rparr>) \<and> cache_ok rank (view c) \<and>
    (case r of Inl f \<Rightarrow> ensure_validation_error D e = Inl f
     | Inr st \<Rightarrow> (\<exists>m. ps_status st = Invalid m) \<and> latest_ok t st)"
proof (cases "ensure_validation_error D e")
  case (Inl f)
  then show ?thesis
    using et_invD(3) [OF inv] by (auto simp: et_on_insert_block_error_def intro!: exI [of _ "et_invalid t"])
next
  case (Inr v)
  obtain r c where r: "et_latest_valid_hash_for_invalid_payload D (parent_hash b) t = Some (r, t\<lparr>et_invalid := c\<rparr>)"
    "cache_ok rank (view c)" "\<forall>v. r = Some v \<longrightarrow> known t v \<noteq> None"
    using latest_valid_total [OF D inv] by blast
  let ?bwp = "\<lparr>bwp_parent = parent_hash b, bwp_block = num_hash b\<rparr>"
  from r(2) b have "cache_ok rank ((view c)(bnh_hash (bwp_block ?bwp) \<mapsto> ?bwp))" by (simp add: cache_ok_upd)
  then have "cache_ok rank (view (ihc_insert D ?bwp c))"
    using tree_deps_specD(7) [OF D] by (rule cache_ok_subset)
  with r Inr show ?thesis by (auto simp: et_on_insert_block_error_def Let_def ps_new_def latest_ok_def)
qed

section \<open>Inserting a block\<close>

lemma is_fork_returns:
  assumes "tree_ok hdr rank t"
  shows "et_is_fork t h \<noteq> None"
  using et_walk_is_fork_result [OF stored_ok_linked [OF tree_okD(1) [OF assms]], of "et_canonical_head t" h]
    tree_ok_at_number [OF assms]
  by (auto simp: et_is_fork_def at_number_def)

lemma insert_block_returns:
  assumes D: "tree_deps_spec D keys view" and inv: "et_inv hdr rank D keys view J t"
    and b: "authentic hdr rank b"
  shows "et_insert_block D b w t \<noteq> None"
proof -
  note i = et_invD [OF inv]
  obtain low where low: "bb_lowest_ancestor (et_buffer t) (parent_hash b) = Some low"
    using lowest_ancestor_total [OF i(2)] by blast
  have fork: False
    if "et_is_fork (t\<lparr>et_provider := rp_insert_block b x (et_provider t)\<rparr>) (hash b) = None"
      and p: "known t (parent_hash b) = Some p" and new: "known t (hash b) = None"
      and v: "validate_header_against_parent D (sealed_header.truncate b) (p\<lparr>hash := parent_hash b\<rparr>) = Inr ()"
    for p x
  proof -
    have "number (p\<lparr>hash := parent_hash b\<rparr>) = number p" by (cases p) simp
    with tree_deps_specD(4) [OF D v] have "next_number (number p) (number b)" by simp
    with i(5) b p have "tree_ok hdr rank (t\<lparr>et_provider := rp_insert_block b x (et_provider t)\<rparr>)"
      by (rule tree_ok_store)
    from is_fork_returns [OF this, of "hash b"] that(1) show False by simp
  qed
  show ?thesis
  proof
    assume "et_insert_block D b w t = None"
    with low show False
      by (auto simp: et_insert_block_def et_buffer_disconnected_def Let_def
          split: if_splits sum.splits option.splits bind_splits dest: fork)
  qed
qed

lemma insert_block_total:
  assumes D: "tree_deps_spec D keys view" and inv: "et_inv hdr rank D keys view J t"
    and b: "authentic hdr rank b"
  shows "\<exists>r t'. et_insert_block D b w t = Some (r, t') \<and> et_inv hdr rank D keys view J t' \<and>
    et_canonical_head t' = et_canonical_head t \<and> et_tracker t' = et_tracker t \<and> known t \<subseteq>\<^sub>m known t' \<and>
    (r = Inr AlreadySeen \<or> r = Inr (Inserted BS_Valid) \<longrightarrow> known t' (hash b) \<noteq> None)"
proof -
  note lru = tree_deps_specD(2) [OF D] and i = et_invD [OF inv]
  obtain r t' where ins: "et_insert_block D b w t = Some (r, t')"
    using insert_block_returns [OF assms] by force
  then have "et_inv hdr rank D keys view J t' \<and> et_canonical_head t' = et_canonical_head t \<and>
    et_tracker t' = et_tracker t \<and> known t \<subseteq>\<^sub>m known t' \<and>
    (r = Inr AlreadySeen \<or> r = Inr (Inserted BS_Valid) \<longrightarrow> known t' (hash b) \<noteq> None)"
  proof (cases rule: et_insert_block_cases)
    case (disconnected missing)
    have "buffer_ok hdr rank (lru_of D) keys
        (case w of None \<Rightarrow> et_buffer t | Some w \<Rightarrow> bb_insert_witness (hash b) w {||} (et_buffer t))"
      using i(2) by (cases w) (simp_all add: buffer_ok_witness)
    from inv_buffer [OF inv buffer_ok_insert [OF lru this b]] disconnected show ?thesis by simp
  next
    case (no_witness parent)
    from inv_buffer [OF inv buffer_ok_insert [OF lru i(2) b]] no_witness show ?thesis by simp
  next
    case (valid witness parent out fork)
    have "number (parent\<lparr>hash := parent_hash b\<rparr>) = number parent" by (cases parent) simp
    with tree_deps_specD(4) [OF D valid(6)] have "next_number (number parent) (number b)" by simp
    moreover have "executed hdr D b"
      using i(1) valid(3,5,6,7) by (rule executedI)
    ultimately show ?thesis using inv_emit [OF inv_store [OF inv b valid(4,5)]] valid(4,9)
      by (simp add: known_insert map_le_def dom_def)
  qed (use inv in simp_all)
  with ins show ?thesis by blast
qed

lemma new_head_result:
  assumes "tree_deps_spec D keys view" "et_inv hdr rank D keys view J t"
  shows "\<exists>r. et_on_new_head D t h = Some r \<and>
    (case r of None \<Rightarrow> \<not> connects t h
     | Some u \<Rightarrow> chain_to_head t h u \<and> known t h = Some (last (ncc_new u)))"
  using et_on_new_head_result [OF stored_ok_linked [OF et_invD(1) [OF assms(2)]] tree_deps_specD(3) [OF assms(1)]
      tree_ok_at_number [OF et_invD(5) [OF assms(2)]]] .

lemma make_canonical_total:
  assumes D: "tree_deps_spec D keys view" and inv: "et_inv hdr rank D keys view J t"
  shows "\<exists>t'. et_make_canonical D h t = Some t' \<and> et_inv hdr rank D keys view J t' \<and>
    et_tracker t' = et_tracker t \<and> known t' = known t"
proof -
  note i = et_invD [OF inv]
  obtain r where r: "et_on_new_head D t h = Some r"
    and ok: "case r of None \<Rightarrow> \<not> connects t h
       | Some u \<Rightarrow> chain_to_head t h u \<and> known t h = Some (last (ncc_new u))"
    using new_head_result [OF D inv] by blast
  show ?thesis
  proof (cases r)
    case None
    with r inv show ?thesis by (simp add: et_make_canonical_def)
  next
    case (Some u)
    with ok have "chain_to_head t h u" "known t h = Some (ncc_tip u)" by (auto simp: ncc_tip_def)
    from inv_update [OF inv this] r Some show ?thesis by (simp add: et_make_canonical_def)
  qed
qed

lemma connect_each_total:
  assumes D: "tree_deps_spec D keys view" and "et_inv hdr rank D keys view J t"
    and "\<And>r. r \<in> set rs \<Longrightarrow> authentic hdr rank (fst r)"
  shows "\<exists>r t'. et_connect_each D rs t = Some (r, t') \<and> et_inv hdr rank D keys view J t' \<and>
    et_tracker t' = et_tracker t \<and> known t \<subseteq>\<^sub>m known t'"
  using assms(2,3)
proof (induction rs arbitrary: t)
  case (Cons bw rs)
  obtain b w where bw: "bw = (b, w)" by (cases bw)
  with Cons.prems(2) have b: "authentic hdr rank b" by force
  obtain r t1 where ins: "et_insert_block D b (Some w) t = Some (r, t1)" and t1: "et_inv hdr rank D keys view J t1"
    and tr: "et_tracker t1 = et_tracker t" "known t \<subseteq>\<^sub>m known t1"
    using insert_block_total [OF D Cons.prems(1) b] by blast
  have IH: "\<exists>r t'. et_connect_each D rs u = Some (r, t') \<and> et_inv hdr rank D keys view J t' \<and>
      et_tracker t' = et_tracker u \<and> known u \<subseteq>\<^sub>m known t'" if "et_inv hdr rank D keys view J u" for u
    using Cons.IH [OF that] Cons.prems(2) by simp
  show ?case
  proof (cases r)
    case (Inr ok)
    obtain t2 where "(if et_is_sync_target_head D t1 (hash b) \<and> ok = Inserted BS_Valid
        then et_make_canonical D (hash b) t1 else Some t1) = Some t2"
      and t2: "et_inv hdr rank D keys view J t2" "et_tracker t2 = et_tracker t1" "known t2 = known t1"
      using make_canonical_total [OF D t1, of "hash b"] t1
      by (cases "et_is_sync_target_head D t1 (hash b) \<and> ok = Inserted BS_Valid") auto
    with IH [OF t2(1)] ins Inr tr show ?thesis by (auto simp: bw intro: map_le_trans)
  next
    case (Inl e)
    have "rank (parent_hash (sealed_block.truncate b)) < rank (hash (sealed_block.truncate b))"
      using authenticD(3) [OF b] by simp
    from insert_error_total [OF D t1 this, of e] obtain q c where
      q: "et_on_insert_block_error D (sealed_block.truncate b) e t1 = Some (q, t1\<lparr>et_invalid := c\<rparr>)"
        "cache_ok rank (view c)" by blast
    have t2: "et_inv hdr rank D keys view J (t1\<lparr>et_invalid := c\<rparr>)" using t1 q(2) by (rule inv_cache)
    show ?thesis
    proof (cases q)
      case (Inl f)
      with ins \<open>r = Inl e\<close> q t2 tr show ?thesis by (simp add: bw)
    next
      case (Inr st)
      with ins \<open>r = Inl e\<close> q IH [OF t2] tr show ?thesis by (auto simp: bw intro: map_le_trans)
    qed
  qed
qed simp

lemma try_connect_total:
  assumes D: "tree_deps_spec D keys view" and inv: "et_inv hdr rank D keys view J t"
  shows "\<exists>r t'. et_try_connect_buffered_blocks D h t = Some (r, t') \<and> et_inv hdr rank D keys view J t' \<and>
    et_tracker t' = et_tracker t \<and> known t \<subseteq>\<^sub>m known t'"
proof -
  note rm = buffer_ok_remove [OF tree_deps_specD(1,2) [OF D] et_invD(2) [OF inv], where p = h]
  let ?rm = "bb_remove_block_with_children (it D) (lru_of D) h (et_buffer t)"
  have inv': "et_inv hdr rank D keys view J (t\<lparr>et_buffer := snd ?rm\<rparr>)" using inv rm(1) by (rule inv_buffer)
  from connect_each_total [OF D inv' rm(2)] inv' show ?thesis
    by (auto simp: et_try_connect_buffered_blocks_def Let_def case_prod_beta)
qed

section \<open>Payloads and downloaded blocks\<close>

text \<open>The parts both handlers share: the block is inserted after the check for invalid ancestors,
  an error becomes an answer, or blocks waiting for it are connected.\<close>

lemma insert_error_answers:
  assumes D: "tree_deps_spec D keys view" and inv: "et_inv hdr rank D keys view J t"
    and b: "authentic hdr rank (b :: recovered_block)"
  obtains q t' where "et_on_insert_block_error D (sealed_block.truncate b) e t = Some (q, t')"
    "et_inv hdr rank D keys view J t'" "et_tracker t' = et_tracker t" "known t' = known t"
    "\<And>st. q = Inr st \<Longrightarrow> answer_ok t' (hash b) st"
proof -
  have "rank (parent_hash (sealed_block.truncate b)) < rank (hash (sealed_block.truncate b))"
    using authenticD(3) [OF b] by simp
  from insert_error_total [OF D inv this, of e] obtain q c where
    "et_on_insert_block_error D (sealed_block.truncate b) e t = Some (q, t\<lparr>et_invalid := c\<rparr>)"
    "cache_ok rank (view c)"
    and ok: "case q of Inl f \<Rightarrow> ensure_validation_error D e = Inl f
       | Inr st \<Rightarrow> (\<exists>m. ps_status st = Invalid m) \<and> latest_ok t st" by blast
  moreover have "answer_ok (t\<lparr>et_invalid := c\<rparr>) (hash b) st" if "q = Inr st" for st
    using ok that by (auto simp: answer_ok_def latest_ok_def)
  ultimately show ?thesis using that inv_cache [OF inv] by simp
qed

text \<open>What a downloaded block and a new payload have in common: the ancestor check, and the insertion
  followed by its error handler or by the connection of the buffered children.\<close>

lemma ancestor_check_total:
  assumes D: "tree_deps_spec D keys view" and inv: "et_inv hdr rank D keys view J t"
    and "k = h \<or> rank k < rank h"
  obtains q c where "et_check_invalid_ancestor_with_head D k h t = Some (q, t\<lparr>et_invalid := c\<rparr>)"
    "et_inv hdr rank D keys view J (t\<lparr>et_invalid := c\<rparr>)"
    "\<And>st. q = Some st \<Longrightarrow> answer_ok (t\<lparr>et_invalid := c\<rparr>) h st"
proof -
  obtain q c where q: "et_check_invalid_ancestor_with_head D k h t = Some (q, t\<lparr>et_invalid := c\<rparr>)"
    "cache_ok rank (view c)" "\<And>st. q = Some st \<Longrightarrow> ps_status st = Invalid links_to_rejected \<and> latest_ok t st"
    using check_invalid_with_head_total [OF D inv assms(3)] by blast
  with that [OF q(1) inv_cache [OF inv q(2)]] show thesis by (simp add: answer_ok_def latest_ok_def)
qed

lemma insertion_total [case_names failed inserted]:
  assumes D: "tree_deps_spec D keys view" and inv: "et_inv hdr rank D keys view J t"
    and b: "authentic hdr rank b"
  obtains e p u t' where "et_insert_block D b w t = Some (Inl e, u)"
      "et_on_insert_block_error D (sealed_block.truncate b) e u = Some (p, t')"
      "et_inv hdr rank D keys view J t'" "et_tracker t' = et_tracker t" "known t \<subseteq>\<^sub>m known t'"
      "\<And>st. p = Inr st \<Longrightarrow> answer_ok t' (hash b) st"
  | ok p u t' where "et_insert_block D b w t = Some (Inr ok, u)"
      "et_inv hdr rank D keys view J u" "et_tracker u = et_tracker t" "known t \<subseteq>\<^sub>m known u"
      "ok = AlreadySeen \<or> ok = Inserted BS_Valid \<Longrightarrow> known u (hash b) \<noteq> None"
      "et_try_connect_buffered_blocks D (hash b) u = Some (p, t')"
      "et_inv hdr rank D keys view J t'" "et_tracker t' = et_tracker t" "known t \<subseteq>\<^sub>m known t'"
      "ok = AlreadySeen \<or> ok = Inserted BS_Valid \<Longrightarrow> known t' (hash b) \<noteq> None"
proof -
  obtain r u where ins: "et_insert_block D b w t = Some (r, u)" "et_inv hdr rank D keys view J u"
    "et_tracker u = et_tracker t" "known t \<subseteq>\<^sub>m known u"
    "r = Inr AlreadySeen \<or> r = Inr (Inserted BS_Valid) \<longrightarrow> known u (hash b) \<noteq> None"
    using insert_block_total [OF D inv b] by blast
  show thesis
  proof (cases r)
    case (Inl e)
    obtain p t' where "et_on_insert_block_error D (sealed_block.truncate b) e u = Some (p, t')"
      "et_inv hdr rank D keys view J t'" "et_tracker t' = et_tracker u" "known t' = known u"
      "\<And>st. p = Inr st \<Longrightarrow> answer_ok t' (hash b) st"
      by (rule insert_error_answers [OF D ins(2) b]) blast
    with ins Inl that(1) show thesis by simp
  next
    case (Inr ok)
    obtain p t' where con: "et_try_connect_buffered_blocks D (hash b) u = Some (p, t')"
      "et_inv hdr rank D keys view J t'" "et_tracker t' = et_tracker u" "known u \<subseteq>\<^sub>m known t'"
      using try_connect_total [OF D ins(2)] by blast
    have "known t \<subseteq>\<^sub>m known t'" using ins(4) con(4) by (rule map_le_trans)
    moreover have "known t' (hash b) \<noteq> None" if "ok = AlreadySeen \<or> ok = Inserted BS_Valid"
      using ins(5) con(4) Inr that by (auto simp: map_le_def dom_def)
    ultimately show thesis using ins con Inr by (intro that(2) [of ok u p t']) auto
  qed
qed

lemma downloaded_block_total:
  assumes D: "tree_deps_spec D keys view" and inv: "et_inv hdr rank D keys view J t"
    and b: "authentic hdr rank b"
  shows "\<exists>r t'. et_on_downloaded_block D b w t = Some (r, t') \<and> et_inv hdr rank D keys view J t' \<and>
    et_tracker t' = et_tracker t \<and> known t \<subseteq>\<^sub>m known t' \<and>
    (\<forall>out. r = Inr out \<longrightarrow> answer_ok t' (hash b) (outcome out))"
proof -
  obtain k where k: "et_lowest_buffered_ancestor_or t (hash b) = Some k" "k = hash b \<or> rank k < rank (hash b)"
    using lowest_buffered_total [OF inv] by blast
  obtain q c where q: "et_check_invalid_ancestor_with_head D k (hash b) t = Some (q, t\<lparr>et_invalid := c\<rparr>)"
    "et_inv hdr rank D keys view J (t\<lparr>et_invalid := c\<rparr>)"
    "\<And>st. q = Some st \<Longrightarrow> answer_ok (t\<lparr>et_invalid := c\<rparr>) (hash b) st"
    using ancestor_check_total [OF D inv k(2)] by blast
  show ?thesis
  proof (cases q)
    case (Some st)
    with k(1) q show ?thesis by (simp add: et_on_downloaded_block_def)
  next
    case None
    from D q(2) b show ?thesis
    proof (cases rule: insertion_total [where w = "Some w"])
      case (failed e p u t')
      with k(1) q(1) None show ?thesis by (cases p) (simp_all add: et_on_downloaded_block_def)
    next
      case (inserted ok p u t')
      with k(1) q(1) None show ?thesis
        by (cases ok; cases p; auto simp: et_on_downloaded_block_def Let_def answer_ok_simps
            split: block_status.splits)
    qed
  qed
qed

lemma new_payload_total:
  assumes D: "tree_deps_spec D keys view" and inv: "et_inv hdr rank D keys view J t"
    and wellformed: "\<And>b. ensure_well_formed_payload D payload = Inr b \<Longrightarrow> authentic hdr rank b"
  shows "\<exists>r t'. et_on_new_payload D payload w t = Some (r, t') \<and> et_inv hdr rank D keys view J t' \<and>
    et_tracker t' = et_tracker t \<and> known t \<subseteq>\<^sub>m known t' \<and>
    (\<forall>out. r = Inr out \<longrightarrow> latest_ok t' (outcome out)) \<and>
    (\<forall>out b. r = Inr out \<longrightarrow> ensure_well_formed_payload D payload = Inr b \<longrightarrow> answer_ok t' (hash b) (outcome out))"
proof (cases "ensure_well_formed_payload D payload")
  case (Inl e)
  obtain r c where "et_latest_valid_hash_for_invalid_payload D (payload_parent_hash D payload) t =
      Some (r, t\<lparr>et_invalid := c\<rparr>)" "cache_ok rank (view c)" "\<forall>v. r = Some v \<longrightarrow> known t v \<noteq> None"
    using latest_valid_total [OF D inv] by blast
  with Inl inv inv_cache [OF inv] show ?thesis
    by (simp add: et_on_new_payload_def latest_ok_def ps_new_def)
next
  case wf: (Inr b)
  note b = wellformed [OF wf]
  obtain k where k: "et_lowest_buffered_ancestor_or t (hash b) = Some k" "k = hash b \<or> rank k < rank (hash b)"
    using lowest_buffered_total [OF inv] by blast
  let ?k = "if k = hash b then parent_hash b else k"
  have "?k = hash b \<or> rank ?k < rank (hash b)" using k(2) authenticD(3) [OF b] by auto
  then obtain q c where q: "et_check_invalid_ancestor_with_head D ?k (hash b) t = Some (q, t\<lparr>et_invalid := c\<rparr>)"
    "et_inv hdr rank D keys view J (t\<lparr>et_invalid := c\<rparr>)"
    "\<And>st. q = Some st \<Longrightarrow> answer_ok (t\<lparr>et_invalid := c\<rparr>) (hash b) st"
    using ancestor_check_total [OF D inv] by blast
  show ?thesis
  proof (cases q)
    case (Some st)
    with wf k(1) q show ?thesis by (simp add: et_on_new_payload_def Let_def answer_ok_def)
  next
    case None
    note pre = wf k(1) q(1) None
    from D q(2) b show ?thesis
    proof (cases rule: insertion_total [where w = w])
      case (failed e p u t')
      with pre show ?thesis by (cases p) (simp_all add: et_on_new_payload_def Let_def answer_ok_def)
    next
      case (inserted ok p u t')
      with pre show ?thesis
        by (cases ok; cases p; auto simp: et_on_new_payload_def Let_def answer_ok_simps
            split: block_status.splits)
    qed
  qed
qed

section \<open>Forkchoice updates\<close>

lemma fcu_new_head_inv:
  assumes D: "tree_deps_spec D keys view" and inv: "et_inv hdr rank D keys view J t"
    and u: "chain_to_head t h u" "known t h = Some (ncc_tip u)"
  shows "et_inv hdr rank D keys view J (snd (et_fcu_new_head D u state attrs version t)) \<and>
    et_tracker (snd (et_fcu_new_head D u state attrs version t)) = et_tracker t \<and>
    et_canonical_head (snd (et_fcu_new_head D u state attrs version t)) = num_hash (ncc_tip u)"
proof -
  let ?t = "et_on_canonical_chain_update u t"
  have inv1: "et_inv hdr rank D keys view J ?t" using inv u by (rule inv_update)
  show ?thesis
  proof (cases "et_ensure_consistent_forkchoice_state state ?t")
    case (Inl e)
    with inv1 show ?thesis by (simp add: et_fcu_new_head_def Let_def)
  next
    case (Inr v)
    let ?t2 = "?t\<lparr>et_provider := rp_on_finalized (it D) (finalized_block_hash state) (et_provider ?t)\<rparr>"
    have inv2: "et_inv hdr rank D keys view J ?t2"
      using inv1 tree_deps_specD(1) [OF D] Inr
      by (intro inv_finalized) (simp_all add: ensure_consistent_finalized)
    have "et_inv hdr rank D keys view J
        (?t2\<lparr>et_buffer := bb_evict_old_blocks (it D) (lru_of D) n (et_buffer ?t2)\<rparr>)" for n
      using inv2 buffer_ok_evict_old [OF tree_deps_specD(1,2) [OF D] et_invD(2) [OF inv2]]
      by (rule inv_buffer)
    with Inr inv2 show ?thesis
      by (simp add: et_fcu_new_head_def Let_def split: option.splits)
  qed
qed

text \<open>The check that precedes a forkchoice update, and the walk to a new head.\<close>

lemma pre_validate_total:
  assumes D: "tree_deps_spec D keys view" and inv: "et_inv hdr rank D keys view J t"
    and "head_block_hash state \<noteq> 0"
  obtains q c where
    "et_pre_validate_forkchoice_update D state t = Some (map_option Fcu_with_invalid q, t\<lparr>et_invalid := c\<rparr>)"
    "cache_ok rank (view c)" "et_inv hdr rank D keys view J (t\<lparr>et_invalid := c\<rparr>)"
    "\<And>st. q = Some st \<Longrightarrow> ps_status st = Invalid links_to_rejected \<and> latest_ok t st"
proof -
  obtain k where k: "et_lowest_buffered_ancestor_or t (head_block_hash state) = Some k"
    using lowest_buffered_total [OF inv] by blast
  obtain q c where q: "et_check_invalid_ancestor D k t = Some (q, t\<lparr>et_invalid := c\<rparr>)" "cache_ok rank (view c)"
    "\<And>st. q = Some st \<Longrightarrow> ps_status st = Invalid links_to_rejected \<and> latest_ok t st"
    using check_invalid_total [OF D inv, of k] by blast
  with k assms(3) that [OF _ q(2) inv_cache [OF inv q(2)]] show thesis
    by (simp add: et_pre_validate_forkchoice_update_def)
qed

lemma new_head_total [case_names unconnected connected]:
  assumes D: "tree_deps_spec D keys view" and inv: "et_inv hdr rank D keys view J t"
  obtains "et_on_new_head D t h = Some None" "\<not> connects t h"
  | u where "et_on_new_head D t h = Some (Some u)" "chain_to_head t h u" "known t h = Some (ncc_tip u)"
proof -
  obtain r where r: "et_on_new_head D t h = Some r"
    and "case r of None \<Rightarrow> \<not> connects t h
       | Some u \<Rightarrow> chain_to_head t h u \<and> known t h = Some (last (ncc_new u))"
    using new_head_result [OF D inv] by blast
  with that show thesis by (cases r) (auto simp: ncc_tip_def)
qed

lemma sync_to_head_total:
  assumes "et_inv hdr rank D keys view J t"
  shows "\<exists>out. et_sync_to_head state t = Some out"
  using lowest_buffered_total [OF assms] by (auto simp: et_sync_to_head_def Let_def bind_eq_Some_conv)

lemma forkchoice_total:
  assumes D: "tree_deps_spec D keys view" and inv: "et_inv hdr rank D keys view J t"
  shows "\<exists>r t'. et_on_forkchoice_updated D state attrs version t = Some (r, t') \<and>
    et_inv hdr rank D keys view J t' \<and> et_tracker t' = et_tracker t"
proof (cases "head_block_hash state = 0")
  case True
  with inv show ?thesis by (simp add: et_on_forkchoice_updated_def et_pre_validate_forkchoice_update_def)
next
  case False
  let ?h = "head_block_hash state"
  obtain q c where
    pre: "et_pre_validate_forkchoice_update D state t = Some (map_option Fcu_with_invalid q, t\<lparr>et_invalid := c\<rparr>)"
    and inv1: "et_inv hdr rank D keys view J (t\<lparr>et_invalid := c\<rparr>)"
    using pre_validate_total [OF D inv False] by blast
  let ?t = "t\<lparr>et_invalid := c\<rparr>"
  show ?thesis
  proof (cases "q = None \<and> bnh_hash (et_canonical_head ?t) \<noteq> ?h")
    case False
    with pre inv1 show ?thesis by (cases q) (auto simp: et_on_forkchoice_updated_def)
  next
    case q: True
    from D inv1 show ?thesis
    proof (cases rule: new_head_total [where h = ?h])
      case unconnected
      with sync_to_head_total [OF inv1, of state] pre q inv1 show ?thesis
        by (auto simp: et_on_forkchoice_updated_def)
    next
      case (connected u)
      with fcu_new_head_inv [OF D inv1 connected(2,3), of state attrs version] pre q
      show ?thesis by (simp add: et_on_forkchoice_updated_def case_prod_beta)
    qed
  qed
qed

end

end
