(* ===== verification/Canonical_Index.thy ===== *)
theory Canonical_Index
  imports Tree_Handlers
begin

text \<open>
  Three conditions on the index of canonical hashes that the handlers of the tree keep, all
  instances of \<open>chain_view\<close>.

  \<open>canonical_complete\<close>: every executed ancestor of the canonical head is in the index, as long as
  the chain of the head ends below every stored block (\<open>grounded\<close>). \<open>canonical_filed\<close>: every
  canonical hash is filed under the number of its header. \<open>canonical_sound\<close>: everything in
  the index is an ancestor of the canonical head at the right distance, walking the parent hashes
  of the headers themselves, stored or not.
\<close>

section \<open>Executed ancestors of the head are canonical\<close>

text \<open>Canonical hashes are filed under the number of their header, and the chain of the canonical
  head ends below every stored block.\<close>

definition grounded :: "header_of \<Rightarrow> ('d, 'l, 'c, 'f) engine_tree \<Rightarrow> bool" where
  "grounded hdr t \<longleftrightarrow>
     (\<forall>n h. canonical (et_provider t) n = Some h \<longrightarrow> n = number (hdr h)) \<and>
     (\<forall>r h x. ancestor (known t) (bnh_hash (et_canonical_head t)) r \<longrightarrow> known t r = None \<longrightarrow>
        known t h = Some x \<longrightarrow> r = 0 \<or> number (hdr r) < number x)"

definition canonical_complete :: "header_of \<Rightarrow> ('d, 'l, 'c, 'f) engine_tree \<Rightarrow> bool" where
  "canonical_complete hdr t \<longleftrightarrow> canonical_ok t \<and> grounded hdr t"

lemma groundedD:
  assumes "grounded hdr t"
  shows "canonical (et_provider t) n = Some h \<Longrightarrow> n = number (hdr h)"
    and "ancestor (known t) (bnh_hash (et_canonical_head t)) r \<Longrightarrow> known t r = None
           \<Longrightarrow> known t h = Some x \<Longrightarrow> r = 0 \<or> number (hdr r) < number x"
  using assms unfolding grounded_def by blast+

lemma ancestor_upd:
  assumes "\<not> ancestor get h k" "get k = None"
  shows "ancestor (get(k \<mapsto> b)) h a \<longleftrightarrow> ancestor get h a"
proof
  show "ancestor get h a" if "ancestor (get(k \<mapsto> b)) h a"
    using that assms(1)
  proof (induction rule: ancestor.induct)
    case (ancestor_step h x a)
    then have "h \<noteq> k" by (auto intro: ancestor_refl)
    with ancestor_step.hyps(1) have "get h = Some x" by simp
    with ancestor_step show ?case by (auto intro: ancestor.ancestor_step)
  qed (rule ancestor_refl)
  show "ancestor (get(k \<mapsto> b)) h a" if "ancestor get h a"
    using that
  proof (induction rule: ancestor.induct)
    case (ancestor_step h x a)
    with assms(2) have "(get(k \<mapsto> b)) h = Some x" by auto
    with ancestor_step.IH show ?case by (rule ancestor.ancestor_step [rotated])
  qed (rule ancestor_refl)
qed

text \<open>A new block on a stored parent is no ancestor of the canonical head.\<close>

lemma new_block_not_canonical_ancestor:
  assumes p: "stored_ok hdr rank (et_provider t)" and g: "grounded hdr t"
    and b: "authentic hdr rank b" "known t (hash b) = None"
    and par: "known t (parent_hash b) = Some parent" "next_number (number parent) (number b)"
  shows "\<not> ancestor (known t) (bnh_hash (et_canonical_head t)) (hash b)"
proof
  assume "ancestor (known t) (bnh_hash (et_canonical_head t)) (hash b)"
  from groundedD(2) [OF g this b(2) par(1)] have "number b < number parent"
    by (simp add: authenticD(1,4) [OF b(1)])
  with next_number_less [OF par(2)] show False by simp
qed

text \<open>Storing such a block leaves the ancestors of the head alone.\<close>

lemma stored_ancestors:
  fixes b :: recovered_block
  assumes "tree_ok hdr rank t" "canonical_complete hdr t" "authentic hdr rank b" "known t (hash b) = None"
    and "known t (parent_hash b) = Some parent" "next_number (number parent) (number b)"
  shows "ancestor ((known t)(hash b \<mapsto> c)) (bnh_hash (et_canonical_head t)) a \<longleftrightarrow>
      ancestor (known t) (bnh_hash (et_canonical_head t)) a"
    and "bnh_hash (et_canonical_head t) \<noteq> hash b"
    and "\<not> ancestor (known t) (bnh_hash (et_canonical_head t)) (hash b)"
proof -
  have "grounded hdr t" using assms(2) by (simp add: canonical_complete_def)
  then show new: "\<not> ancestor (known t) (bnh_hash (et_canonical_head t)) (hash b)"
    using assms tree_okD(1) by (intro new_block_not_canonical_ancestor)
  then show "ancestor ((known t)(hash b \<mapsto> c)) (bnh_hash (et_canonical_head t)) a \<longleftrightarrow>
      ancestor (known t) (bnh_hash (et_canonical_head t)) a"
    using assms(4) by (rule ancestor_upd)
  show "bnh_hash (et_canonical_head t) \<noteq> hash b" using new by (auto intro: ancestor_refl)
qed

lemma canonical_ok_store:
  fixes b :: recovered_block and w :: "bytes list option"
  assumes t: "tree_ok hdr rank t" and c: "canonical_complete hdr t"
    and b: "authentic hdr rank b" "known t (hash b) = None"
    and par: "known t (parent_hash b) = Some parent" "next_number (number parent) (number b)"
  defines "t' \<equiv> t\<lparr>et_provider := rp_insert_block b w (et_provider t)\<rparr>"
  shows "canonical_ok t'"
proof -
  have ok: "canonical_ok t" and g: "grounded hdr t" using c by (simp_all add: canonical_complete_def)
  note ok = canonical_okD [OF ok] and anc = stored_ancestors [OF t c b par]
  have numb: "number (hdr (hash b)) = number b" using b(1) by (rule authenticD)
  show ?thesis
    unfolding canonical_ok_def
  proof (intro conjI allI impI)
    show "canonical (et_provider t') (number x) = Some h"
      if "ancestor (known t') (bnh_hash (et_canonical_head t')) h" "known t' h = Some x" for h x
      using that ok(1) anc by (auto simp: t'_def known_insert split: if_splits)
    show "number x = n" if "canonical (et_provider t') n = Some h" "known t' h = Some x" for n h x
      using that ok(3) groundedD(1) [OF g] numb by (auto simp: t'_def known_insert split: if_splits)
    show "at_number t' (bnh_hash (et_canonical_head t')) (bnh_number (et_canonical_head t'))"
      using ok(4) anc(2) by (simp add: t'_def at_number_def known_insert)
  qed (use ok(2,5) anc(2) in \<open>auto simp: t'_def known_insert\<close>)
qed

lemma grounded_store:
  fixes b :: recovered_block and w :: "bytes list option"
  assumes t: "tree_ok hdr rank t" and c: "canonical_complete hdr t"
    and b: "authentic hdr rank b" "known t (hash b) = None"
    and par: "known t (parent_hash b) = Some parent" "next_number (number parent) (number b)"
  defines "t' \<equiv> t\<lparr>et_provider := rp_insert_block b w (et_provider t)\<rparr>"
  shows "grounded hdr t'"
proof -
  have g: "grounded hdr t" using c by (simp add: canonical_complete_def)
  note anc = stored_ancestors [OF t c b par]
  show ?thesis
    unfolding grounded_def
  proof (intro conjI allI impI)
    show "n = number (hdr h)" if "canonical (et_provider t') n = Some h" for n h
      using that groundedD(1) [OF g] by (simp add: t'_def)
    fix r h x
    assume r: "ancestor (known t') (bnh_hash (et_canonical_head t')) r" "known t' r = None"
      and x: "known t' h = Some x"
    have "ancestor (known t) (bnh_hash (et_canonical_head t)) r" "known t r = None"
      using r anc(1) by (auto simp: t'_def known_insert split: if_splits)
    note below = groundedD(2) [OF g this]
    show "r = 0 \<or> number (hdr r) < number x"
    proof (cases "h = hash b")
      case True
      with x have "x = sealed_header.truncate b" by (simp add: t'_def known_insert)
      with below [OF par(1)] next_number_less [OF par(2)] show ?thesis by auto
    next
      case False
      with x have "known t h = Some x" by (simp add: t'_def known_insert)
      then show ?thesis by (rule below)
    qed
  qed
qed

lemma back_path_root:
  assumes "back_path get h xs f" "ancestor get h r" "get r = None"
  shows "ancestor get f r"
  using assms(1,2)
proof (induction xs arbitrary: h)
  case (Cons x xs)
  then have x: "get h = Some x" "back_path get (parent_hash x) xs f" by auto
  from Cons.prems(2) ancestor_Some [where get = get, OF x(1)] assms(3) x(1)
  have "ancestor get (parent_hash x) r" by auto
  with Cons.IH [OF x(2)] show ?case .
qed simp

text \<open>What an update does to the index: an entry is an old one, or belongs to the new chain.\<close>

lemma update_entry_cases:
  assumes t: "et_linked t" and u: "chain_to_head t h u"
    and c: "canonical (et_provider (et_on_canonical_chain_update u t)) n = Some v"
  shows "(\<exists>x. x \<in> set (fst (ncc_chains u)) \<and> number x = n \<and> hash x = v \<and> known t v = Some x) \<or>
    (canonical (et_provider t) n = Some v \<and>
     \<not> (\<exists>x\<in>set (snd (ncc_chains u)). number x = n \<and> hash x = v))"
proof (cases "map_of (rev (map (\<lambda>x. (number x, hash x)) (fst (ncc_chains u)))) n")
  case None
  with c show ?thesis by (auto simp: rp_on_chain_update_canonical split: if_splits)
next
  case (Some w)
  with c have "w = v" by (simp add: rp_on_chain_update_canonical)
  with map_of_rev_SomeD [OF Some] obtain x where
    x: "x \<in> set (rev (fst (ncc_chains u)))" "number x = n" "hash x = v" by auto
  obtain fork where "back_path (known t) h (rev (fst (ncc_chains u))) fork"
    by (rule chain_to_head_fork [OF u]) blast
  from back_path_split [OF t this x(1)] x show ?thesis by auto
qed

lemma grounded_update:
  assumes p: "stored_ok hdr rank (et_provider t)" and g: "grounded hdr t"
    and u: "chain_to_head t h u" and tip: "known t h = Some (ncc_tip u)"
  shows "grounded hdr (et_on_canonical_chain_update u t)"
  unfolding grounded_def
proof (intro conjI allI impI)
  have t: "et_linked t" using p by (rule stored_ok_linked)
  show "n = number (hdr v)" if "canonical (et_provider (et_on_canonical_chain_update u t)) n = Some v" for n v
    using update_entry_cases [OF t u that]
  proof (elim disjE exE conjE)
    fix x assume "number x = n" "known t v = Some x"
    with known_authentic(3) [OF p this(2)] show ?thesis by simp
  qed (rule groundedD(1) [OF g])
  fix r k x
  assume r: "ancestor (known (et_on_canonical_chain_update u t))
      (bnh_hash (et_canonical_head (et_on_canonical_chain_update u t))) r"
    "known (et_on_canonical_chain_update u t) r = None"
    and x: "known (et_on_canonical_chain_update u t) k = Some x"
  obtain fork where new: "back_path (known t) h (rev (fst (ncc_chains u))) fork"
    and old: "back_path (known t) (bnh_hash (et_canonical_head t)) (rev (snd (ncc_chains u))) fork"
    by (rule chain_to_head_fork [OF u]) blast
  have "hash (ncc_tip u) = h" using t tip by (rule tree.keyed)
  then have "ancestor (known t) fork r" using r back_path_root [OF new] by simp
  then have "ancestor (known t) (bnh_hash (et_canonical_head t)) r"
    by (rule ancestor_trans [OF back_path_ancestor [OF old]])
  with groundedD(2) [OF g] r(2) x show "r = 0 \<or> number (hdr r) < number x" by simp
qed

text \<open>Walking through fewer blocks.\<close>

lemma ancestor_submap:
  assumes "ancestor get' h a" "\<And>h x. get' h = Some x \<Longrightarrow> get h = Some x"
  shows "ancestor get h a"
  using assms(1) by (induction rule: ancestor.induct) (auto intro: ancestor.intros assms(2))

text \<open>What finalizing the stored canonical block \<open>b\<close> leaves.\<close>

lemma finalized_known:
  assumes "iteration_order ord" "tree_ok hdr rank t" "f \<noteq> 0"
    and "fmlookup (executed_blocks (et_provider t)) f = Some b"
    and "rp_sealed_header (rp_on_finalized ord f (et_provider t)) h = Some x"
  shows "known t h = Some x" "number b \<le> number x"
  using assms(5) known_finalized(1) [OF assms(1) stored_okD(1) [OF tree_okD(1) [OF assms(2)]] assms(3,4)]
  by (auto simp: not_less split: option.splits if_splits)

lemma finalized_below_head:
  assumes ok: "canonical_ok t" and f: "rp_is_hash_canonical (et_provider t) f"
    and b: "fmlookup (executed_blocks (et_provider t)) f = Some b"
  shows "number b \<le> bnh_number (et_canonical_head t)"
proof -
  have kb: "known t f = Some (sealed_header.truncate b)" by (simp add: rp_sealed_header_iff b)
  obtain n where n: "canonical (et_provider t) n = Some f" using f by (auto simp: rp_canonical_iff)
  have "n = number b" using canonical_okD(3) [OF ok n kb] by simp
  then show ?thesis
    using canonical_okD(2) [OF ok, of n] n by (cases "bnh_number (et_canonical_head t) < n") auto
qed

lemma canonical_ok_finalized:
  assumes it: "iteration_order ord" and t: "tree_ok hdr rank t" and "canonical_ok t"
    and f: "f \<noteq> 0" "rp_is_hash_canonical (et_provider t) f"
    and b: "fmlookup (executed_blocks (et_provider t)) f = Some b"
  shows "canonical_ok (t\<lparr>et_provider := rp_on_finalized ord f (et_provider t)\<rparr>)" (is "canonical_ok ?t")
proof -
  note ok = canonical_okD [OF assms(3)] and sub = finalized_known [OF it t f(1) b]
  note fin = known_finalized [OF it stored_okD(1) [OF tree_okD(1) [OF t]] f(1) b]
  have head: "number b \<le> bnh_number (et_canonical_head t)"
    using assms(3) f(2) b by (rule finalized_below_head)
  have low: "saturating_sub (number b) 256 \<le> number x" if "known ?t h = Some x" for h x
  proof -
    have "number b \<le> number x" using sub(2) that by simp
    with saturating_sub_le show ?thesis by (rule order_trans)
  qed
  show ?thesis
    unfolding canonical_ok_def
  proof (intro conjI allI impI)
    show "canonical (et_provider ?t) (number x) = Some h"
      if "ancestor (known ?t) (bnh_hash (et_canonical_head ?t)) h" "known ?t h = Some x" for h x
    proof -
      have "ancestor (known t) (bnh_hash (et_canonical_head t)) h"
        using ancestor_submap [OF that(1), of "known t"] sub(1) by simp
      then have "canonical (et_provider t) (number x) = Some h" using ok(1) sub(1) that(2) by simp
      with low [OF that(2)] show ?thesis by (simp add: fin(2) leD)
    qed
    show "number x = n" if "canonical (et_provider ?t) n = Some h" "known ?t h = Some x" for n h x
    proof (rule ok(3))
      show "canonical (et_provider t) n = Some h" using that(1) by (simp add: fin(2) split: if_splits)
      show "known t h = Some x" using that(2) sub(1) by simp
    qed
    show "at_number ?t (bnh_hash (et_canonical_head ?t)) (bnh_number (et_canonical_head ?t))"
      using sub(1) ok(4) unfolding at_number_def by simp
    show "bnh_number (et_canonical_head ?t) = 0" if "known ?t (bnh_hash (et_canonical_head ?t)) = None"
    proof (cases "known t (bnh_hash (et_canonical_head t))")
      case (Some x)
      with ok(4) have "number x = bnh_number (et_canonical_head t)" by (simp add: at_number_def)
      with head have "\<not> number x < number b" by simp
      with that Some show ?thesis by (simp add: fin(1))
    qed (use ok(5) in simp)
  qed (use ok(2) in \<open>simp add: fin(2)\<close>)
qed

lemma grounded_finalized:
  assumes it: "iteration_order ord" and t: "tree_ok hdr rank t" and g: "grounded hdr t"
    and f: "f \<noteq> 0" and b: "fmlookup (executed_blocks (et_provider t)) f = Some b"
  shows "grounded hdr (t\<lparr>et_provider := rp_on_finalized ord f (et_provider t)\<rparr>)" (is "grounded hdr ?t")
  unfolding grounded_def
proof (intro conjI allI impI)
  note fin = known_finalized [OF it stored_okD(1) [OF tree_okD(1) [OF t]] f b]
    and sub = finalized_known [OF it t f b]
  show "n = number (hdr h)" if "canonical (et_provider ?t) n = Some h" for n h
    using that groundedD(1) [OF g] by (simp add: fin(2) split: if_splits)
  fix r h x
  assume r: "ancestor (known ?t) (bnh_hash (et_canonical_head ?t)) r" "known ?t r = None"
    and x: "known ?t h = Some x"
  show "r = 0 \<or> number (hdr r) < number x"
  proof (cases "known t r")
    case None
    have "ancestor (known t) (bnh_hash (et_canonical_head t)) r"
      using ancestor_submap [OF r(1), of "known t"] sub(1) by simp
    moreover have "known t h = Some x" using x sub(1) by simp
    ultimately show ?thesis using None groundedD(2) [OF g] by blast
  next
    case (Some y)
    with r(2) have "number y < number b" by (simp add: fin(1) split: if_splits)
    also have "number b \<le> number x" using x sub(2) by simp
    finally show ?thesis using known_authentic(3) [OF tree_okD(1) [OF t] Some] by simp
  qed
qed

interpretation complete: chain_view hdr rank D "canonical_complete hdr :: ('d, 'l, 'c, 'f) engine_tree \<Rightarrow> bool"
  for hdr rank and D :: "('d, 'u, 't, 's, 'l, 'c, 'f, 'x) tree_deps"
proof
  fix t t' :: "('d, 'l, 'c, 'f) engine_tree"
  show "canonical_complete hdr t' = canonical_complete hdr t"
    if "rp_chain_state (et_provider t') = rp_chain_state (et_provider t)"
      "et_canonical_head t' = et_canonical_head t"
  proof -
    have "known t' = known t" by (rule ext) (simp add: rp_sealed_header_def that)
    then show ?thesis by (simp add: canonical_complete_def canonical_ok_def grounded_def at_number_def that)
  qed
next
  fix t :: "('d, 'l, 'c, 'f) engine_tree" and b :: recovered_block and w parent
  assume a: "tree_ok hdr rank t" "canonical_complete hdr t" "authentic hdr rank b" "known t (hash b) = None"
    "known t (parent_hash b) = Some parent" "next_number (number parent) (number b)"
  show "canonical_complete hdr (t\<lparr>et_provider := rp_insert_block b w (et_provider t)\<rparr>)"
    using canonical_ok_store [OF a] grounded_store [OF a] by (simp add: canonical_complete_def)
next
  fix t :: "('d, 'l, 'c, 'f) engine_tree" and h u
  assume a: "tree_ok hdr rank t" "canonical_complete hdr t"
    and u: "chain_to_head t h u" "known t h = Some (ncc_tip u)"
  have "canonical_ok t" "grounded hdr t" using a(2) by (simp_all add: canonical_complete_def)
  with canonical_ok_update [OF stored_ok_linked [OF tree_okD(1) [OF a(1)]] _ u]
    grounded_update [OF tree_okD(1) [OF a(1)] _ u]
  show "canonical_complete hdr (et_on_canonical_chain_update u t)" by (simp add: canonical_complete_def)
next
  fix t :: "('d, 'l, 'c, 'f) engine_tree" and f and ord :: "b256 fset \<Rightarrow> b256 list"
  assume a: "iteration_order ord" "tree_ok hdr rank t" "canonical_complete hdr t"
    "f \<noteq> 0 \<Longrightarrow> rp_is_hash_canonical (et_provider t) f"
  show "canonical_complete hdr (t\<lparr>et_provider := rp_on_finalized ord f (et_provider t)\<rparr>)"
  proof (cases "f = 0 \<or> fmlookup (executed_blocks (et_provider t)) f = None")
    case True
    with a(3) show ?thesis by (simp add: rp_on_finalized_unknown)
  next
    case False
    then obtain b where f: "f \<noteq> 0" and b: "fmlookup (executed_blocks (et_provider t)) f = Some b" by auto
    have "canonical_ok t" "grounded hdr t" using a(3) by (simp_all add: canonical_complete_def)
    with canonical_ok_finalized [OF a(1,2) _ f a(4) [OF f] b] grounded_finalized [OF a(1,2) _ f b]
    show ?thesis by (simp add: canonical_complete_def)
  qed
qed

section \<open>Canonical hashes are filed under the number of their header\<close>

text \<open>The weakest of the conditions, which every change to the index keeps.\<close>

definition canonical_filed :: "header_of \<Rightarrow> ('d, 'l, 'c, 'f) engine_tree \<Rightarrow> bool" where
  "canonical_filed hdr t \<longleftrightarrow> (\<forall>n h. canonical (et_provider t) n = Some h \<longrightarrow> n = number (hdr h))"

lemma canonical_filedD: "canonical_filed hdr t \<Longrightarrow> canonical (et_provider t) n = Some h \<Longrightarrow> n = number (hdr h)"
  unfolding canonical_filed_def by blast

lemma canonical_filed_update:
  assumes p: "stored_ok hdr rank (et_provider t)" and filed: "canonical_filed hdr t" and u: "chain_to_head t h u"
  shows "canonical_filed hdr (et_on_canonical_chain_update u t)"
  unfolding canonical_filed_def
proof (intro allI impI)
  fix n v assume "canonical (et_provider (et_on_canonical_chain_update u t)) n = Some v"
  from update_entry_cases [OF stored_ok_linked [OF p] u this] show "n = number (hdr v)"
    using known_authentic(3) [OF p] canonical_filedD [OF filed] by metis
qed

interpretation filed: chain_view hdr rank D "canonical_filed hdr :: ('d, 'l, 'c, 'f) engine_tree \<Rightarrow> bool"
  for hdr rank and D :: "('d, 'u, 't, 's, 'l, 'c, 'f, 'x) tree_deps"
proof
  fix t :: "('d, 'l, 'c, 'f) engine_tree" and f and ord :: "b256 fset \<Rightarrow> b256 list"
  assume a: "iteration_order ord" "tree_ok hdr rank t" "canonical_filed hdr t"
  show "canonical_filed hdr (t\<lparr>et_provider := rp_on_finalized ord f (et_provider t)\<rparr>)"
  proof (cases "f = 0 \<or> fmlookup (executed_blocks (et_provider t)) f = None")
    case True
    with a(3) show ?thesis by (simp add: rp_on_finalized_unknown)
  next
    case False
    then obtain b where "f \<noteq> 0" "fmlookup (executed_blocks (et_provider t)) f = Some b" by auto
    from known_finalized(2) [OF a(1) stored_okD(1) [OF tree_okD(1) [OF a(2)]] this] a(3)
    show ?thesis by (simp add: canonical_filed_def)
  qed
qed (auto simp: canonical_filed_def dest: tree_okD(1) intro: canonical_filed_update [unfolded canonical_filed_def, rule_format])

section \<open>Canonical hashes are ancestors of the head\<close>

text \<open>The hash \<open>k\<close> parents before \<open>h\<close>, by the headers alone.\<close>

definition hash_back :: "header_of \<Rightarrow> nat \<Rightarrow> b256 \<Rightarrow> b256" where
  "hash_back hdr k h = ((\<lambda>h. parent_hash (hdr h)) ^^ k) h"

lemma hash_back_0 [simp]: "hash_back hdr 0 h = h"
  by (simp add: hash_back_def)

lemma hash_back_Suc: "hash_back hdr (Suc k) h = hash_back hdr k (parent_hash (hdr h))"
  by (simp add: hash_back_def funpow_Suc_right del: funpow.simps)

lemma hash_back_add: "hash_back hdr (j + k) h = hash_back hdr k (hash_back hdr j h)"
  by (induction j arbitrary: h) (simp_all add: hash_back_Suc)

definition canonical_sound :: "header_of \<Rightarrow> ('d, 'l, 'c, 'f) engine_tree \<Rightarrow> bool" where
  "canonical_sound hdr t \<longleftrightarrow>
     (\<forall>n h. canonical (et_provider t) n = Some h \<longrightarrow>
        n \<le> bnh_number (et_canonical_head t) \<and>
        h = hash_back hdr (unat (bnh_number (et_canonical_head t)) - unat n)
              (bnh_hash (et_canonical_head t)))"

lemma back_path_hash_back:
  assumes p: "stored_ok hdr rank (et_provider t)" and "back_path (known t) h xs f"
  shows "hash_back hdr (length xs) h = f"
    and "i < length xs \<Longrightarrow> hash (xs ! i) = hash_back hdr i h"
  using assms(2)
proof (induction xs arbitrary: h i)
  case (Cons x xs)
  { case 1
    then have x: "known t h = Some x" "back_path (known t) (parent_hash x) xs f" by auto
    have "parent_hash (hdr h) = parent_hash x"
      using known_authentic(1,2) [OF p x(1)] authenticD(2) by metis
    with Cons.IH(1) [OF x(2)] show ?case by (simp add: hash_back_Suc)
  next
    case 2
    then have x: "known t h = Some x" "back_path (known t) (parent_hash x) xs f" by auto
    have "parent_hash (hdr h) = parent_hash x" "hash x = h"
      using known_authentic(1,2) [OF p x(1)] authenticD(2) by metis+
    with Cons.IH(2) [OF _ x(2), of "i - 1"] 2(1) show ?case
      by (cases i) (simp_all add: hash_back_Suc) }
qed auto

text \<open>The lowest block of a chain of stored blocks, and the number below it.\<close>

lemma back_path_lowest:
  assumes p: "stored_ok hdr rank (et_provider t)" and path: "back_path (known t) h xs f" and "xs \<noteq> []"
    and n: "at_number t h n"
  shows "unat (number (last xs)) + length xs = Suc (unat n)" "parent_hash (last xs) = f" "validated hdr (last xs)"
proof -
  let ?x = "last xs"
  have t: "et_linked t" using p by (rule stored_ok_linked)
  show "parent_hash ?x = f" using assms(3) path
    by (induction xs arbitrary: h) (auto split: if_splits)
  show "unat (number ?x) + length xs = Suc (unat n)"
    using back_path_numbers [OF t path _ n, of "length xs - 1"] assms(3)
    by (simp add: last_conv_nth flip: length_greater_0_conv)
  have "known t (hash ?x) = Some ?x" using back_path_split [OF t path] assms(3) by simp
  then obtain y where "fmlookup (executed_blocks (et_provider t)) (hash ?x) = Some y"
    "?x = sealed_header.truncate y" by (rule known_cases)
  with stored_okD(3) [OF p] show "validated hdr ?x" by (fastforce simp: validated_def)
qed

lemma back_path_fork_number:
  assumes p: "stored_ok hdr rank (et_provider t)" and path: "back_path (known t) h xs f"
    and n: "at_number t h n" "xs = [] \<Longrightarrow> n = number (hdr h)"
  shows "f \<noteq> 0 \<Longrightarrow> unat n = unat (number (hdr f)) + length xs"
    and "f = 0 \<Longrightarrow> xs \<noteq> [] \<Longrightarrow> length xs = Suc (unat n)"
proof -
  show "unat n = unat (number (hdr f)) + length xs" if "f \<noteq> 0"
  proof (cases "xs = []")
    case True
    with path n(2) show ?thesis by simp
  next
    case False
    note low = back_path_lowest [OF p path False n(1)]
    have "unat (number (last xs)) = Suc (unat (number (hdr f)))"
      using low(2,3) that by (intro next_number_unat) (simp add: validated_def)
    with low(1) show ?thesis by simp
  qed
  show "length xs = Suc (unat n)" if "f = 0" "xs \<noteq> []"
    using back_path_lowest [OF p path that(2) n(1)] that(1) by (simp add: validated_def)
qed

text \<open>An entry that survives an update lies on the part the two chains share.\<close>

lemma surviving_entry:
  assumes t: "tree_ok hdr rank t" and sound: "canonical_sound hdr t"
    and old: "back_path (known t) (bnh_hash (et_canonical_head t)) (rev old) fork"
    and c: "canonical (et_provider t) n = Some v" "\<not> (\<exists>x\<in>set old. number x = n \<and> hash x = v)"
  shows "fork \<noteq> 0 \<and> unat n \<le> unat (number (hdr fork)) \<and>
    v = hash_back hdr (unat (number (hdr fork)) - unat n) fork"
proof -
  let ?N = "bnh_number (et_canonical_head t)" and ?head = "bnh_hash (et_canonical_head t)"
  note p = tree_okD(1) [OF t] and head = tree_okD(2) [OF t]
  have at: "at_number t ?head ?N" using t by (rule tree_ok_at_number)
  have n: "n \<le> ?N" and v: "v = hash_back hdr (unat ?N - unat n) ?head"
    using sound c(1) by (auto simp: canonical_sound_def)
  have far: "length old \<le> unat ?N - unat n"
  proof (rule ccontr)
    let ?i = "unat ?N - unat n"
    assume "\<not> length old \<le> ?i"
    then have i: "?i < length (rev old)" by simp
    have "unat (number (rev old ! ?i)) + ?i = unat ?N"
      using stored_ok_linked [OF p] old i at by (rule back_path_numbers)
    then have "number (rev old ! ?i) = n" using n by (simp add: word_le_nat_alt word_unat_eq_iff)
    moreover have "hash (rev old ! ?i) = v" using back_path_hash_back(2) [OF p old i] v by simp
    moreover have "rev old ! ?i \<in> set old" using nth_mem [OF i] by simp
    ultimately show False using c(2) by blast
  qed
  note num = back_path_fork_number [OF p old at head_okD(1) [OF head]]
  have fork: "fork \<noteq> 0"
  proof
    assume f: "fork = 0"
    with old head_okD(2) [OF head] have "rev old \<noteq> []" by auto
    from num(2) [OF f this] far show False by simp
  qed
  have "unat ?N - unat n = length (rev old) + (unat (number (hdr fork)) - unat n)"
    using num(1) [OF fork] far n by (simp add: word_le_nat_alt)
  then have "v = hash_back hdr (unat (number (hdr fork)) - unat n) fork"
    using v back_path_hash_back(1) [OF p old] by (simp only: hash_back_add)
  with fork num(1) [OF fork] far n show ?thesis by (simp add: word_le_nat_alt)
qed

lemma canonical_sound_update:
  assumes t: "tree_ok hdr rank t" and sound: "canonical_sound hdr t"
    and u: "chain_to_head t h u" and tip: "known t h = Some (ncc_tip u)"
  shows "canonical_sound hdr (et_on_canonical_chain_update u t)"
proof -
  note p = tree_okD(1) [OF t]
  have l: "et_linked t" using p by (rule stored_ok_linked)
  obtain fork where new: "back_path (known t) h (rev (fst (ncc_chains u))) fork"
    and old: "back_path (known t) (bnh_hash (et_canonical_head t)) (rev (snd (ncc_chains u))) fork"
    by (rule chain_to_head_fork [OF u]) blast
  let ?N = "number (ncc_tip u)"
  have h: "hash (ncc_tip u) = h" "number (hdr h) = ?N" using known_authentic [OF p tip] by simp_all
  have at: "at_number t h ?N" using tip by (simp add: at_number_def)
  have "n \<le> ?N \<and> v = hash_back hdr (unat ?N - unat n) h"
    if c: "canonical (et_provider (et_on_canonical_chain_update u t)) n = Some v" for n v
    using update_entry_cases [OF l u c]
  proof (elim disjE exE conjE)
    fix x assume x: "x \<in> set (fst (ncc_chains u))" "number x = n" "hash x = v"
    then obtain i where i: "i < length (rev (fst (ncc_chains u)))" "rev (fst (ncc_chains u)) ! i = x"
      by (metis in_set_conv_nth set_rev)
    from back_path_numbers [OF l new i(1) at] i(2) x(2) have n: "unat n + i = unat ?N" by simp
    then have "unat ?N - unat n = i" by simp
    with n back_path_hash_back(2) [OF p new i(1)] i(2) x(3) show ?thesis by (auto simp: word_le_nat_alt)
  next
    assume "canonical (et_provider t) n = Some v"
      "\<not> (\<exists>x\<in>set (snd (ncc_chains u)). number x = n \<and> hash x = v)"
    from surviving_entry [OF t sound old this] have fork: "fork \<noteq> 0" "unat n \<le> unat (number (hdr fork))"
      "v = hash_back hdr (unat (number (hdr fork)) - unat n) fork" by blast+
    have N: "unat ?N = unat (number (hdr fork)) + length (rev (fst (ncc_chains u)))"
      using back_path_fork_number(1) [OF p new at _ fork(1)] h(2) by simp
    then have "unat ?N - unat n = length (rev (fst (ncc_chains u))) + (unat (number (hdr fork)) - unat n)"
      using fork(2) by simp
    with back_path_hash_back(1) [OF p new] fork(3) have "v = hash_back hdr (unat ?N - unat n) h"
      by (simp only: hash_back_add)
    with fork(2) N show ?thesis by (simp add: word_le_nat_alt)
  qed
  with h(1) show ?thesis by (simp add: canonical_sound_def)
qed

interpretation sound: chain_view hdr rank D "canonical_sound hdr :: ('d, 'l, 'c, 'f) engine_tree \<Rightarrow> bool"
  for hdr rank and D :: "('d, 'u, 't, 's, 'l, 'c, 'f, 'x) tree_deps"
proof
  fix t :: "('d, 'l, 'c, 'f) engine_tree" and f and ord :: "b256 fset \<Rightarrow> b256 list"
  assume a: "iteration_order ord" "tree_ok hdr rank t" "canonical_sound hdr t"
  show "canonical_sound hdr (t\<lparr>et_provider := rp_on_finalized ord f (et_provider t)\<rparr>)"
  proof (cases "f = 0 \<or> fmlookup (executed_blocks (et_provider t)) f = None")
    case True
    with a(3) show ?thesis by (simp add: rp_on_finalized_unknown)
  next
    case False
    then obtain b where "f \<noteq> 0" "fmlookup (executed_blocks (et_provider t)) f = Some b" by auto
    from known_finalized(2) [OF a(1) stored_okD(1) [OF tree_okD(1) [OF a(2)]] this] a(3)
    show ?thesis by (simp add: canonical_sound_def)
  qed
qed (rule canonical_sound_update | simp add: canonical_sound_def)+

section \<open>The index is exact on stored blocks\<close>

text \<open>Walking back from the head along the headers stays among the stored blocks down to the number of
  any stored block.\<close>

lemma stored_path_down:
  assumes t: "tree_ok hdr rank t" and g: "grounded hdr t" and x: "known t h = Some x"
    and "i + unat (number x) \<le> unat (bnh_number (et_canonical_head t))"
  shows "\<exists>xs. length xs = i \<and>
    back_path (known t) (bnh_hash (et_canonical_head t)) xs (hash_back hdr i (bnh_hash (et_canonical_head t)))"
  using assms(4)
proof (induction i)
  case (Suc i)
  let ?head = "bnh_hash (et_canonical_head t)" and ?N = "bnh_number (et_canonical_head t)"
  let ?a = "hash_back hdr i ?head"
  note p = tree_okD(1) [OF t] and head = head_okD [OF tree_okD(2) [OF t]]
  obtain xs where xs: "length xs = i" "back_path (known t) ?head xs ?a" using Suc by auto
  note num = back_path_fork_number [OF p xs(2) tree_ok_at_number [OF t] head(1)]
  obtain y where y: "known t ?a = Some y"
  proof (cases "known t ?a")
    case None
    have "?a \<noteq> 0" using num(2) xs head(2) Suc.prems by (cases "xs = []") auto
    then have "unat ?N = unat (number (hdr ?a)) + i" using num(1) xs(1) by simp
    moreover have "number (hdr ?a) < number x"
      using groundedD(2) [OF g back_path_ancestor [OF xs(2)] None x] \<open>?a \<noteq> 0\<close> by simp
    ultimately show thesis using Suc.prems by (simp add: word_less_nat_alt)
  qed
  have "parent_hash y = hash_back hdr (Suc i) ?head"
    using known_authentic(1,2) [OF p y] authenticD(2) hash_back_add [of hdr i 1 ?head] by (metis hash_back_0 hash_back_Suc One_nat_def Suc_eq_plus1)
  then have "back_path (known t) ?head (xs @ [y]) (hash_back hdr (Suc i) ?head)"
    using xs(2) y by (auto simp: back_path_append)
  with xs(1) show ?case by (intro exI [of _ "xs @ [y]"]) simp
qed (auto intro: exI [of _ "[]"])

text \<open>A stored block is in the index exactly when it is an ancestor of the head through stored blocks.\<close>

lemma canonical_exact:
  assumes t: "tree_ok hdr rank t" and c: "canonical_complete hdr t" "canonical_sound hdr t"
    and x: "known t h = Some x"
  shows "canonical (et_provider t) (number x) = Some h \<longleftrightarrow> ancestor (known t) (bnh_hash (et_canonical_head t)) h"
proof
  let ?head = "bnh_hash (et_canonical_head t)" and ?N = "bnh_number (et_canonical_head t)"
  assume "canonical (et_provider t) (number x) = Some h"
  with c(2) have n: "unat (number x) \<le> unat ?N" "h = hash_back hdr (unat ?N - unat (number x)) ?head"
    by (auto simp: canonical_sound_def word_le_nat_alt)
  from c(1) have "grounded hdr t" by (simp add: canonical_complete_def)
  from stored_path_down [OF t this x, of "unat ?N - unat (number x)"] n
  show "ancestor (known t) ?head h" by (auto dest: back_path_ancestor)
next
  assume "ancestor (known t) (bnh_hash (et_canonical_head t)) h"
  with c(1) x show "canonical (et_provider t) (number x) = Some h"
    by (intro canonical_okD(1)) (simp_all add: canonical_complete_def)
qed

text \<open>(C15) Making a head canonical keeps the canonical index consistent: it returns, and afterwards a
  stored block is canonical under its number exactly when it is an ancestor of the head through
  stored blocks, every canonical hash, of a stored block or not, is the ancestor of the head at that
  height by the headers, and no number above the head has one. A target that connects to the
  canonical chain is the head afterwards; in any case the target is the head or nothing changed. The
  tree before must be consistent in the same sense, with a chain of the head that ends below every
  stored block.\<close>

theorem et_make_canonical_consistent:
  assumes "tree_ok hdr rank t" "parent_num_hash_spec (pnh D)" "canonical_complete hdr t" "canonical_sound hdr t"
  shows "\<exists>t'. et_make_canonical D target t = Some t' \<and> canonical_complete hdr t' \<and> known t' = known t \<and>
    (\<forall>h x. known t' h = Some x \<longrightarrow>
       (canonical (et_provider t') (number x) = Some h \<longleftrightarrow>
        ancestor (known t') (bnh_hash (et_canonical_head t')) h)) \<and>
    (\<forall>n h. canonical (et_provider t') n = Some h \<longrightarrow> n \<le> bnh_number (et_canonical_head t') \<and>
       h = hash_back hdr (unat (bnh_number (et_canonical_head t')) - unat n) (bnh_hash (et_canonical_head t'))) \<and>
    (connects t target \<longrightarrow> bnh_hash (et_canonical_head t') = target) \<and>
    (bnh_hash (et_canonical_head t') = target \<or> t' = t)"
proof -
  have l: "et_linked t" by (rule stored_ok_linked [OF tree_okD(1) [OF assms(1)]])
  obtain r where r: "et_on_new_head D t target = Some r"
    and ok: "case r of None \<Rightarrow> \<not> connects t target
       | Some u \<Rightarrow> chain_to_head t target u \<and> known t target = Some (last (ncc_new u))"
    using et_on_new_head_result [OF l assms(2) tree_ok_at_number [OF assms(1)], of target] by blast
  obtain t' where t': "et_make_canonical D target t = Some t'" "tree_ok hdr rank t'" "canonical_complete hdr t'"
    "canonical_sound hdr t'" "known t' = known t" "connects t target \<longrightarrow> bnh_hash (et_canonical_head t') = target"
    "bnh_hash (et_canonical_head t') = target \<or> t' = t"
  proof (cases r)
    case None
    with r ok assms that show thesis by (simp add: et_make_canonical_def)
  next
    case (Some u)
    with ok have u: "chain_to_head t target u" "known t target = Some (ncc_tip u)"
      by (auto simp: ncc_tip_def)
    have "hash (ncc_tip u) = target" using l u(2) by (rule tree.keyed)
    with complete.J_update [OF assms(1,3) u] canonical_sound_update [OF assms(1,4) u] tree_ok_update [OF assms(1) u(2)]
      r Some that show thesis by (simp add: et_make_canonical_def)
  qed
  show ?thesis
    using t'(1,3,5-7) canonical_exact [OF t'(2-4)] t'(4) [unfolded canonical_sound_def] by blast
qed

text \<open>The witness is a reorg, from block 8 to block 9 on top of block 7.\<close>

definition fork_hdr :: header_of where
  "fork_hdr h = header.truncate (if h = 9 then sample_block 9 7 3 else if h = 8 then sample_block 8 7 3
     else if h = 7 then sample_block 7 5 2 else sample_block 5 0 1)"

lemma sample_tree_consistent:
  "tree_ok fork_hdr unat sample_tree" "canonical_complete fork_hdr sample_tree" "canonical_sound fork_hdr sample_tree"
proof -
  have "cs_wf (rp_chain_state sample_provider)"
    unfolding sample_provider_def rp_insert_block_def rp_insert_canonical_hash_def rp_new_def
    by (simp, intro wf_intros) (simp_all add: cs_wf_default no_hash_clash_def view_simps, simp_all add: cs_default_def)
  moreover have "fmlookup (executed_blocks sample_provider) h =
      (if h = 9 then Some (sample_block 9 7 3) else if h = 8 then Some (sample_block 8 7 3)
       else if h = 7 then Some (sample_block 7 5 2) else None)" for h
    by (simp add: sample_provider_def rp_insert_block_def rp_insert_canonical_hash_def rp_new_def view_simps)
       (simp add: cs_default_def)
  ultimately have "stored_ok fork_hdr unat sample_provider"
    by (auto simp: stored_ok_def authentic_def validated_def next_number_def fork_hdr_def split: if_splits)
  then show "tree_ok fork_hdr unat sample_tree" by (simp add: tree_ok_def head_ok_def fork_hdr_def)
  have "grounded fork_hdr sample_tree"
    unfolding grounded_def by (auto simp: sample_ancestors sample_known sample_canonical fork_hdr_def split: if_splits)
  with sample_tree_canonical_ok show "canonical_complete fork_hdr sample_tree" by (simp add: canonical_complete_def)
  show "canonical_sound fork_hdr sample_tree"
    by (auto simp: canonical_sound_def sample_canonical hash_back_Suc fork_hdr_def split: if_splits)
qed

theorem et_make_canonical_consistent_witness:
  "\<exists>t'. et_make_canonical sample_deps 9 sample_tree = Some t' \<and> bnh_hash (et_canonical_head t') = 9 \<and>
     canonical (et_provider t') 3 = Some 9"
proof -
  have nine: "known sample_tree 9 = Some (sealed_header.truncate (sample_block 9 7 3))" by (simp add: sample_known)
  have pnh: "parent_num_hash_spec (pnh sample_deps)" by (simp add: plain_parent_num_hash_spec)
  obtain t' where t': "et_make_canonical sample_deps 9 sample_tree = Some t'" "bnh_hash (et_canonical_head t') = 9"
    "known t' = known sample_tree"
    "\<forall>h x. known t' h = Some x \<longrightarrow> (canonical (et_provider t') (number x) = Some h \<longleftrightarrow> ancestor (known t') 9 h)"
    using et_make_canonical_consistent [OF sample_tree_consistent(1) pnh sample_tree_consistent(2,3), of 9] sample_connects
    by auto
  from t'(4) nine have "canonical (et_provider t') 3 = Some 9"
    unfolding t'(3) by (fastforce intro: ancestor_refl)
  with t'(1,2) show ?thesis by blast
qed

section \<open>Stored blocks were executed\<close>

text \<open>Every stored block was executed, but for given trusted ones.\<close>

definition blocks_executed ::
  "header_of \<Rightarrow> ('d, 'u, 't, 's, 'l, 'c, 'f, 'x) tree_deps \<Rightarrow> b256 set \<Rightarrow> ('d, 'l, 'c, 'f) engine_tree \<Rightarrow> bool" where
  "blocks_executed hdr D anchors t \<longleftrightarrow>
     (\<forall>h b. fmlookup (executed_blocks (et_provider t)) h = Some b \<longrightarrow> h \<in> anchors \<or> executed hdr D b)"

lemma executed_blocks_insert [simp]:
  "executed_blocks (rp_insert_block b w p) = fmupd (hash b) b (executed_blocks p)"
  by (simp add: rp_insert_block_def view_simps)

lemma executed_blocks_finalized:
  assumes "iteration_order ord" "cs_wf (rp_chain_state p)"
    and "fmlookup (executed_blocks (rp_on_finalized ord f p)) h = Some b"
  shows "fmlookup (executed_blocks p) h = Some b"
proof (cases "f = 0")
  case True
  with assms(3) show ?thesis by (simp add: rp_on_finalized_def)
next
  case False
  with assms(3) cs_finalized_subset [OF assms(1,2), of f] show ?thesis
    by (auto simp: rp_on_finalized_def fmsubset_alt_def fmpred_iff)
qed

interpretation exec_view: chain_view hdr rank D "blocks_executed hdr D anchors"
  for hdr rank and D :: "('d, 'u, 't, 's, 'l, 'c, 'f, 'x) tree_deps" and anchors
proof
  fix t :: "('d, 'l, 'c, 'f) engine_tree" and f and ord :: "b256 fset \<Rightarrow> b256 list"
  assume a: "iteration_order ord" "tree_ok hdr rank t" "blocks_executed hdr D anchors t"
  show "blocks_executed hdr D anchors (t\<lparr>et_provider := rp_on_finalized ord f (et_provider t)\<rparr>)"
    using executed_blocks_finalized [OF a(1) stored_okD(1) [OF tree_okD(1) [OF a(2)]]] a(3)
    unfolding blocks_executed_def by simp
qed (auto simp: blocks_executed_def)

end
