(* ===== verification/Launch.thy ===== *)
theory Launch
  imports Engine_Tree
begin

text \<open>
  The part of the launcher that prepares the node's state, \<open>src/bin/ress/src/launch.rs\<close>: the
  genesis block, its canonical hash and its bytecodes go into a new provider. The rest of the
  file opens files and sockets and spawns tasks over library code.
\<close>

text \<open>\<open>RecoveredBlock::new_sealed\<close> of \<open>SealedBlock::from_parts_unchecked\<close>: the genesis header with
  the default body, the hash of the chain specification and no senders.\<close>

definition genesis_block :: "chain_spec \<Rightarrow> recovered_block" where
  "genesis_block spec =
     (let g = genesis_header spec
      in \<lparr>parent_hash = parent_hash g, number = number g, state_root = state_root g,
          difficulty = difficulty g, header_rest = header_rest g, hash = genesis_hash spec,
          body = \<lparr>transactions = [], body_rest = []\<rparr>, senders = []\<rparr>)"

definition launch_insert_genesis :: "'d ress_provider \<Rightarrow> 'd ress_provider" where
  "launch_insert_genesis p =
     (let spec = rp_chain_spec p
      in rp_insert_canonical_hash 0 (genesis_hash spec) (rp_insert_block (genesis_block spec) None p))"

text \<open>The loop over the accounts of the genesis allocation; the first database error ends it.\<close>

fun launch_insert_codes ::
  "codec \<Rightarrow> ('d, 't) db_ops \<Rightarrow> bytes option list \<Rightarrow> 'd ress_provider \<Rightarrow> (db_error + unit) \<times> 'd ress_provider" where
  "launch_insert_codes c ops [] p = (Inr (), p)"
| "launch_insert_codes c ops (None # allocs) p = launch_insert_codes c ops allocs p"
| "launch_insert_codes c ops (Some code # allocs) p =
     (case rp_insert_bytecode ops (keccak256 c code) (new_raw c code) p of
        (Inl e, p) \<Rightarrow> (Inl e, p)
      | (Inr _, p) \<Rightarrow> launch_insert_codes c ops allocs p)"

definition launch_provider ::
  "codec \<Rightarrow> ('d, 't) db_ops \<Rightarrow> chain_spec \<Rightarrow> 'd \<Rightarrow> (db_error + unit) \<times> 'd ress_provider" where
  "launch_provider c ops spec d =
     launch_insert_codes c ops (genesis_codes spec) (launch_insert_genesis (rp_new spec d))"

section \<open>Lemmas\<close>

lemma genesis_block_sel [simp]:
  "hash (genesis_block spec) = genesis_hash spec"
  "parent_hash (genesis_block spec) = parent_hash (genesis_header spec)"
  "number (genesis_block spec) = number (genesis_header spec)"
  "header.truncate (genesis_block spec) = genesis_header spec"
  by (simp_all add: genesis_block_def Let_def header.defs)

lemma rp_insert_bytecode_frame [simp]:
  "rp_chain_state (snd (rp_insert_bytecode ops h c p)) = rp_chain_state p"
  "rp_chain_spec (snd (rp_insert_bytecode ops h c p)) = rp_chain_spec p"
  by (simp_all add: rp_insert_bytecode_def case_prod_beta)

lemma launch_insert_codes_frame [simp]:
  "rp_chain_state (snd (launch_insert_codes c ops allocs p)) = rp_chain_state p"
  "rp_chain_spec (snd (launch_insert_codes c ops allocs p)) = rp_chain_spec p"
proof (induction c ops allocs p rule: launch_insert_codes.induct)
  case (3 c ops code allocs p)
  have step: "rp_chain_state (snd (launch_insert_codes c ops (Some code # allocs) p)) = rp_chain_state p \<and>
      rp_chain_spec (snd (launch_insert_codes c ops (Some code # allocs) p)) = rp_chain_spec p"
  proof (cases "rp_insert_bytecode ops (keccak256 c code) (new_raw c code) p")
    case (Pair r q)
    then have "rp_chain_state q = rp_chain_state p" "rp_chain_spec q = rp_chain_spec p"
      by (metis rp_insert_bytecode_frame snd_conv)+
    with Pair 3 [OF Pair [symmetric]] show ?thesis by (cases r) simp_all
  qed
  { case 1 show ?case using step by blast
  next
    case 2 show ?case using step by blast }
qed simp_all

lemma launch_provider_views:
  "executed_blocks (snd (launch_provider c ops spec d)) = fmupd (genesis_hash spec) (genesis_block spec) fmempty"
  "canonical (snd (launch_provider c ops spec d)) = [0 \<mapsto> genesis_hash spec]"
  "rp_chain_spec (snd (launch_provider c ops spec d)) = spec"
  by (simp_all add: launch_provider_def launch_insert_genesis_def rp_new_def Let_def
      rp_insert_canonical_hash_def rp_insert_block_def view_simps)
     (auto simp: cs_default_def)

lemma launch_provider_wf: "cs_wf (rp_chain_state (snd (launch_provider c ops spec d)))"
  by (simp add: launch_provider_def launch_insert_genesis_def rp_new_def Let_def
      rp_insert_canonical_hash_def rp_insert_block_def)
     (intro wf_intros cs_wf_default, simp add: no_hash_clash_def cs_default_def)

end
