(* ===== verification/Tree_Machine.thy ===== *)
theory Tree_Machine
  imports Canonical_Index Launch
begin

text \<open>
  The engine tree as a machine: the launcher makes the first state, and a step is one call of a
  handler, or one of the direct changes the consensus engine makes to the tree: to its buffer,
  tracker and database, and the sync to a finalized block. Which blocks the consensus layer may name
  as finalized is the parameter \<open>trust\<close>, of the state and the hash of the block. The invariant of
  \<open>Tree_Invariant\<close> holds in every reachable state whatever \<open>trust\<close> is; how much is known of the
  canonical index depends on it.
\<close>

section \<open>The sync to a finalized block\<close>

text \<open>What \<open>on_download_outcome\<close> does to the tree when a finalized block arrives: the block becomes the
  head and is stored, without being executed, and it and the ancestors that came with it become
  canonical. Nothing is taken out of the index.\<close>

definition et_sync_finalized ::
  "recovered_block \<Rightarrow> sealed_header list \<Rightarrow> ('d, 'l, 'c, 'f) engine_tree \<Rightarrow> ('d, 'l, 'c, 'f) engine_tree" where
  "et_sync_finalized recovered ancestors t =
     (let t = et_set_canonical_head (num_hash recovered) t;
          p = rp_insert_canonical_hash (number recovered) (hash recovered) (et_provider t);
          p = rp_insert_block recovered None p;
          p = fold (\<lambda>(header :: sealed_header). rp_insert_canonical_hash (number header) (hash header)) ancestors p
      in t\<lparr>et_provider := p\<rparr>)"

text \<open>The ancestors that come with a finalized block are its ancestors, in order and numbered so.\<close>

definition header_ancestors :: "header_of \<Rightarrow> b256 \<Rightarrow> sealed_header list \<Rightarrow> bool" where
  "header_ancestors hdr h xs \<longleftrightarrow> (\<forall>i<length xs.
     hash (xs ! i) = hash_back hdr (Suc i) h \<and> header.truncate (xs ! i) = hdr (hash (xs ! i)) \<and>
     unat (number (xs ! i)) + Suc i = unat (number (hdr h)))"

lemma rp_insert_canonicals:
  "rp_chain_state (fold (\<lambda>(h :: sealed_header). rp_insert_canonical_hash (number h) (hash h)) hs p) =
     fold (\<lambda>h. cs_insert_canonical_hash (number h) (hash h)) hs (rp_chain_state p)"
  by (induction hs arbitrary: p) (simp_all add: rp_insert_canonical_hash_def)

lemma stored_ok_canonical:
  "stored_ok hdr rank p \<Longrightarrow> stored_ok hdr rank (rp_insert_canonical_hash n h p)"
  by (simp add: stored_ok_def rp_insert_canonical_hash_def cs_wf_canonical view_simps)

lemma stored_ok_canonicals:
  "stored_ok hdr rank p \<Longrightarrow>
   stored_ok hdr rank (fold (\<lambda>(h :: sealed_header). rp_insert_canonical_hash (number h) (hash h)) hs p)"
  by (induction hs arbitrary: p) (simp_all add: stored_ok_canonical)

lemma executed_blocks_canonical [simp]:
  "executed_blocks (rp_insert_canonical_hash n h p) = executed_blocks p"
  by (simp add: rp_insert_canonical_hash_def view_simps)

lemma executed_blocks_canonicals [simp]:
  "executed_blocks (fold (\<lambda>(h :: sealed_header). rp_insert_canonical_hash (number h) (hash h)) hs p) =
     executed_blocks p"
  by (induction hs arbitrary: p) simp_all

lemma sync_finalized_views [simp]:
  "et_canonical_head (et_sync_finalized b xs t) = \<lparr>bnh_number = number b, bnh_hash = hash b\<rparr>"
  "et_buffer (et_sync_finalized b xs t) = et_buffer t" "et_invalid (et_sync_finalized b xs t) = et_invalid t"
  "executed_blocks (et_provider (et_sync_finalized b xs t)) = fmupd (hash b) b (executed_blocks (et_provider t))"
  by (simp_all add: et_sync_finalized_def et_set_canonical_head_def num_hash_def Let_def)

lemma sync_finalized_canonical:
  "canonical (et_provider (et_sync_finalized b xs t)) n =
     (case map_of (rev (map (\<lambda>x. (number x, hash x)) xs)) n of
        Some h \<Rightarrow> Some h
      | None \<Rightarrow> if n = number b then Some (hash b) else canonical (et_provider t) n)"
  by (simp add: et_sync_finalized_def et_set_canonical_head_def Let_def rp_insert_canonicals fold_insert_canonical
      rp_insert_block_def rp_insert_canonical_hash_def view_simps split: option.split)

text \<open>An entry of the index afterwards is the block, one of the ancestors, or was there before.\<close>

lemma sync_entry_cases:
  assumes "canonical (et_provider (et_sync_finalized b xs t)) n = Some v"
  obtains (block) "n = number b" "v = hash b"
  | (above) i where "i < length xs" "n = number (xs ! i)" "v = hash (xs ! i)"
  | (old) "canonical (et_provider t) n = Some v"
proof (cases "map_of (rev (map (\<lambda>x. (number x, hash x)) xs)) n")
  case None
  with assms have "if n = number b then v = hash b else canonical (et_provider t) n = Some v"
    by (simp add: sync_finalized_canonical split: if_splits)
  with block old show thesis by presburger
next
  case (Some w)
  with assms have "w = v" by (simp add: sync_finalized_canonical)
  with map_of_rev_SomeD [OF Some] obtain x where x: "x \<in> set xs" "number x = n" "hash x = v" by auto
  then obtain i where "i < length xs" "xs ! i = x" by (meson in_set_conv_nth)
  with x above [of i] show thesis by simp
qed

text \<open>The hashes above a finalized block off the chain of the head stay canonical.\<close>

lemma sync_leaves_abandoned:
  assumes "canonical (et_provider t) n = Some v" "number b < n" "\<forall>x\<in>set xs. number x < number b"
  shows "canonical (et_provider (et_sync_finalized b xs t)) n = Some v \<and>
    bnh_number (et_canonical_head (et_sync_finalized b xs t)) < n"
proof -
  have "map_of (rev (map (\<lambda>x. (number x, hash x)) xs)) n = None"
    using assms(2,3) by (auto simp: map_of_eq_None_iff dest: less_trans)
  with assms(1,2) show ?thesis by (auto simp: sync_finalized_canonical)
qed

lemma tree_ok_sync:
  assumes "tree_ok hdr rank t" "authentic hdr rank b" "validated hdr b"
  shows "tree_ok hdr rank (et_sync_finalized b xs t)"
proof -
  have "stored_ok hdr rank (et_provider (et_sync_finalized b xs t))"
    using stored_ok_canonicals [OF stored_ok_insert [OF stored_ok_canonical [OF tree_okD(1) [OF assms(1)]] assms(2,3)]]
    by (simp add: et_sync_finalized_def et_set_canonical_head_def Let_def)
  moreover have "head_ok hdr (et_sync_finalized b xs t)"
    using authenticD(1,4) [OF assms(2)] by (simp add: head_ok_def)
  ultimately show ?thesis by (simp add: tree_ok_def)
qed

section \<open>Steps\<close>

inductive et_step ::
  "header_of \<Rightarrow> hash_rank \<Rightarrow> ('d, 'u, 't, 's, 'l, 'c, 'f, 'x) tree_deps
     \<Rightarrow> (('d, 'l, 'c, 'f) engine_tree \<Rightarrow> b256 \<Rightarrow> bool)
     \<Rightarrow> ('d, 'l, 'c, 'f) engine_tree \<Rightarrow> ('d, 'l, 'c, 'f) engine_tree \<Rightarrow> bool"
  for hdr rank D trust where
  et_step_payload: "et_on_new_payload D payload w t = Some (r, t') \<Longrightarrow> et_step hdr rank D trust t t'"
| et_step_downloaded: "authentic hdr rank b \<Longrightarrow> et_on_downloaded_block D b wit t = Some (r, t')
    \<Longrightarrow> et_step hdr rank D trust t t'"
| et_step_forkchoice: "et_on_forkchoice_updated D state attrs version t = Some (fr, t')
    \<Longrightarrow> et_step hdr rank D trust t t'"
| et_step_canonical: "et_make_canonical D h t = Some t' \<Longrightarrow> et_step hdr rank D trust t t'"
| et_step_sync: "authentic hdr rank b \<Longrightarrow> validated hdr b \<Longrightarrow> header_ancestors hdr (hash b) xs
    \<Longrightarrow> trust t (hash b) \<Longrightarrow> et_step hdr rank D trust t (et_sync_finalized b xs t)"
| et_step_buffer_block: "authentic hdr rank b
    \<Longrightarrow> et_step hdr rank D trust t (t\<lparr>et_buffer := bb_insert_block (lru_of D) b (et_buffer t)\<rparr>)"
| et_step_buffer_witness:
    "et_step hdr rank D trust t (t\<lparr>et_buffer := bb_insert_witness h wit missing (et_buffer t)\<rparr>)"
| et_step_take_witness:
    "et_step hdr rank D trust t (t\<lparr>et_buffer := snd (bb_remove_witness h (et_buffer t))\<rparr>)"
| et_step_take_block:
    "et_step hdr rank D trust t (t\<lparr>et_buffer := snd (bb_remove_block (lru_of D) h (et_buffer t))\<rparr>)"
| et_step_bytecode:
    "et_step hdr rank D trust t (t\<lparr>et_buffer := snd (bb_on_bytecode_received h (et_buffer t))\<rparr>)"
| et_step_database:
    "et_step hdr rank D trust t (t\<lparr>et_provider := snd (rp_insert_bytecode (db D) h code (et_provider t))\<rparr>)"
| et_step_track: "et_step hdr rank D trust t (t\<lparr>et_tracker := f\<rparr>)"
| et_step_event: "et_step hdr rank D trust t (et_emit_event e t)"

inductive_cases et_step_cases: "et_step hdr rank D trust t t'"

lemma et_step_mono:
  assumes "et_step hdr rank D trust t t'" "trust \<le> trust'"
  shows "et_step hdr rank D trust' t t'"
  using assms(1)
proof cases
  case (et_step_sync b xs)
  with assms(2) have "trust' t (hash b)" by (auto simp: le_fun_def)
  with et_step_sync show ?thesis by (blast intro: et_step.et_step_sync)
qed (auto intro: et_step.intros)

text \<open>The payload validator returns blocks with the hash of their header.\<close>

definition authentic_payloads ::
  "header_of \<Rightarrow> hash_rank \<Rightarrow> ('d, 'u, 't, 's, 'l, 'c, 'f, 'x) tree_deps \<Rightarrow> bool" where
  "authentic_payloads hdr rank D \<longleftrightarrow>
     (\<forall>payload b. ensure_well_formed_payload D payload = Inr b \<longrightarrow> authentic hdr rank b)"

lemma bb_take_blocks [simp]:
  "blocks (snd (bb_remove_witness h s)) = blocks s"
  "blocks (snd (bb_on_bytecode_received h s)) = blocks s"
  by (simp_all add: bb_remove_witness_def bb_on_bytecode_received_def Let_def)

lemma buffer_ok_take_block:
  assumes "lru_spec ops keys" "buffer_ok hdr rank ops keys s"
  shows "buffer_ok hdr rank ops keys (snd (bb_remove_block ops h s))"
    and "fst (bb_remove_block ops h s) = Some (b, w) \<Longrightarrow> authentic hdr rank b"
proof -
  note wf = buffer_okD(1) [OF assms(2)]
  have "fmlookup (blocks (snd (bb_remove_block ops h s))) k = Some x \<Longrightarrow> fmlookup (blocks s) k = Some x" for k x
    by (auto simp: bb_remove_block_state [OF bb_wfD(1) [OF wf]] bb_evict_blocks split: if_splits)
  with assms(2) bb_wf_remove_block [OF assms(1) wf] show "buffer_ok hdr rank ops keys (snd (bb_remove_block ops h s))"
    by (rule buffer_ok_subset)
  show "authentic hdr rank b" if "fst (bb_remove_block ops h s) = Some (b, w)"
    using that bb_ready_key [OF bb_wfD(1) [OF wf]] buffer_okD(2) [OF assms(2)]
    by (force simp: bb_remove_block_out [OF bb_wfD(1) [OF wf]])
qed

lemma buffer_ok_bytecode:
  "buffer_ok hdr rank ops keys s \<Longrightarrow> buffer_ok hdr rank ops keys (snd (bb_on_bytecode_received h s))"
  by (simp add: buffer_ok_def bb_wf_bytecode)

lemma buffer_ok_take_witness:
  "buffer_ok hdr rank ops keys s \<Longrightarrow> buffer_ok hdr rank ops keys (snd (bb_remove_witness h s))"
  by (simp add: buffer_ok_def bb_wf_remove_witness)

text \<open>A condition on the canonical index that such a sync keeps as well.\<close>

locale sync_view = chain_view hdr rank D J
  for hdr :: header_of and rank :: hash_rank and D :: "('d, 'u, 't, 's, 'l, 'c, 'f, 'x) tree_deps"
    and J :: "('d, 'l, 'c, 'f) engine_tree \<Rightarrow> bool" +
  fixes trust :: "('d, 'l, 'c, 'f) engine_tree \<Rightarrow> b256 \<Rightarrow> bool"
  assumes J_sync: "tree_ok hdr rank t \<Longrightarrow> J t \<Longrightarrow> authentic hdr rank b \<Longrightarrow> header_ancestors hdr (hash b) xs
    \<Longrightarrow> trust t (hash b) \<Longrightarrow> J (et_sync_finalized b xs t)"
begin

lemma inv_sync:
  assumes "et_inv hdr rank D keys view J t" "authentic hdr rank b" "validated hdr b"
    and "header_ancestors hdr (hash b) xs" "trust t (hash b)"
  shows "et_inv hdr rank D keys view J (et_sync_finalized b xs t)"
  using et_invD [OF assms(1)] tree_ok_sync [OF _ assms(2,3)] J_sync [OF _ _ assms(2,4,5)]
  by (simp add: et_inv_def)

lemma step_inv:
  assumes D: "tree_deps_spec D keys view" "authentic_payloads hdr rank D"
    and inv: "et_inv hdr rank D keys view J t" and step: "et_step hdr rank D trust t t'"
  shows "et_inv hdr rank D keys view J t'"
  using step
proof cases
  case (et_step_payload payload w r)
  with new_payload_total [OF D(1) inv, of payload w] D(2) show ?thesis
    by (auto simp: authentic_payloads_def)
next
  case (et_step_downloaded b wit r)
  with downloaded_block_total [OF D(1) inv, of b wit] show ?thesis by auto
next
  case (et_step_forkchoice state attrs version fr)
  with forkchoice_total [OF D(1) inv, of state attrs version] show ?thesis by auto
next
  case (et_step_canonical h)
  with make_canonical_total [OF D(1) inv, of h] show ?thesis by auto
next
  case (et_step_sync b xs)
  with inv_sync [OF inv] show ?thesis by blast
next
  case (et_step_buffer_block b)
  with inv_buffer [OF inv buffer_ok_insert [OF tree_deps_specD(2) [OF D(1)] et_invD(2) [OF inv]]]
  show ?thesis by blast
next
  case (et_step_buffer_witness h wit missing)
  with inv_buffer [OF inv buffer_ok_witness [OF et_invD(2) [OF inv]]] show ?thesis by blast
next
  case (et_step_take_witness h)
  with inv_buffer [OF inv buffer_ok_take_witness [OF et_invD(2) [OF inv]]] show ?thesis by blast
next
  case (et_step_take_block h)
  with inv_buffer [OF inv buffer_ok_take_block(1) [OF tree_deps_specD(2) [OF D(1)] et_invD(2) [OF inv]]]
  show ?thesis by blast
next
  case (et_step_bytecode h)
  with inv_buffer [OF inv buffer_ok_bytecode [OF et_invD(2) [OF inv]]] show ?thesis by blast
next
  case (et_step_database h code)
  show ?thesis unfolding et_step_database by (rule inv_cong [OF inv]) (use et_invD [OF inv] in simp_all)
next
  case (et_step_track f)
  show ?thesis unfolding et_step_track by (rule inv_cong [OF inv]) (use et_invD [OF inv] in simp_all)
next
  case (et_step_event e)
  with inv_emit [OF inv] show ?thesis by blast
qed

end

section \<open>The first state\<close>

definition launch_tree ::
  "('d, 'u, 't, 's, 'l, 'c, 'f, 'x) tree_deps \<Rightarrow> chain_spec \<Rightarrow> 'd \<Rightarrow> ('d, 'l, 'c, 'f) engine_tree" where
  "launch_tree D spec d = et_new D (snd (launch_provider (codec_of D) (db D) spec d))"

text \<open>The genesis of the specification: its hash is that of its header, and it is the block of
  number 0 without a parent.\<close>

definition genesis_ok :: "header_of \<Rightarrow> hash_rank \<Rightarrow> codec \<Rightarrow> chain_spec \<Rightarrow> bool" where
  "genesis_ok hdr rank c spec \<longleftrightarrow>
     genesis_hash spec = hash_slow c (genesis_header spec) \<and>
     authentic hdr rank (genesis_block spec) \<and>
     number (genesis_header spec) = 0 \<and> parent_hash (genesis_header spec) = 0"

lemma genesis_okD:
  assumes "genesis_ok hdr rank c spec"
  shows "genesis_hash spec = hash_slow c (genesis_header spec)" "authentic hdr rank (genesis_block spec)"
    and "number (genesis_header spec) = 0" "parent_hash (genesis_header spec) = 0"
    and "number (hdr (genesis_hash spec)) = 0" "genesis_hash spec \<noteq> 0"
  using assms authenticD(1,4) [of hdr rank "genesis_block spec"] by (auto simp: genesis_ok_def)

lemma launch_tree_views:
  "known (launch_tree D spec d) = [genesis_hash spec \<mapsto> sealed_header.truncate (genesis_block spec)]"
  "canonical (et_provider (launch_tree D spec d)) = [0 \<mapsto> genesis_hash spec]"
  "et_buffer (launch_tree D spec d) = bb_new (lru_of D) 256"
  "et_invalid (launch_tree D spec d) = ihc_new D 256"
  "et_canonical_head (launch_tree D spec d) =
     \<lparr>bnh_number = number (genesis_header spec), bnh_hash = hash_slow (codec_of D) (genesis_header spec)\<rparr>"
  by (rule ext, simp_all add: launch_tree_def et_new_def Let_def rp_sealed_header_iff launch_provider_views)

lemma launch_tree_ok:
  assumes "genesis_ok hdr rank (codec_of D) spec"
  shows "tree_ok hdr rank (launch_tree D spec d)"
proof -
  note g = genesis_okD [OF assms]
  have "validated hdr (genesis_block spec)" by (simp add: validated_def g)
  with g have "stored_ok hdr rank (et_provider (launch_tree D spec d))"
    by (simp add: stored_ok_def launch_tree_def et_new_def Let_def launch_provider_wf launch_provider_views)
  moreover have "head_ok hdr (launch_tree D spec d)"
    using g by (simp add: head_ok_def launch_tree_views)
  ultimately show ?thesis by (simp add: tree_ok_def)
qed

lemma launch_ancestors:
  assumes "genesis_ok hdr rank (codec_of D) spec"
  shows "ancestor (known (launch_tree D spec d)) (bnh_hash (et_canonical_head (launch_tree D spec d))) h
    \<longleftrightarrow> h = genesis_hash spec \<or> h = 0"
  using genesis_okD [OF assms] ancestor_Some [of "known (launch_tree D spec d)" "genesis_hash spec"]
    ancestor_None [of "known (launch_tree D spec d)" 0]
  by (simp add: launch_tree_views)

lemma launch_canonical:
  assumes "genesis_ok hdr rank (codec_of D) spec"
  shows "canonical_complete hdr (launch_tree D spec d)" "canonical_sound hdr (launch_tree D spec d)"
proof -
  note g = genesis_okD [OF assms] and anc = launch_ancestors [OF assms, of d]
  have "canonical_ok (launch_tree D spec d)"
    unfolding canonical_ok_def anc using g by (auto simp: launch_tree_views at_number_def split: if_splits)
  moreover have "grounded hdr (launch_tree D spec d)"
    unfolding grounded_def anc using g by (auto simp: launch_tree_views split: if_splits)
  ultimately show "canonical_complete hdr (launch_tree D spec d)" by (simp add: canonical_complete_def)
  show "canonical_sound hdr (launch_tree D spec d)"
    using g by (auto simp: canonical_sound_def launch_tree_views split: if_splits)
qed

lemma launch_filed:
  assumes "genesis_ok hdr rank (codec_of D) spec"
  shows "canonical_filed hdr (launch_tree D spec d)"
  using genesis_okD [OF assms] by (auto simp: canonical_filed_def launch_tree_views split: if_splits)

lemma launch_executed: "genesis_hash spec \<in> anchors \<Longrightarrow> blocks_executed hdr D anchors (launch_tree D spec d)"
  by (simp add: blocks_executed_def launch_tree_def et_new_def Let_def launch_provider_views)

lemma launch_inv:
  assumes "tree_deps_spec D keys view" "genesis_ok hdr rank (codec_of D) spec" "J (launch_tree D spec d)"
  shows "et_inv hdr rank D keys view J (launch_tree D spec d)"
proof -
  have "buffer_ok hdr rank (lru_of D) keys (bb_new (lru_of D) 256)"
    using bb_wf_new [OF tree_deps_specD(2) [OF assms(1)]] by (simp add: buffer_ok_def bb_new_def)
  moreover have "cache_ok rank (view (ihc_new D 256))"
    by (simp add: tree_deps_specD(9) [OF assms(1)] cache_ok_def)
  ultimately show ?thesis
    using launch_tree_ok [OF assms(2)] assms(3) by (simp add: et_inv_def launch_tree_views)
qed

section \<open>Reachable states\<close>

text \<open>The hypotheses of the machine, in one place.\<close>

definition tree_world ::
  "header_of \<Rightarrow> hash_rank \<Rightarrow> ('d, 'u, 't, 's, 'l, 'c, 'f, 'x) tree_deps \<Rightarrow> ('l \<Rightarrow> b256 list)
     \<Rightarrow> ('c \<Rightarrow> b256 \<rightharpoonup> block_with_parent) \<Rightarrow> chain_spec \<Rightarrow> bool" where
  "tree_world hdr rank D keys view spec \<longleftrightarrow>
     tree_deps_spec D keys view \<and> authentic_payloads hdr rank D \<and> genesis_ok hdr rank (codec_of D) spec"

text \<open>What a sync keeps. That canonical hashes are filed under their number and that stored blocks were
  executed or are trusted holds for any \<open>trust\<close>. The index stays sound when the finalized block is a
  descendant of the head by the headers, as it is when the chain of the head was not abandoned; with
  no sync it stays complete.\<close>

definition extends_head :: "header_of \<Rightarrow> ('d, 'l, 'c, 'f) engine_tree \<Rightarrow> b256 \<Rightarrow> bool" where
  "extends_head hdr t h \<longleftrightarrow> (\<exists>k. hash_back hdr k h = bnh_hash (et_canonical_head t) \<and>
     unat (number (hdr h)) = unat (bnh_number (et_canonical_head t)) + k)"

interpretation filed_sync: sync_view hdr rank D "canonical_filed hdr" trust
  for hdr rank and D :: "('d, 'u, 't, 's, 'l, 'c, 'f, 'x) tree_deps" and trust
proof
  fix t :: "('d, 'l, 'c, 'f) engine_tree" and b :: recovered_block and xs
  assume filed: "canonical_filed hdr t" and b: "authentic hdr rank b" "header_ancestors hdr (hash b) xs"
  show "canonical_filed hdr (et_sync_finalized b xs t)"
    unfolding canonical_filed_def
  proof (intro allI impI)
    fix n v assume "canonical (et_provider (et_sync_finalized b xs t)) n = Some v"
    then show "n = number (hdr v)"
    proof (cases rule: sync_entry_cases)
      case (above i)
      with b(2) have "header.truncate (xs ! i) = hdr v" by (simp add: header_ancestors_def)
      with above show ?thesis by (metis truncate_sel(2))
    qed (use authenticD(1) [OF b(1)] canonical_filedD [OF filed] in simp_all)
  qed
qed

interpretation exec_sync: sync_view hdr rank D "blocks_executed hdr D anchors" "\<lambda>_ h. h \<in> anchors"
  for hdr rank and D :: "('d, 'u, 't, 's, 'l, 'c, 'f, 'x) tree_deps" and anchors
  by unfold_locales (auto simp: blocks_executed_def split: if_splits)

interpretation sound_sync: sync_view hdr rank D "canonical_sound hdr" "extends_head hdr"
  for hdr rank and D :: "('d, 'u, 't, 's, 'l, 'c, 'f, 'x) tree_deps"
proof
  fix t :: "('d, 'l, 'c, 'f) engine_tree" and b :: recovered_block and xs
  let ?N = "bnh_number (et_canonical_head t)"
  assume sound: "canonical_sound hdr t" and b: "authentic hdr rank b" "header_ancestors hdr (hash b) xs"
    and "extends_head hdr t (hash b)"
  then obtain k where k: "hash_back hdr k (hash b) = bnh_hash (et_canonical_head t)" "unat (number b) = unat ?N + k"
    using authenticD(1) [OF b(1)] by (auto simp: extends_head_def)
  have "n \<le> number b \<and> v = hash_back hdr (unat (number b) - unat n) (hash b)"
    if "canonical (et_provider (et_sync_finalized b xs t)) n = Some v" for n v
    using that
  proof (cases rule: sync_entry_cases)
    case (above i)
    with b authenticD(1) [OF b(1)] have v: "v = hash_back hdr (Suc i) (hash b)" "unat n + Suc i = unat (number b)"
      by (auto simp: header_ancestors_def)
    then have "unat (number b) - unat n = Suc i" by simp
    with v show ?thesis by (simp add: word_le_nat_alt)
  next
    case old
    with sound have v: "unat n \<le> unat ?N" "v = hash_back hdr (unat ?N - unat n) (bnh_hash (et_canonical_head t))"
      by (auto simp: canonical_sound_def word_le_nat_alt)
    have "unat (number b) - unat n = k + (unat ?N - unat n)" using v(1) k(2) by simp
    then have "v = hash_back hdr (unat (number b) - unat n) (hash b)" by (simp only: hash_back_add k(1) v(2))
    with v(1) k(2) show ?thesis by (simp add: word_le_nat_alt)
  qed simp
  then show "canonical_sound hdr (et_sync_finalized b xs t)" by (simp add: canonical_sound_def)
qed

interpretation complete_sync: sync_view hdr rank D "canonical_complete hdr" "\<lambda>_ _. False"
  for hdr rank and D :: "('d, 'u, 't, 's, 'l, 'c, 'f, 'x) tree_deps"
  by unfold_locales simp

interpretation tree_machine: invariant_system "\<lambda>t. t = launch_tree D spec d" "et_step hdr rank D trust"
    "\<lambda>t. tree_world hdr rank D keys view spec \<longrightarrow>
       et_inv hdr rank D keys view (canonical_filed hdr) t \<and>
       (\<forall>anchors. genesis_hash spec \<in> anchors \<longrightarrow> trust \<le> (\<lambda>_ h. h \<in> anchors) \<longrightarrow>
          et_inv hdr rank D keys view (blocks_executed hdr D anchors) t) \<and>
       (trust \<le> extends_head hdr \<longrightarrow> et_inv hdr rank D keys view (canonical_sound hdr) t) \<and>
       (trust \<le> (\<lambda>_ _. False) \<longrightarrow> et_inv hdr rank D keys view (canonical_complete hdr) t)"
  for hdr rank D trust keys view spec d
proof (unfold_locales, goal_cases)
  case (1 t)
  then show ?case
    by (auto simp: tree_world_def intro: launch_inv launch_filed launch_canonical launch_executed)
next
  case (2 t t')
  then show ?case
    by (auto simp: tree_world_def
      intro: filed_sync.step_inv sound_sync.step_inv [OF _ _ _ et_step_mono]
        complete_sync.step_inv [OF _ _ _ et_step_mono] exec_sync.step_inv [OF _ _ _ et_step_mono])
qed

text \<open>Every handler returns.\<close>

definition et_responsive ::
  "header_of \<Rightarrow> hash_rank \<Rightarrow> ('d, 'u, 't, 's, 'l, 'c, 'f, 'x) tree_deps
     \<Rightarrow> ('d, 'l, 'c, 'f) engine_tree \<Rightarrow> bool" where
  "et_responsive hdr rank D t \<longleftrightarrow>
     (\<forall>payload w. et_on_new_payload D payload w t \<noteq> None) \<and>
     (\<forall>b w. authentic hdr rank b \<longrightarrow> et_on_downloaded_block D b w t \<noteq> None) \<and>
     (\<forall>state attrs version. et_on_forkchoice_updated D state attrs version t \<noteq> None) \<and>
     (\<forall>h. et_make_canonical D h t \<noteq> None)"

lemma filed_responsive:
  assumes D: "tree_deps_spec D keys view" "authentic_payloads hdr rank D"
    and inv: "et_inv hdr rank D keys view (canonical_filed hdr) t"
  shows "et_responsive hdr rank D t"
proof -
  have "et_on_new_payload D payload w t \<noteq> None" for payload w
    using filed.new_payload_total [OF D(1) inv, of payload w] D(2) by (auto simp: authentic_payloads_def)
  moreover have "et_on_downloaded_block D b w t \<noteq> None" if "authentic hdr rank b" for b w
    using filed.downloaded_block_total [OF D(1) inv that, of w] by auto
  moreover have "et_on_forkchoice_updated D state attrs version t \<noteq> None" for state attrs version
    using filed.forkchoice_total [OF D(1) inv, of state attrs version] by auto
  moreover have "et_make_canonical D h t \<noteq> None" for h
    using filed.make_canonical_total [OF D(1) inv, of h] by auto
  ultimately show ?thesis by (simp add: et_responsive_def)
qed

end
