(* ===== verification/Network.thy ===== *)
theory Network
  imports Primitives "HOL-Library.Multiset"
begin

text \<open>
  The network side of the node: the manager that hands requests to peer connections,
  \<open>src/crates/network/src/manager.rs\<close>, and the handle the downloads send requests through,
  \<open>handle.rs\<close>.

  The channels are tokio's. A sender is a channel identifier, and whether its receiver was
  dropped is the argument \<open>closed\<close>. A stream is the list of the items that were sent and not
  read yet. What the manager sends is the list of the pairs of channel and request it returns, in
  the order of sending. Of the events of the protocol crate the manager reads one; the others are
  \<open>Other_event\<close>.
\<close>

section \<open>Requests\<close>

type_synonym channel = nat
type_synonym oneshot = nat
type_synonym peer_id = bytes

record get_headers =
  start_hash :: b256
  limit :: u64

datatype peer_request =
  GetHeaders get_headers oneshot
| GetBlockBodies "b256 list" oneshot
| GetBytecode b256 oneshot
| GetWitness b256 oneshot

datatype peer_request_error = RequestDropped | ConnectionClosed

section \<open>The handle\<close>

text \<open>The channel of the handle: whether the manager dropped its end, and the requests sent.\<close>

record request_channel =
  rc_closed :: bool
  rc_sent :: "peer_request list"

definition send_request :: "peer_request \<Rightarrow> request_channel \<Rightarrow> (peer_request_error + unit) \<times> request_channel" where
  "send_request request c =
     (if rc_closed c then (Inl ConnectionClosed, c) else (Inr (), c\<lparr>rc_sent := rc_sent c @ [request]\<rparr>))"

text \<open>The four methods, each with the identifier of its new oneshot channel and what arrives on it,
  \<open>None\<close> when the sender was dropped. The value returned is the request's result.\<close>

definition await_response :: "'a option \<Rightarrow> peer_request_error + 'a" where
  "await_response rx = (case rx of None \<Rightarrow> Inl RequestDropped | Some response \<Rightarrow> Inr response)"

definition fetch_headers ::
  "get_headers \<Rightarrow> oneshot \<Rightarrow> header list option \<Rightarrow> request_channel
     \<Rightarrow> (peer_request_error + header list) \<times> request_channel" where
  "fetch_headers request tx rx c =
     (case send_request (GetHeaders request tx) c of
        (Inl e, c) \<Rightarrow> (Inl e, c)
      | (Inr _, c) \<Rightarrow> (await_response rx, c))"

definition fetch_block_bodies ::
  "b256 list \<Rightarrow> oneshot \<Rightarrow> block_body list option \<Rightarrow> request_channel
     \<Rightarrow> (peer_request_error + block_body list) \<times> request_channel" where
  "fetch_block_bodies request tx rx c =
     (case send_request (GetBlockBodies request tx) c of
        (Inl e, c) \<Rightarrow> (Inl e, c)
      | (Inr _, c) \<Rightarrow> (await_response rx, c))"

definition fetch_bytecode ::
  "b256 \<Rightarrow> oneshot \<Rightarrow> bytes option \<Rightarrow> request_channel \<Rightarrow> (peer_request_error + bytes) \<times> request_channel" where
  "fetch_bytecode code_hash tx rx c =
     (case send_request (GetBytecode code_hash tx) c of
        (Inl e, c) \<Rightarrow> (Inl e, c)
      | (Inr _, c) \<Rightarrow> (await_response rx, c))"

definition fetch_witness ::
  "b256 \<Rightarrow> oneshot \<Rightarrow> bytes list option \<Rightarrow> request_channel
     \<Rightarrow> (peer_request_error + bytes list) \<times> request_channel" where
  "fetch_witness block_hash tx rx c =
     (case send_request (GetWitness block_hash tx) c of
        (Inl e, c) \<Rightarrow> (Inl e, c)
      | (Inr _, c) \<Rightarrow> (await_response rx, c))"

section \<open>The manager\<close>

record connection_handle =
  peer_id_of :: peer_id
  to_connection :: channel

datatype protocol_event = Established bytes peer_id channel | Other_event

record network_manager =
  protocol_events :: "protocol_event list"
  peer_requests :: "peer_request list"
  connections :: "connection_handle list"
  pending_requests :: "peer_request list"

definition nm_new :: "protocol_event list \<Rightarrow> peer_request list \<Rightarrow> network_manager" where
  "nm_new events requests =
     \<lparr>protocol_events = events, peer_requests = requests, connections = [], pending_requests = []\<rparr>"

text \<open>The \<open>while let\<close> loop over the connections: a connection whose receiver was dropped is
  forgotten, the first open one takes the request and goes to the back.\<close>

fun nm_rotate ::
  "(channel \<Rightarrow> bool) \<Rightarrow> connection_handle list \<Rightarrow> channel option \<times> connection_handle list" where
  "nm_rotate closed [] = (None, [])"
| "nm_rotate closed (c # cs) =
     (if closed (to_connection c) then nm_rotate closed cs else (Some (to_connection c), cs @ [c]))"

definition nm_on_peer_request ::
  "(channel \<Rightarrow> bool) \<Rightarrow> peer_request \<Rightarrow> network_manager \<Rightarrow> (channel \<times> peer_request) list \<times> network_manager" where
  "nm_on_peer_request closed request m =
     (case nm_rotate closed (connections m) of
        (Some c, cs) \<Rightarrow> ([(c, request)], m\<lparr>connections := cs\<rparr>)
      | (None, cs) \<Rightarrow> ([], m\<lparr>connections := cs, pending_requests := pending_requests m @ [request]\<rparr>))"

lemma nm_rotate_None: "nm_rotate closed cs = (None, ds) \<Longrightarrow> ds = [] \<and> (\<forall>c\<in>set cs. closed (to_connection c))"
  by (induction closed cs rule: nm_rotate.induct) (auto split: if_splits)

lemma nm_rotate_Some:
  "nm_rotate closed cs = (Some k, ds) \<Longrightarrow> ds \<noteq> [] \<and> \<not> closed k \<and> k = to_connection (last ds)"
  by (induction closed cs rule: nm_rotate.induct) (auto split: if_splits)

lemma nm_on_peer_request_frame [simp]:
  "protocol_events (snd (nm_on_peer_request closed r m)) = protocol_events m"
  "peer_requests (snd (nm_on_peer_request closed r m)) = peer_requests m"
  by (simp_all add: nm_on_peer_request_def split: prod.split option.split)

text \<open>The loop of \<open>poll\<close>. It returns when it has nothing to do. An event the manager does not
  know is taken from its stream, and the loop looks at the requests next.\<close>

function nm_poll ::
  "(channel \<Rightarrow> bool) \<Rightarrow> network_manager \<Rightarrow> (channel \<times> peer_request) list \<times> network_manager" where
  "nm_poll closed m =
     (if connections m \<noteq> [] \<and> pending_requests m \<noteq> []
      then let sent = nm_on_peer_request closed (hd (pending_requests m))
                        (m\<lparr>pending_requests := tl (pending_requests m)\<rparr>);
               rest = nm_poll closed (snd sent)
           in (fst sent @ fst rest, snd rest)
      else case protocol_events m of
             Established _ peer to # events \<Rightarrow>
               nm_poll closed (m\<lparr>protocol_events := events,
                 connections := connections m @ [\<lparr>peer_id_of = peer, to_connection = to\<rparr>]\<rparr>)
           | events \<Rightarrow>
               let m = m\<lparr>protocol_events := tl events\<rparr>
               in case peer_requests m of
                    request # requests \<Rightarrow>
                      let sent = nm_on_peer_request closed request (m\<lparr>peer_requests := requests\<rparr>);
                          rest = nm_poll closed (snd sent)
                      in (fst sent @ fst rest, snd rest)
                  | [] \<Rightarrow> ([], m))"
  by pat_completeness auto
termination
proof (relation "measures [\<lambda>(closed, m). length (protocol_events m) + length (peer_requests m),
    \<lambda>(closed, m). if connections m = [] then 0 else length (pending_requests m)]", goal_cases)
  case (2 closed m sent)
  then show ?case
  proof (cases "nm_rotate closed (connections m)")
    case (Pair k cs)
    with 2 nm_rotate_None [of closed "connections m" cs] show ?thesis
      by (cases k) (auto simp: nm_on_peer_request_def)
  qed
qed auto

declare nm_poll.simps [simp del]

section \<open>Requests are neither lost nor duplicated\<close>

text \<open>The requests the manager has yet to send: the abstract state is their multiset.\<close>

definition nm_outstanding :: "network_manager \<Rightarrow> peer_request multiset" where
  "nm_outstanding m = mset (pending_requests m) + mset (peer_requests m)"

lemma nm_on_peer_request_conserves:
  "mset (map snd (fst (nm_on_peer_request closed r m))) + nm_outstanding (snd (nm_on_peer_request closed r m)) =
     add_mset r (nm_outstanding m)"
  "(c, r') \<in> set (fst (nm_on_peer_request closed r m)) \<Longrightarrow> \<not> closed c"
  by (auto simp: nm_on_peer_request_def nm_outstanding_def dest!: nm_rotate_Some split: prod.splits option.splits)

lemma nm_poll_step:
  "connections m \<noteq> [] \<Longrightarrow> pending_requests m = r # rs \<Longrightarrow>
   nm_poll closed m =
     (let sent = nm_on_peer_request closed r (m\<lparr>pending_requests := rs\<rparr>); rest = nm_poll closed (snd sent)
      in (fst sent @ fst rest, snd rest))"
  "connections m = [] \<or> pending_requests m = [] \<Longrightarrow> protocol_events m = Established dir peer to # events \<Longrightarrow>
   nm_poll closed m = nm_poll closed (m\<lparr>protocol_events := events,
     connections := connections m @ [\<lparr>peer_id_of = peer, to_connection = to\<rparr>]\<rparr>)"
  "connections m = [] \<or> pending_requests m = [] \<Longrightarrow> protocol_events m = [] \<or> hd (protocol_events m) = Other_event \<Longrightarrow>
   peer_requests m = r # rs \<Longrightarrow>
   nm_poll closed m =
     (let sent = nm_on_peer_request closed r (m\<lparr>protocol_events := tl (protocol_events m), peer_requests := rs\<rparr>);
          rest = nm_poll closed (snd sent)
      in (fst sent @ fst rest, snd rest))"
  "connections m = [] \<or> pending_requests m = [] \<Longrightarrow> protocol_events m = [] \<or> hd (protocol_events m) = Other_event \<Longrightarrow>
   peer_requests m = [] \<Longrightarrow> nm_poll closed m = ([], m\<lparr>protocol_events := tl (protocol_events m)\<rparr>)"
  by (subst nm_poll.simps, force simp: Let_def split: list.split protocol_event.split)+

text \<open>The cases of one round of the loop.\<close>

lemma nm_round [case_names pending established request idle]:
  obtains r rs where "connections m \<noteq> []" "pending_requests m = r # rs"
  | dir peer to events where "connections m = [] \<or> pending_requests m = []"
      "protocol_events m = Established dir peer to # events"
  | r rs where "connections m = [] \<or> pending_requests m = []"
      "protocol_events m = [] \<or> hd (protocol_events m) = Other_event" "peer_requests m = r # rs"
  | "connections m = [] \<or> pending_requests m = []"
      "protocol_events m = [] \<or> hd (protocol_events m) = Other_event" "peer_requests m = []"
proof (cases "connections m = [] \<or> pending_requests m = []")
  case False
  with that(1) show thesis by (cases "pending_requests m") auto
next
  case True
  show thesis
  proof (cases "\<exists>dir peer to events. protocol_events m = Established dir peer to # events")
    case True
    with \<open>connections m = [] \<or> _\<close> that(2) show thesis by blast
  next
    case False
    then have "protocol_events m = [] \<or> hd (protocol_events m) = Other_event"
      by (cases "protocol_events m") (auto intro: protocol_event.exhaust)
    with \<open>connections m = [] \<or> _\<close> that(3,4) show thesis by (cases "peer_requests m") auto
  qed
qed

text \<open>An induction over the rounds of the loop.\<close>

lemma nm_poll_induct [case_names pending established request idle]:
  assumes "\<And>m r rs. connections m \<noteq> [] \<Longrightarrow> pending_requests m = r # rs
      \<Longrightarrow> P (snd (nm_on_peer_request closed r (m\<lparr>pending_requests := rs\<rparr>))) \<Longrightarrow> P m"
    and "\<And>m dir peer to events. connections m = [] \<or> pending_requests m = []
      \<Longrightarrow> protocol_events m = Established dir peer to # events
      \<Longrightarrow> P (m\<lparr>protocol_events := events, connections := connections m @ [\<lparr>peer_id_of = peer, to_connection = to\<rparr>]\<rparr>)
      \<Longrightarrow> P m"
    and "\<And>m r rs. connections m = [] \<or> pending_requests m = []
      \<Longrightarrow> protocol_events m = [] \<or> hd (protocol_events m) = Other_event \<Longrightarrow> peer_requests m = r # rs
      \<Longrightarrow> P (snd (nm_on_peer_request closed r
               (m\<lparr>protocol_events := tl (protocol_events m), peer_requests := rs\<rparr>))) \<Longrightarrow> P m"
    and "\<And>m. connections m = [] \<or> pending_requests m = []
      \<Longrightarrow> protocol_events m = [] \<or> hd (protocol_events m) = Other_event \<Longrightarrow> peer_requests m = [] \<Longrightarrow> P m"
  shows "P m"
proof -
  have "c = closed \<longrightarrow> P m" for c
  proof (induction c m rule: nm_poll.induct)
    case (1 c m)
    show ?case
    proof
      assume "c = closed"
      show "P m"
      proof (cases m rule: nm_round)
        case (pending r rs)
        then show ?thesis by (rule assms(1)) (use 1(1) pending \<open>c = closed\<close> in auto)
      next
        case (established dir peer to events)
        then show ?thesis by (rule assms(2)) (use 1 established \<open>c = closed\<close> in auto)
      next
        case (request r rs)
        then show ?thesis
          by (rule assms(3))
            (use 1 request \<open>c = closed\<close> in \<open>cases "protocol_events m"; auto\<close>)
      qed (rule assms(4))
    qed
  qed
  then show ?thesis by simp
qed

lemma nm_poll_outstanding:
  "mset (map snd (fst (nm_poll closed m))) + nm_outstanding (snd (nm_poll closed m)) = nm_outstanding m"
proof (induction m rule: nm_poll_induct [where closed = closed])
  case (pending m r rs)
  then show ?case
    using nm_on_peer_request_conserves(1) [of closed r "m\<lparr>pending_requests := rs\<rparr>"]
    by (simp add: nm_poll_step Let_def add.assoc nm_outstanding_def)
next
  case (request m r rs)
  then show ?case
    using nm_on_peer_request_conserves(1)
      [of closed r "m\<lparr>protocol_events := tl (protocol_events m), peer_requests := rs\<rparr>"]
    by (simp add: nm_poll_step(3) Let_def add.assoc nm_outstanding_def)
qed (auto simp: nm_poll_step nm_outstanding_def)

lemma nm_poll_open: "(c, r) \<in> set (fst (nm_poll closed m)) \<Longrightarrow> \<not> closed c"
  by (induction m rule: nm_poll_induct [where closed = closed])
    (auto simp: nm_poll_step Let_def dest: nm_on_peer_request_conserves(2))

lemma nm_poll_idle:
  "peer_requests (snd (nm_poll closed m)) = []"
  "connections (snd (nm_poll closed m)) = [] \<or> pending_requests (snd (nm_poll closed m)) = []"
  by (induction m rule: nm_poll_induct [where closed = closed]) (auto simp: nm_poll_step Let_def)

text \<open>(C32) Polling the network manager neither loses nor duplicates a request: what it sent and what it
  still holds is, as a multiset, what it held and what was in its queue. It sends only to
  connections that are open, it empties the queue, and it keeps requests only while it has no
  connection. This is a simulation of the abstract machine whose state is the multiset of the
  outstanding requests.\<close>

theorem nm_poll_conserves:
  "mset (map snd (fst (nm_poll closed m))) + nm_outstanding (snd (nm_poll closed m)) = nm_outstanding m
   \<and> list_all (\<lambda>(c, r). \<not> closed c) (fst (nm_poll closed m))
   \<and> peer_requests (snd (nm_poll closed m)) = []
   \<and> (connections (snd (nm_poll closed m)) = [] \<or> pending_requests (snd (nm_poll closed m)) = [])"
  using nm_poll_outstanding nm_poll_idle by (auto simp: list_all_iff dest: nm_poll_open)

section \<open>Order and fairness while the connections are open\<close>

definition open_channels :: "(channel \<Rightarrow> bool) \<Rightarrow> network_manager \<Rightarrow> bool" where
  "open_channels closed m \<longleftrightarrow>
     list_all (\<lambda>c. \<not> closed (to_connection c)) (connections m) \<and>
     list_all (\<lambda>e. case e of Established _ _ c \<Rightarrow> \<not> closed c | Other_event \<Rightarrow> True) (protocol_events m)"

lemma open_channels_simps [simp]:
  "open_channels closed (m\<lparr>pending_requests := rs\<rparr>) = open_channels closed m"
  "open_channels closed (m\<lparr>peer_requests := rs\<rparr>) = open_channels closed m"
  "open_channels closed m \<Longrightarrow> open_channels closed (m\<lparr>protocol_events := tl (protocol_events m)\<rparr>)"
  by (cases "protocol_events m"; simp add: open_channels_def)+

lemma nm_on_peer_request_open:
  "open_channels closed m \<Longrightarrow> connections m = c # cs \<Longrightarrow>
     nm_on_peer_request closed r m = ([(to_connection c, r)], m\<lparr>connections := cs @ [c]\<rparr>)"
  "connections m = [] \<Longrightarrow>
     nm_on_peer_request closed r m = ([], m\<lparr>pending_requests := pending_requests m @ [r]\<rparr>)"
  by (simp_all add: nm_on_peer_request_def open_channels_def)

lemma nm_poll_order:
  "open_channels closed m \<Longrightarrow>
   map snd (fst (nm_poll closed m)) @ pending_requests (snd (nm_poll closed m)) =
     pending_requests m @ peer_requests m"
proof (induction m rule: nm_poll_induct [where closed = closed])
  case (pending m r rs)
  then obtain c cs where "connections m = c # cs" by (cases "connections m") auto
  with pending show ?case
    by (simp add: nm_poll_step Let_def nm_on_peer_request_open(1)) (simp add: open_channels_def)
next
  case (established m dir peer to events)
  then show ?case by (auto simp: nm_poll_step open_channels_def)
next
  case (request m r rs)
  then show ?case
  proof (cases "connections m")
    case Nil
    with request show ?thesis
      by (simp add: nm_poll_step(3) Let_def nm_on_peer_request_open(2))
  next
    case (Cons c cs)
    with request show ?thesis
      by (simp add: nm_poll_step(3) Let_def nm_on_peer_request_open(1))
        (cases "protocol_events m"; simp add: open_channels_def)
  qed
qed (auto simp: nm_poll_step)

text \<open>The channels \<open>n\<close> requests go to, and one step of the rotation.\<close>

definition nm_targets :: "connection_handle list \<Rightarrow> nat \<Rightarrow> channel list" where
  "nm_targets cs n = map (\<lambda>k. to_connection (cs ! (k mod length cs))) [0..<n]"

lemma nm_targets_0 [simp]: "nm_targets cs 0 = []"
  by (simp add: nm_targets_def)

lemma nm_targets_Suc: "nm_targets (c # cs) (Suc n) = to_connection c # nm_targets (cs @ [c]) n"
proof -
  have "(cs @ [c]) ! (k mod Suc (length cs)) = (c # cs) ! (Suc k mod Suc (length cs))" for k
    using nth_rotate1 [of "k mod length (c # cs)" "c # cs"] by (simp add: mod_Suc_eq)
  moreover have "map f [0..<Suc n] = f 0 # map (\<lambda>k. f (Suc k)) [0..<n]" for f :: "nat \<Rightarrow> channel"
    by (simp add: upt_conv_Cons map_Suc_upt [symmetric] del: upt_Suc)
  ultimately show ?thesis by (simp add: nm_targets_def del: upt_Suc)
qed

lemma nm_poll_rotates:
  "open_channels closed m \<Longrightarrow> connections m \<noteq> [] \<Longrightarrow> pending_requests m = [] \<Longrightarrow> protocol_events m = [] \<Longrightarrow>
   peer_requests m = rs \<Longrightarrow>
   nm_poll closed m =
     (zip (nm_targets (connections m) (length rs)) rs,
      m\<lparr>peer_requests := [], connections := rotate (length rs) (connections m)\<rparr>)"
proof (induction rs arbitrary: m)
  case Nil
  then show ?case by (simp add: nm_poll_step)
next
  case (Cons r rs)
  from Cons.prems(2) obtain c cs where c: "connections m = c # cs" by (cases "connections m") auto
  let ?m = "m\<lparr>peer_requests := rs, connections := cs @ [c]\<rparr>"
  have [simp]: "m\<lparr>protocol_events := [], peer_requests := rs\<rparr> = m\<lparr>peer_requests := rs\<rparr>"
    using Cons.prems by (cases m) simp
  have "open_channels closed ?m" using Cons.prems c by (simp add: open_channels_def)
  from Cons.IH [OF this] show ?case
    using Cons.prems c
    by (simp add: nm_poll_step(3) Let_def nm_on_peer_request_open(1) nm_targets_Suc rotate_Suc rotate1_rotate_swap)
qed

lemma nm_poll_rotates_pending:
  "open_channels closed m \<Longrightarrow> connections m \<noteq> [] \<Longrightarrow> protocol_events m = [] \<Longrightarrow>
   pending_requests m = ps \<Longrightarrow>
   nm_poll closed m =
     (zip (nm_targets (connections m) (length (ps @ peer_requests m))) (ps @ peer_requests m),
      m\<lparr>pending_requests := [], peer_requests := [],
        connections := rotate (length (ps @ peer_requests m)) (connections m)\<rparr>)"
proof (induction ps arbitrary: m)
  case Nil
  then show ?case using nm_poll_rotates [OF Nil(1,2) Nil(4,3) refl] by (cases m) simp
next
  case (Cons p ps)
  from Cons.prems(2) obtain c cs where c: "connections m = c # cs" by (cases "connections m") auto
  let ?m = "m\<lparr>pending_requests := ps, connections := cs @ [c]\<rparr>"
  have "open_channels closed ?m" using Cons.prems c by (simp add: open_channels_def)
  from Cons.IH [OF this] show ?case
    using Cons.prems c
    by (simp add: nm_poll_step(1) Let_def nm_on_peer_request_open(1) nm_targets_Suc rotate_Suc rotate1_rotate_swap)
qed

text \<open>(C33) The manager serves requests in order and spreads them evenly: with n open connections, at
  least one, and no event waiting, a poll sends the requests it held back and then those of the
  queue, none twice and none left, and the k-th of them goes to connection k mod n in the order of
  establishment; the next poll goes on with the connection after the last one used.\<close>

theorem nm_poll_round_robin:
  assumes "open_channels closed m" "connections m \<noteq> []" "protocol_events m = []"
  shows "let requests = pending_requests m @ peer_requests m; sent = fst (nm_poll closed m);
             m' = snd (nm_poll closed m); n = length (connections m)
         in length sent = length requests \<and>
            (\<forall>k<length requests. sent ! k = (to_connection (connections m ! (k mod n)), requests ! k)) \<and>
            pending_requests m' = [] \<and> peer_requests m' = [] \<and>
            connections m' = rotate (length requests) (connections m)"
  using nm_poll_rotates_pending [OF assms refl] by (simp add: nm_targets_def Let_def)

section \<open>Errors of the handle\<close>

text \<open>A request fails when the manager is gone, and then nothing was sent, or when its response channel
  was dropped. Otherwise the response is the result.\<close>

lemma fetch_results:
  "fetch_block_bodies hashes tx rx c =
     (if rc_closed c then (Inl ConnectionClosed, c)
      else (case rx of None \<Rightarrow> Inl RequestDropped | Some bodies \<Rightarrow> Inr bodies,
            c\<lparr>rc_sent := rc_sent c @ [GetBlockBodies hashes tx]\<rparr>))"
  "fetch_headers request tx rx' c =
     (if rc_closed c then (Inl ConnectionClosed, c)
      else (case rx' of None \<Rightarrow> Inl RequestDropped | Some headers \<Rightarrow> Inr headers,
            c\<lparr>rc_sent := rc_sent c @ [GetHeaders request tx]\<rparr>))"
  by (simp_all add: fetch_headers_def fetch_block_bodies_def send_request_def await_response_def)

section \<open>Witnesses\<close>

definition sample_channels :: "channel \<Rightarrow> bool" where
  "sample_channels c \<longleftrightarrow> c = 9"

definition sample_manager :: network_manager where
  "sample_manager =
     \<lparr>protocol_events = [], peer_requests = [GetWitness 6 1, GetWitness 7 2],
      connections = [\<lparr>peer_id_of = [], to_connection = 1\<rparr>, \<lparr>peer_id_of = [], to_connection = 2\<rparr>],
      pending_requests = [GetWitness 5 0]\<rparr>"

lemma sample_manager_open: "open_channels sample_channels sample_manager"
  by (simp add: open_channels_def sample_manager_def sample_channels_def)

theorem nm_poll_round_robin_witness:
  "open_channels sample_channels sample_manager \<and>
   fst (nm_poll sample_channels sample_manager) =
     [(1, GetWitness 5 0), (2, GetWitness 6 1), (1, GetWitness 7 2)]"
proof -
  have "length (fst (nm_poll sample_channels sample_manager)) = 3 \<and>
      (\<forall>k<3. fst (nm_poll sample_channels sample_manager) ! k =
         [(1, GetWitness 5 0), (2, GetWitness 6 1), (1, GetWitness 7 2)] ! k)"
    using nm_poll_round_robin [OF sample_manager_open]
    by (simp add: sample_manager_def Let_def numeral_3_eq_3 All_less_Suc)
  with sample_manager_open show ?thesis by (auto intro: nth_equalityI)
qed

end
