(* ===== verification/Fetch.thy ===== *)
theory Fetch
  imports Network
begin

text \<open>
  The futures that fetch and validate chain data,
  \<open>src/crates/engine/src/download/futs.rs\<close>.

  A request future is the delay it sleeps first and what it asks the network for. What arrives is
  an argument of \<open>poll\<close>: the list of the answers to the requests the future makes, in the order
  of the requests. Reading from the empty list is \<open>Poll::Pending\<close>. An answer is any result
  \<open>handle.rs\<close> can return, so a peer may send whatever it likes. \<open>started_at\<close> and \<open>elapsed\<close>
  are not modelled, and neither are the network handle and the trace output.

  The consensus rules are code of reth, the fields of \<open>fetch_deps\<close>; a validation that returns
  \<open>Ok\<close> is \<open>True\<close>.
\<close>

section \<open>Requests and answers\<close>

datatype fetch_request =
  AskHeaders get_headers
| AskBodies "b256 list"
| AskBytecode b256
| AskWitness b256

record download_fut =
  df_delay :: nat
  df_request :: fetch_request

type_synonym 'a answer = "peer_request_error + 'a"

datatype ('a, 'f) polled = Ready 'a | Pending 'f | Panicked

record fetch_deps =
  fd_codec :: codec
  validate_body_against_header :: "block_body \<Rightarrow> sealed_header \<Rightarrow> bool"
  validate_header_range :: "sealed_header list \<Rightarrow> bool"

definition from_sealed_parts :: "sealed_header \<Rightarrow> block_body \<Rightarrow> sealed_block" where
  "from_sealed_parts h b = sealed_header.extend h (sealed_block.fields b)"

text \<open>\<open>res.into_iter().next()\<close> of an answer.\<close>

definition first_of :: "'a list answer \<Rightarrow> 'a option answer" where
  "first_of answer = map_sum id (\<lambda>res. case res of [] \<Rightarrow> None | x # _ \<Rightarrow> Some x) answer"

section \<open>A full block\<close>

record full_block_future =
  ff_retry_delay :: nat
  ff_block_hash :: b256
  ff_pending_header_request :: "download_fut option"
  ff_pending_body_request :: "download_fut option"
  ff_header :: "sealed_header option"
  ff_body :: "block_body option"

definition ff_header_request :: "full_block_future \<Rightarrow> nat \<Rightarrow> download_fut" where
  "ff_header_request f delay =
     \<lparr>df_delay = delay, df_request = AskHeaders \<lparr>start_hash = ff_block_hash f, limit = 1\<rparr>\<rparr>"

definition ff_body_request :: "full_block_future \<Rightarrow> nat \<Rightarrow> download_fut" where
  "ff_body_request f delay = \<lparr>df_delay = delay, df_request = AskBodies [ff_block_hash f]\<rparr>"

definition ff_new :: "nat \<Rightarrow> b256 \<Rightarrow> full_block_future" where
  "ff_new delay block =
     (let this = \<lparr>ff_retry_delay = delay, ff_block_hash = block, ff_pending_header_request = None,
                 ff_pending_body_request = None, ff_header = None, ff_body = None\<rparr>;
          this = this\<lparr>ff_pending_header_request := Some (ff_header_request this 0)\<rparr>
      in this\<lparr>ff_pending_body_request := Some (ff_body_request this 0)\<rparr>)"

definition ff_on_header_response ::
  "fetch_deps \<Rightarrow> header option answer \<Rightarrow> full_block_future \<Rightarrow> full_block_future" where
  "ff_on_header_response D response f =
     (case response of
        Inr (Some header) \<Rightarrow>
          let header = seal_slow (fd_codec D) header
          in if hash header = ff_block_hash f then f\<lparr>ff_header := Some header\<rparr> else f
      | Inr None \<Rightarrow> f
      | Inl error \<Rightarrow> f)"

definition ff_on_body_response :: "block_body option answer \<Rightarrow> full_block_future \<Rightarrow> full_block_future" where
  "ff_on_body_response response f =
     (case response of
        Inr (Some b) \<Rightarrow> f\<lparr>ff_body := Some b\<rparr>
      | Inr None \<Rightarrow> f
      | Inl error \<Rightarrow> f)"

text \<open>The two halves of the loop's body that read an answer. The first component says that the code
  goes back to the head of the loop (\<open>continue\<close>).\<close>

definition ff_poll_header ::
  "fetch_deps \<Rightarrow> full_block_future \<Rightarrow> header list answer list
     \<Rightarrow> bool \<times> full_block_future \<times> header list answer list" where
  "ff_poll_header D f hs =
     (case (ff_pending_header_request f, hs) of
        (Some fut, answer # hs) \<Rightarrow>
          let f = ff_on_header_response D (first_of answer) (f\<lparr>ff_pending_header_request := None\<rparr>)
          in if ff_header f = None
             then (True, f\<lparr>ff_pending_header_request := Some (ff_header_request f (ff_retry_delay f))\<rparr>, hs)
             else (False, f, hs)
      | _ \<Rightarrow> (False, f, hs))"

definition ff_poll_body ::
  "full_block_future \<Rightarrow> block_body list answer list
     \<Rightarrow> bool \<times> full_block_future \<times> block_body list answer list" where
  "ff_poll_body f bs =
     (case (ff_pending_body_request f, bs) of
        (Some fut, answer # bs) \<Rightarrow>
          let f = ff_on_body_response (first_of answer) (f\<lparr>ff_pending_body_request := None\<rparr>)
          in if ff_body f = None
             then (True, f\<lparr>ff_pending_body_request := Some (ff_body_request f (ff_retry_delay f))\<rparr>, bs)
             else (False, f, bs)
      | _ \<Rightarrow> (False, f, bs))"

lemma ff_poll_header_length:
  "ff_poll_header D f hs = (again, g, hs') \<Longrightarrow>
     length hs' \<le> length hs \<and> (again \<longrightarrow> length hs' < length hs) \<and> ff_body g = ff_body f"
  by (auto simp: ff_poll_header_def ff_on_header_response_def Let_def
    split: option.splits list.splits if_splits sum.splits)

lemma ff_poll_body_length:
  "ff_poll_body f bs = (again, g, bs') \<Longrightarrow>
     length bs' \<le> length bs \<and> (again \<longrightarrow> length bs' < length bs) \<and>
     (length bs' = length bs \<longrightarrow> ff_body g = ff_body f)"
  by (auto simp: ff_poll_body_def ff_on_body_response_def Let_def
    split: option.splits list.splits if_splits sum.splits)

function ff_poll ::
  "fetch_deps \<Rightarrow> full_block_future \<Rightarrow> header list answer list \<Rightarrow> block_body list answer list
     \<Rightarrow> (sealed_block, full_block_future) polled \<times> header list answer list" where
  "ff_poll D f hs bs =
     (case ff_poll_header D f hs of (again, f, hs) \<Rightarrow>
      if again then ff_poll D f hs bs
      else case ff_poll_body f bs of (again, f, bs) \<Rightarrow>
      if again then ff_poll D f hs bs
      else case (ff_header f, ff_body f) of
             (Some header, Some b) \<Rightarrow>
               if validate_body_against_header D b header
               then (Ready (from_sealed_parts header b), hs)
               else ff_poll D (f\<lparr>ff_body := None,
                      ff_pending_body_request := Some (ff_body_request f (ff_retry_delay f))\<rparr>) hs bs
           | _ \<Rightarrow> (Pending f, hs))"
  by pat_completeness auto
termination
  by (relation "measures [\<lambda>(D, f, hs, bs). length hs + length bs,
      \<lambda>(D, f, hs, bs). if ff_body f = None then 0 else 1]")
    (force dest!: ff_poll_header_length [OF sym] ff_poll_body_length [OF sym] split: if_splits)+

declare ff_poll.simps [simp del]

section \<open>A range of headers\<close>

record headers_range_future =
  hr_retry_delay :: nat
  hr_request :: get_headers
  hr_pending :: download_fut

definition hr_new :: "nat \<Rightarrow> get_headers \<Rightarrow> headers_range_future" where
  "hr_new delay request =
     \<lparr>hr_retry_delay = delay, hr_request = request,
      hr_pending = \<lparr>df_delay = 0, df_request = AskHeaders request\<rparr>\<rparr>"

definition hr_request_headers :: "headers_range_future \<Rightarrow> download_fut" where
  "hr_request_headers f = \<lparr>df_delay = hr_retry_delay f, df_request = AskHeaders (hr_request f)\<rparr>"

text \<open>\<open>on_response\<close>. Indexing an empty list of headers panics; a request with limit 0 gets there.\<close>

datatype range_response = Accepted "sealed_header list" | Rejected | Out_of_bounds

definition hr_on_response ::
  "fetch_deps \<Rightarrow> headers_range_future \<Rightarrow> header list answer \<Rightarrow> range_response" where
  "hr_on_response D f response =
     (case response of
        Inl error \<Rightarrow> Rejected
      | Inr headers \<Rightarrow>
          if length headers < unat (limit (hr_request f)) then Rejected
          else let headers_falling = map (seal_slow (fd_codec D)) headers
               in case headers_falling of
                    [] \<Rightarrow> Out_of_bounds
                  | first # _ \<Rightarrow>
                      if hash first \<noteq> start_hash (hr_request f) then Rejected
                      else let headers_rising = rev headers_falling
                           in if validate_header_range D headers_rising then Accepted headers_falling
                              else Rejected)"

fun hr_poll ::
  "fetch_deps \<Rightarrow> headers_range_future \<Rightarrow> header list answer list
     \<Rightarrow> (sealed_header list, headers_range_future) polled" where
  "hr_poll D f [] = Pending f"
| "hr_poll D f (response # hs) =
     (case hr_on_response D f response of
        Accepted headers \<Rightarrow> Ready headers
      | Rejected \<Rightarrow> hr_poll D (f\<lparr>hr_pending := hr_request_headers f\<rparr>) hs
      | Out_of_bounds \<Rightarrow> Panicked)"

section \<open>A full block and the headers of its ancestors\<close>

datatype full_block_with_ancestors_state =
  FullBlock full_block_future
| Ancestors sealed_block headers_range_future

record full_block_with_ancestors_future =
  fa_block_hash :: b256
  fa_ancestor_count :: u64
  fa_state :: full_block_with_ancestors_state

definition fa_new :: "nat \<Rightarrow> b256 \<Rightarrow> u64 \<Rightarrow> full_block_with_ancestors_future" where
  "fa_new delay block ancestors =
     \<lparr>fa_block_hash = block, fa_ancestor_count = ancestors, fa_state = FullBlock (ff_new delay block)\<rparr>"

text \<open>The loop of \<open>poll\<close> goes from the first state to the second and returns in the second.\<close>

definition fa_poll_ancestors ::
  "fetch_deps \<Rightarrow> full_block_with_ancestors_future \<Rightarrow> sealed_block \<Rightarrow> headers_range_future
     \<Rightarrow> header list answer list
     \<Rightarrow> (sealed_block \<times> sealed_header list, full_block_with_ancestors_future) polled" where
  "fa_poll_ancestors D f block fut hs =
     (case hr_poll D fut hs of
        Ready ancestors \<Rightarrow> Ready (block, ancestors)
      | Pending fut \<Rightarrow> Pending (f\<lparr>fa_state := Ancestors block fut\<rparr>)
      | Panicked \<Rightarrow> Panicked)"

definition fa_poll ::
  "fetch_deps \<Rightarrow> full_block_with_ancestors_future \<Rightarrow> header list answer list \<Rightarrow> block_body list answer list
     \<Rightarrow> (sealed_block \<times> sealed_header list, full_block_with_ancestors_future) polled" where
  "fa_poll D f hs bs =
     (case fa_state f of
        FullBlock fut \<Rightarrow>
          (case ff_poll D fut hs bs of
             (Ready block, hs) \<Rightarrow>
               let ancestors_fut = hr_new (ff_retry_delay fut)
                     \<lparr>start_hash = parent_hash block, limit = fa_ancestor_count f\<rparr>
               in fa_poll_ancestors D f block ancestors_fut hs
           | (Pending fut, hs) \<Rightarrow> Pending (f\<lparr>fa_state := FullBlock fut\<rparr>)
           | (Panicked, hs) \<Rightarrow> Panicked)
      | Ancestors block fut \<Rightarrow> fa_poll_ancestors D f block fut hs)"

section \<open>A range of full blocks\<close>

record full_block_range_bodies =
  br_headers :: "sealed_header list"
  br_fut :: download_fut
  br_bodies :: "block_body list"

datatype full_block_range_state =
  Headers headers_range_future
| Bodies full_block_range_bodies

record full_block_range_future =
  fr_retry_delay :: nat
  fr_request :: get_headers
  fr_state :: full_block_range_state

definition br_missing :: "full_block_range_bodies \<Rightarrow> b256 list" where
  "br_missing s = map hash (drop (length (br_bodies s)) (br_headers s))"

definition br_take_blocks :: "full_block_range_bodies \<Rightarrow> sealed_block list" where
  "br_take_blocks s = map (\<lambda>(header, b). from_sealed_parts header b) (zip (br_headers s) (br_bodies s))"

definition fr_new :: "nat \<Rightarrow> get_headers \<Rightarrow> full_block_range_future" where
  "fr_new delay request =
     \<lparr>fr_retry_delay = delay, fr_request = request, fr_state = Headers (hr_new delay request)\<rparr>"

definition fr_request_bodies :: "b256 list \<Rightarrow> nat \<Rightarrow> download_fut" where
  "fr_request_bodies request delay = \<lparr>df_delay = delay, df_request = AskBodies request\<rparr>"

text \<open>The \<open>for\<close> loop over the headers without a body. Its \<open>continue\<close> goes on with the next header
  and the next body of the same response.\<close>

fun fr_each ::
  "fetch_deps \<Rightarrow> nat \<Rightarrow> sealed_header list \<Rightarrow> block_body list \<Rightarrow> full_block_range_bodies
     \<Rightarrow> full_block_range_bodies" where
  "fr_each D delay [] pending_bodies s = s"
| "fr_each D delay (header # headers) [] s = fr_each D delay headers [] s"
| "fr_each D delay (header # headers) (b # pending_bodies) s =
     (if \<not> validate_body_against_header D b header
      then fr_each D delay headers pending_bodies (s\<lparr>br_fut := fr_request_bodies (br_missing s) delay\<rparr>)
      else fr_each D delay headers pending_bodies (s\<lparr>br_bodies := br_bodies s @ [b]\<rparr>))"

fun fr_poll_bodies ::
  "fetch_deps \<Rightarrow> full_block_range_future \<Rightarrow> full_block_range_bodies \<Rightarrow> block_body list answer list
     \<Rightarrow> (sealed_block list, full_block_range_future) polled" where
  "fr_poll_bodies D f s [] = Pending (f\<lparr>fr_state := Bodies s\<rparr>)"
| "fr_poll_bodies D f s (response # bs) =
     (case response of
        Inl error \<Rightarrow>
          fr_poll_bodies D f (s\<lparr>br_fut := fr_request_bodies (br_missing s) (fr_retry_delay f)\<rparr>) bs
      | Inr pending \<Rightarrow>
          if pending = [] then
            fr_poll_bodies D f (s\<lparr>br_fut := fr_request_bodies (br_missing s) (fr_retry_delay f)\<rparr>) bs
          else if length (br_headers s) < length (br_bodies s) then Panicked
          else let s = fr_each D (fr_retry_delay f) (drop (length (br_bodies s)) (br_headers s)) pending s;
                   remaining_hashes = br_missing s
               in if remaining_hashes \<noteq> []
                  then fr_poll_bodies D f (s\<lparr>br_fut := fr_request_bodies remaining_hashes 0\<rparr>) bs
                  else Ready (br_take_blocks s))"

definition fr_poll ::
  "fetch_deps \<Rightarrow> full_block_range_future \<Rightarrow> header list answer list \<Rightarrow> block_body list answer list
     \<Rightarrow> (sealed_block list, full_block_range_future) polled" where
  "fr_poll D f hs bs =
     (case fr_state f of
        Headers fut \<Rightarrow>
          (case hr_poll D fut hs of
             Ready headers \<Rightarrow>
               let fut = fr_request_bodies (map hash headers) 0
               in fr_poll_bodies D f \<lparr>br_headers = headers, br_fut = fut, br_bodies = []\<rparr> bs
           | Pending fut \<Rightarrow> Pending (f\<lparr>fr_state := Headers fut\<rparr>)
           | Panicked \<Rightarrow> Panicked)
      | Bodies s \<Rightarrow> fr_poll_bodies D f s bs)"

section \<open>A bytecode\<close>

record bytecode_future =
  bf_retry_delay :: nat
  bf_code_hash :: b256
  bf_pending :: download_fut

definition bf_new :: "nat \<Rightarrow> b256 \<Rightarrow> bytecode_future" where
  "bf_new delay code =
     \<lparr>bf_retry_delay = delay, bf_code_hash = code,
      bf_pending = \<lparr>df_delay = 0, df_request = AskBytecode code\<rparr>\<rparr>"

definition bf_bytecode_request :: "bytecode_future \<Rightarrow> download_fut" where
  "bf_bytecode_request f = \<lparr>df_delay = bf_retry_delay f, df_request = AskBytecode (bf_code_hash f)\<rparr>"

fun bf_poll ::
  "fetch_deps \<Rightarrow> bytecode_future \<Rightarrow> bytes answer list \<Rightarrow> (bytes, bytecode_future) polled" where
  "bf_poll D f [] = Pending f"
| "bf_poll D f (response # cs) =
     (case response of
        Inr bytecode \<Rightarrow>
          let bytecode = new_raw (fd_codec D) bytecode;
              code_hash = code_hash_slow (fd_codec D) bytecode
          in if code_hash = bf_code_hash f then Ready bytecode
             else bf_poll D (f\<lparr>bf_pending := bf_bytecode_request f\<rparr>) cs
      | Inl error \<Rightarrow> bf_poll D (f\<lparr>bf_pending := bf_bytecode_request f\<rparr>) cs)"

section \<open>A witness\<close>

record witness_future =
  wf_block_hash :: b256
  wf_retry_delay :: nat
  wf_pending :: download_fut

definition wf_new :: "nat \<Rightarrow> b256 \<Rightarrow> witness_future" where
  "wf_new delay block =
     \<lparr>wf_block_hash = block, wf_retry_delay = delay,
      wf_pending = \<lparr>df_delay = 0, df_request = AskWitness block\<rparr>\<rparr>"

definition wf_witness_request :: "witness_future \<Rightarrow> download_fut" where
  "wf_witness_request f = \<lparr>df_delay = wf_retry_delay f, df_request = AskWitness (wf_block_hash f)\<rparr>"

text \<open>The entries are not checked: the check is a comment in the code, and \<open>valid\<close> is true.\<close>

fun wf_poll ::
  "fetch_deps \<Rightarrow> witness_future \<Rightarrow> bytes list answer list \<Rightarrow> (execution_witness, witness_future) polled" where
  "wf_poll D f [] = Pending f"
| "wf_poll D f (response # ws) =
     (case response of
        Inr witness \<Rightarrow>
          if witness = [] then wf_poll D (f\<lparr>wf_pending := wf_witness_request f\<rparr>) ws
          else Ready (ew_new witness (rlp_length (fd_codec D) witness))
      | Inl error \<Rightarrow> wf_poll D (f\<lparr>wf_pending := wf_witness_request f\<rparr>) ws)"

end
