(* ===== verification/Fetch_Correct.thy ===== *)
theory Fetch_Correct
  imports Fetch State_Root
begin

text \<open>
  Correctness of the fetch futures. Three of them retry one request until an answer is good: the
  locale \<open>retrying\<close> states that contract, and it is interpreted on the header range, the
  bytecode and the witness. The full block is compared with a reference that searches the answers,
  and the finalized block and its ancestors with the chain the answers must form.
\<close>

section \<open>Retrying one request\<close>

text \<open>The first answer that is acceptable.\<close>

fun accept_first :: "('a \<Rightarrow> 'r option) \<Rightarrow> 'a list \<Rightarrow> 'r option" where
  "accept_first accept [] = None"
| "accept_first accept (a # as) =
     (case accept a of None \<Rightarrow> accept_first accept as | Some r \<Rightarrow> Some r)"

lemma accept_first_Some: "accept_first accept as = Some r \<Longrightarrow> \<exists>a\<in>set as. accept a = Some r"
  by (induction as) (auto split: option.splits)

lemma accept_first_None [simp]: "accept_first accept as = None \<longleftrightarrow> (\<forall>a\<in>set as. accept a = None)"
  by (induction as) (auto split: option.splits)

locale retrying =
  fixes poll :: "'f \<Rightarrow> 'a list \<Rightarrow> ('r, 'f) polled"
    and accept :: "'f \<Rightarrow> 'a \<Rightarrow> 'r option"
    and retry :: "'f \<Rightarrow> 'f"
    and ok :: "'f \<Rightarrow> bool"
  assumes poll_none: "poll f [] = Pending f"
    and poll_accept: "ok f \<Longrightarrow> accept f a = Some r \<Longrightarrow> poll f (a # as) = Ready r"
    and poll_reject: "ok f \<Longrightarrow> accept f a = None \<Longrightarrow> poll f (a # as) = poll (retry f) as"
    and retry_ok: "ok f \<Longrightarrow> ok (retry f)"
    and retry_accept: "accept (retry f) = accept f"
begin

lemma poll_first:
  "ok f \<Longrightarrow> poll f as =
     (case accept_first (accept f) as of
        Some r \<Rightarrow> Ready r
      | None \<Rightarrow> Pending ((retry ^^ length as) f))"
proof (induction as arbitrary: f)
  case (Cons a as)
  then show ?case
    by (cases "accept f a")
      (simp_all add: poll_accept poll_reject retry_ok retry_accept funpow_swap1 del: accept_first_None
        split: option.split)
qed (simp add: poll_none)

lemma poll_Ready: "ok f \<Longrightarrow> poll f as = Ready r \<longleftrightarrow> accept_first (accept f) as = Some r"
  by (simp add: poll_first del: accept_first_None split: option.split)

text \<open>What was refused in one poll is not asked for again: the next poll continues.\<close>

lemma poll_resume: "ok f \<Longrightarrow> poll f as = Pending g \<Longrightarrow> poll f (as @ bs) = poll g bs"
proof (induction as arbitrary: f)
  case (Cons a as)
  then show ?case
    by (cases "accept f a") (auto simp: poll_accept poll_reject retry_ok)
qed (simp add: poll_none)

lemma poll_answers: "ok f \<Longrightarrow> (\<exists>r. poll f as = Ready r) \<longleftrightarrow> (\<exists>a\<in>set as. accept f a \<noteq> None)"
  by (simp add: poll_first split: option.split) (metis accept_first_None not_None_eq)

end

definition hr_accept ::
  "fetch_deps \<Rightarrow> headers_range_future \<Rightarrow> header list answer \<Rightarrow> sealed_header list option" where
  "hr_accept D f response =
     (case hr_on_response D f response of Accepted headers \<Rightarrow> Some headers | _ \<Rightarrow> None)"

definition bf_accept :: "fetch_deps \<Rightarrow> bytecode_future \<Rightarrow> bytes answer \<Rightarrow> bytes option" where
  "bf_accept D f response =
     (case response of
        Inl _ \<Rightarrow> None
      | Inr code \<Rightarrow>
          if code_hash_slow (fd_codec D) (new_raw (fd_codec D) code) = bf_code_hash f
          then Some (new_raw (fd_codec D) code) else None)"

definition wf_accept :: "fetch_deps \<Rightarrow> witness_future \<Rightarrow> bytes list answer \<Rightarrow> execution_witness option" where
  "wf_accept D f response =
     (case response of
        Inl _ \<Rightarrow> None
      | Inr es \<Rightarrow> if es = [] then None else Some (ew_new es (rlp_length (fd_codec D) es)))"

interpretation headers: retrying "hr_poll D" "hr_accept D"
  "\<lambda>f. f\<lparr>hr_pending := hr_request_headers f\<rparr>" "\<lambda>f. limit (hr_request f) \<noteq> 0"
  by unfold_locales
    (auto simp: hr_accept_def hr_on_response_def fun_eq_iff Let_def unat_eq_zero
      split: range_response.splits sum.splits list.splits if_splits)

interpretation bytecode: retrying "bf_poll D" "bf_accept D"
  "\<lambda>f. f\<lparr>bf_pending := bf_bytecode_request f\<rparr>" "\<lambda>f. True"
  by unfold_locales (auto simp: bf_accept_def Let_def split: sum.splits if_splits)

interpretation witness: retrying "wf_poll D" "wf_accept D"
  "\<lambda>f. f\<lparr>wf_pending := wf_witness_request f\<rparr>" "\<lambda>f. True"
  by unfold_locales (auto simp: wf_accept_def split: sum.splits if_splits)

section \<open>The full block\<close>

text \<open>Between two polls exactly one of a stored part and a request for it is there, a stored header is
  the one that was asked for, and the requests ask for the block of the future.\<close>

definition ff_ok :: "fetch_deps \<Rightarrow> full_block_future \<Rightarrow> bool" where
  "ff_ok D f \<longleftrightarrow>
     (ff_header f = None \<longleftrightarrow> ff_pending_header_request f \<noteq> None) \<and>
     (ff_body f = None \<longleftrightarrow> ff_pending_body_request f \<noteq> None) \<and>
     pred_option (\<lambda>r. df_request r = AskHeaders \<lparr>start_hash = ff_block_hash f, limit = 1\<rparr>)
       (ff_pending_header_request f) \<and>
     pred_option (\<lambda>r. df_request r = AskBodies [ff_block_hash f]) (ff_pending_body_request f) \<and>
     pred_option (\<lambda>h. h = seal_slow (fd_codec D) (header.truncate h) \<and> hash h = ff_block_hash f) (ff_header f)"

definition good_header :: "fetch_deps \<Rightarrow> b256 \<Rightarrow> header list answer \<Rightarrow> sealed_header option" where
  "good_header D want answer =
     (case first_of answer of
        Inr (Some h) \<Rightarrow> if hash_slow (fd_codec D) h = want then Some (seal_slow (fd_codec D) h) else None
      | _ \<Rightarrow> None)"

definition good_body :: "fetch_deps \<Rightarrow> sealed_header \<Rightarrow> block_body list answer \<Rightarrow> block_body option" where
  "good_body D h answer =
     (case first_of answer of
        Inr (Some b) \<Rightarrow> if validate_body_against_header D b h then Some b else None
      | _ \<Rightarrow> None)"

text \<open>The reference: the first good header, and the first body that is good for it, where a stored
  part comes before the answers.\<close>

definition ff_reference ::
  "fetch_deps \<Rightarrow> full_block_future \<Rightarrow> header list answer list \<Rightarrow> block_body list answer list
     \<Rightarrow> sealed_block option" where
  "ff_reference D f hs bs =
     (case (case ff_header f of
              Some h \<Rightarrow> Some h
            | None \<Rightarrow> accept_first (good_header D (ff_block_hash f)) hs) of
        None \<Rightarrow> None
      | Some h \<Rightarrow>
          map_option (from_sealed_parts h)
            (accept_first (good_body D h)
              ((case ff_body f of Some b \<Rightarrow> [Inr [b]] | None \<Rightarrow> []) @ bs)))"

text \<open>The parts the reference has found: the header, and the body, which is any body at all as long as
  there is no header to check it against.\<close>

definition any_body :: "block_body list answer \<Rightarrow> block_body option" where
  "any_body answer = (case first_of answer of Inr b \<Rightarrow> b | Inl _ \<Rightarrow> None)"

definition usable_body :: "fetch_deps \<Rightarrow> sealed_header option \<Rightarrow> block_body list answer \<Rightarrow> block_body option" where
  "usable_body D header = (case header of None \<Rightarrow> any_body | Some h \<Rightarrow> good_body D h)"

lemma usable_body_simps [simp]: "usable_body D None = any_body" "usable_body D (Some h) = good_body D h"
  by (simp_all add: usable_body_def)

definition ff_parts ::
  "fetch_deps \<Rightarrow> full_block_future \<Rightarrow> header list answer list \<Rightarrow> block_body list answer list
     \<Rightarrow> sealed_header option \<times> block_body option" where
  "ff_parts D f hs bs =
     (let header = (case ff_header f of
                      Some h \<Rightarrow> Some h
                    | None \<Rightarrow> accept_first (good_header D (ff_block_hash f)) hs)
      in (header,
          accept_first (usable_body D header)
            ((case ff_body f of Some b \<Rightarrow> [Inr [b]] | None \<Rightarrow> []) @ bs)))"

lemma ff_reference_parts:
  "ff_reference D f hs bs =
     (case ff_parts D f hs bs of (Some h, Some b) \<Rightarrow> Some (from_sealed_parts h b) | _ \<Rightarrow> None)"
  by (auto simp: ff_reference_def ff_parts_def Let_def split: option.splits)

lemma first_of_simps [simp]:
  "first_of (Inl e) = Inl e" "first_of (Inr []) = Inr None" "first_of (Inr (x # xs)) = Inr (Some x)"
  by (simp_all add: first_of_def)

lemma ff_new_ok: "ff_ok D (ff_new delay block)"
  by (simp add: ff_ok_def ff_new_def ff_header_request_def ff_body_request_def)

text \<open>The two reading steps, by whether the answer is good.\<close>

lemma ff_poll_header_answer:
  assumes "ff_pending_header_request f = Some r" "ff_header f = None"
  shows "ff_poll_header D f (a # hs) =
     (case good_header D (ff_block_hash f) a of
        None \<Rightarrow> (True, f\<lparr>ff_pending_header_request := Some (ff_header_request f (ff_retry_delay f))\<rparr>, hs)
      | Some h \<Rightarrow> (False, f\<lparr>ff_pending_header_request := None, ff_header := Some h\<rparr>, hs))"
  using assms
  by (cases "first_of a")
    (auto simp: ff_poll_header_def good_header_def ff_on_header_response_def Let_def ff_header_request_def
      split: option.splits)

lemma ff_poll_header_idle:
  "ff_pending_header_request f = None \<or> hs = [] \<Longrightarrow> ff_poll_header D f hs = (False, f, hs)"
  by (auto simp: ff_poll_header_def split: option.split)

lemma ff_poll_body_answer:
  assumes "ff_pending_body_request f = Some r" "ff_body f = None"
  shows "ff_poll_body f (a # bs) =
     (case first_of a of
        Inr (Some b) \<Rightarrow> (False, f\<lparr>ff_pending_body_request := None, ff_body := Some b\<rparr>, bs)
      | _ \<Rightarrow> (True, f\<lparr>ff_pending_body_request := Some (ff_body_request f (ff_retry_delay f))\<rparr>, bs))"
  using assms
  by (cases "first_of a")
    (auto simp: ff_poll_body_def ff_on_body_response_def Let_def ff_body_request_def split: option.splits)

lemma ff_poll_body_idle:
  "ff_pending_body_request f = None \<or> bs = [] \<Longrightarrow> ff_poll_body f bs = (False, f, bs)"
  by (auto simp: ff_poll_body_def split: option.split)

lemma good_header_sound:
  "good_header D want a = Some h \<Longrightarrow> h = seal_slow (fd_codec D) (header.truncate h) \<and> hash h = want"
  by (auto simp: good_header_def split: sum.splits option.splits if_splits)

lemma good_body_first:
  "first_of a = first_of c \<Longrightarrow> good_body D h a = good_body D h c"
  "first_of a \<notin> range (Inr \<circ> Some) \<Longrightarrow> good_body D h a = None"
  "first_of a = first_of c \<Longrightarrow> usable_body D header a = usable_body D header c"
  "first_of a \<notin> range (Inr \<circ> Some) \<Longrightarrow> usable_body D header a = None"
  by (cases header; auto simp: good_body_def any_body_def image_iff split: sum.splits option.splits)+

lemma ff_poll_header_step:
  assumes "ff_ok D f" "ff_poll_header D f hs = (again, g, hs')"
  shows "ff_ok D g \<and> ff_block_hash g = ff_block_hash f \<and>
    ff_parts D g hs' bs = ff_parts D f hs bs \<and> (\<not> again \<longrightarrow> ff_header g = None \<longrightarrow> hs' = [])"
proof (cases "ff_pending_header_request f = None \<or> hs = []")
  case True
  with assms show ?thesis
    by (auto simp: ff_poll_header_idle ff_ok_def)
next
  case False
  with assms(1) obtain r a as where f: "ff_pending_header_request f = Some r" "ff_header f = None" "hs = a # as"
    by (auto simp: ff_ok_def neq_Nil_conv)
  with assms show ?thesis
    by (cases "good_header D (ff_block_hash f) a")
      (auto simp: ff_poll_header_answer ff_ok_def ff_parts_def Let_def ff_header_request_def
        dest: good_header_sound cong: option.case_cong)
qed

lemma ff_poll_body_step:
  assumes "ff_ok D f" "ff_poll_body f bs = (again, g, bs')"
  shows "ff_ok D g \<and> ff_block_hash g = ff_block_hash f \<and> ff_header g = ff_header f \<and>
    ff_parts D g hs bs' = ff_parts D f hs bs \<and> (\<not> again \<longrightarrow> ff_body g = None \<longrightarrow> bs' = [])"
proof (cases "ff_pending_body_request f = None \<or> bs = []")
  case True
  with assms show ?thesis
    by (auto simp: ff_poll_body_idle ff_ok_def)
next
  case False
  with assms(1) obtain r a as where f: "ff_pending_body_request f = Some r" "ff_body f = None" "bs = a # as"
    by (auto simp: ff_ok_def neq_Nil_conv)
  show ?thesis
  proof (cases "\<exists>b. first_of a = Inr (Some b)")
    case True
    then obtain b where b: "first_of a = Inr (Some b)" by blast
    then have "usable_body D header a = usable_body D header (Inr [b])" for header
      by (intro good_body_first(3)) simp
    with assms f b show ?thesis
      by (auto simp: ff_poll_body_answer ff_ok_def ff_parts_def Let_def cong: option.case_cong)
  next
    case False
    then have "usable_body D header a = None" for header by (intro good_body_first(4)) auto
    moreover from False have "again \<and> bs' = as \<and>
        g = f\<lparr>ff_pending_body_request := Some (ff_body_request f (ff_retry_delay f))\<rparr>"
      using assms(2) f by (auto simp: ff_poll_body_answer split: sum.splits option.splits)
    ultimately show ?thesis
      using assms(1) f by (simp add: ff_ok_def ff_parts_def Let_def ff_body_request_def cong: option.case_cong)
  qed
qed

text \<open>What a poll may return for a future: the block of the reference, or, when the reference has
  none, a future for the same block that holds the parts the reference has found.\<close>

definition ff_agrees ::
  "fetch_deps \<Rightarrow> full_block_future \<Rightarrow> header list answer list \<Rightarrow> block_body list answer list
     \<Rightarrow> (sealed_block, full_block_future) polled \<Rightarrow> bool" where
  "ff_agrees D f hs bs out = (case out of
      Ready block \<Rightarrow> ff_reference D f hs bs = Some block
    | Pending g \<Rightarrow> ff_reference D f hs bs = None \<and> ff_ok D g \<and> ff_block_hash g = ff_block_hash f \<and>
        (ff_header g, ff_body g) = ff_parts D f hs bs
    | Panicked \<Rightarrow> False)"

lemma ff_agrees_step:
  "\<lbrakk>ff_agrees D g hs' bs' out; ff_parts D f hs bs = ff_parts D g hs' bs';
    ff_block_hash g = ff_block_hash f\<rbrakk> \<Longrightarrow> ff_agrees D f hs bs out"
  by (auto simp: ff_agrees_def ff_reference_parts split: polled.splits)

abbreviation ff_ask_again :: "full_block_future \<Rightarrow> full_block_future" where
  "ff_ask_again k \<equiv>
     k\<lparr>ff_body := None, ff_pending_body_request := Some (ff_body_request k (ff_retry_delay k))\<rparr>"

text \<open>The end of a round, when neither request is answered any more: a part is missing, or the block
  is complete, or its body is dropped and asked for again.\<close>

lemma ff_round_waits:
  assumes "ff_ok D k" "ff_header k = None \<Longrightarrow> hs = []" "ff_body k = None \<Longrightarrow> bs = []"
    and "ff_header k = None \<or> ff_body k = None"
  shows "ff_agrees D k hs bs (Pending k)"
  using assms by (cases "ff_header k"; cases "ff_body k") (simp_all add: ff_agrees_def ff_reference_def ff_parts_def any_body_def)

lemma ff_round_complete:
  assumes "ff_header k = Some h" "ff_body k = Some b" "validate_body_against_header D b h"
  shows "ff_agrees D k hs bs (Ready (from_sealed_parts h b))"
  using assms by (simp add: ff_agrees_def ff_reference_def good_body_def)

lemma ff_round_again:
  assumes "ff_ok D k" "ff_header k = Some h" "ff_body k = Some b" "\<not> validate_body_against_header D b h"
  shows "ff_ok D (ff_ask_again k)" "ff_parts D k hs bs = ff_parts D (ff_ask_again k) hs bs"
  using assms by (simp_all add: ff_ok_def ff_body_request_def ff_parts_def good_body_def)

lemma ff_poll_outcome: "ff_ok D f \<Longrightarrow> ff_agrees D f hs bs (fst (ff_poll D f hs bs))"
proof (induction D f hs bs rule: ff_poll.induct)
  case (1 D f hs bs)
  obtain again g hs' where H: "ff_poll_header D f hs = (again, g, hs')" by (cases "ff_poll_header D f hs")
  note h = ff_poll_header_step [OF "1.prems" H]
  show ?case
  proof (cases again)
    case True
    with 1(1) [OF H [symmetric] refl True] h [of bs] H show ?thesis
      by (subst ff_poll.simps) (auto intro: ff_agrees_step [OF _ sym])
  next
    case False
    obtain again' k bs' where B: "ff_poll_body g bs = (again', k, bs')" by (cases "ff_poll_body g bs")
    note b = ff_poll_body_step [OF conjunct1 [OF h] B]
    have k: "ff_ok D k" "ff_parts D f hs bs = ff_parts D k hs' bs'" "ff_block_hash k = ff_block_hash f"
      using h [of bs] b [of hs'] by simp_all
    note run = ff_poll.simps [of D f hs bs, unfolded H B prod.case, simplified False if_False]
    consider (again) "again'" | (waiting) "\<not> again'" "ff_header k = None \<or> ff_body k = None"
      | (both) h0 b0 where "ff_header k = Some h0" "ff_body k = Some b0" "\<not> again'"
      by (cases "ff_header k"; cases "ff_body k"; blast)
    then have "ff_agrees D k hs' bs' (fst (ff_poll D f hs bs))"
    proof cases
      case again
      with 1(2) [OF H [symmetric] refl False B [symmetric] refl again] k(1) run show ?thesis by simp
    next
      case waiting
      with b [of hs'] h [of bs] False
      have "ff_agrees D k hs' bs' (Pending k)" by (intro ff_round_waits) auto
      with waiting run show ?thesis by (auto split: option.split)
    next
      case both
      show ?thesis
      proof (cases "validate_body_against_header D b0 h0")
        case True
        with both run show ?thesis by (simp add: ff_round_complete)
      next
        case invalid: False
        note again = ff_round_again [OF k(1) both(1,2) invalid]
        have "ff_agrees D (ff_ask_again k) hs' bs' (fst (ff_poll D (ff_ask_again k) hs' bs'))"
          by (rule 1(3) [OF H [symmetric] refl False B [symmetric] refl])
            (use both invalid again(1) in simp_all)
        with again(2) show ?thesis using both invalid run by (auto intro: ff_agrees_step)
      qed
    qed
    then show ?thesis using k(2,3) by (rule ff_agrees_step)
  qed
qed

text \<open>The answers to body requests that a poll reads: once it has a header it reads them all, and
  without one it stops at the first body, which waits for the header.\<close>

fun up_to_body :: "block_body list answer list \<Rightarrow> block_body list answer list" where
  "up_to_body [] = []"
| "up_to_body (a # as) = (if any_body a = None then a # up_to_body as else [a])"

definition ff_read_bodies ::
  "fetch_deps \<Rightarrow> full_block_future \<Rightarrow> header list answer list \<Rightarrow> block_body list answer list
     \<Rightarrow> block_body list answer list" where
  "ff_read_bodies D f hs bs =
     (if fst (ff_parts D f hs bs) \<noteq> None then bs else if ff_body f \<noteq> None then [] else up_to_body bs)"

lemma accept_first_append:
  "accept_first accept (as @ bs) = (case accept_first accept as of None \<Rightarrow> accept_first accept bs | Some r \<Rightarrow> Some r)"
  by (induction as) (auto simp del: accept_first_None split: option.split)

lemma good_any_body: "good_body D h a = (case any_body a of None \<Rightarrow> None | Some b \<Rightarrow> good_body D h (Inr [b]))"
  by (auto simp: good_body_def any_body_def split: sum.splits option.splits)

lemma up_to_body_good:
  "accept_first (good_body D h) (up_to_body bs) =
     (case accept_first any_body bs of None \<Rightarrow> None | Some b \<Rightarrow> good_body D h (Inr [b]))"
proof (induction bs)
  case (Cons a bs)
  then show ?case using good_any_body [of D h a] by (auto simp del: accept_first_None split: option.splits)
qed simp

text \<open>The parts a future holds stand for the answers it has read: the next poll goes on as if all
  answers had come at once.\<close>

lemma ff_resume:
  assumes held: "(ff_header g, ff_body g) = ff_parts D f hs bs" and hash: "ff_block_hash g = ff_block_hash f"
    and none: "ff_reference D f hs bs = None"
  shows "ff_reference D g hs' bs' = ff_reference D f (hs @ hs') (ff_read_bodies D f hs bs @ bs')"
proof (cases "fst (ff_parts D f hs bs)")
  case (Some h)
  let ?stored = "case ff_body f of Some b \<Rightarrow> [Inr [b]] | None \<Rightarrow> []"
  have h: "(case ff_header f of Some h \<Rightarrow> Some h | None \<Rightarrow> accept_first (good_header D (ff_block_hash f)) hs) = Some h"
    using Some by (simp add: ff_parts_def Let_def)
  then have bad: "accept_first (good_body D h) (?stored @ bs) = None"
    using none by (simp add: ff_reference_def del: accept_first_None)
  then have g: "ff_header g = Some h" "ff_body g = None" using held h by (simp_all add: ff_parts_def Let_def)
  have "(case ff_header f of Some h \<Rightarrow> Some h | None \<Rightarrow> accept_first (good_header D (ff_block_hash f)) (hs @ hs')) = Some h"
    using h by (auto simp: accept_first_append simp del: accept_first_None split: option.splits)
  moreover have "accept_first (good_body D h) (?stored @ bs @ bs') = accept_first (good_body D h) bs'"
    using bad by (simp add: accept_first_append [of _ "?stored @ bs" bs', unfolded append_assoc] del: accept_first_None)
  ultimately show ?thesis using Some g by (simp add: ff_reference_def ff_read_bodies_def)
next
  case None
  then have f: "ff_header f = None" "accept_first (good_header D (ff_block_hash f)) hs = None"
    by (auto simp: ff_parts_def Let_def simp del: accept_first_None split: option.splits)
  then have g: "ff_header g = None"
    "ff_body g = accept_first any_body ((case ff_body f of Some b \<Rightarrow> [Inr [b]] | None \<Rightarrow> []) @ bs)"
    using held by (simp_all add: ff_parts_def del: accept_first_None)
  have "accept_first (good_body D h) ((case ff_body g of Some b \<Rightarrow> [Inr [b]] | None \<Rightarrow> []) @ bs') =
      accept_first (good_body D h)
        ((case ff_body f of Some b \<Rightarrow> [Inr [b]] | None \<Rightarrow> []) @ ff_read_bodies D f hs bs @ bs')" for h
  proof (cases "ff_body f")
    case None
    then show ?thesis
      using g(2) \<open>fst (ff_parts D f hs bs) = None\<close>
      by (cases "accept_first any_body bs")
        (simp_all add: ff_read_bodies_def accept_first_append up_to_body_good del: accept_first_None)
  next
    case (Some b)
    with g(2) None show ?thesis by (simp add: ff_read_bodies_def any_body_def)
  qed
  with f g(1) hash show ?thesis
    by (simp add: ff_reference_def accept_first_append del: accept_first_None cong: option.case_cong)
qed

text \<open>(C4) Fetching a full block does what the reference says, whatever the peers answer: the future
  returns the first header with the requested hash together with the first body valid for it, and
  it waits exactly when one of the two has not arrived. It never panics. What it leaves behind when
  it waits is again such a future for the same block and holds exactly the parts that have arrived,
  a body that came before its header included; and how the answers are spread over polls does not
  matter: the next poll returns what the reference finds in all the answers read so far followed by
  the new ones.\<close>

theorem full_block_fetched:
  assumes "ff_ok D f"
  shows "(fst (ff_poll D f hs bs) = Ready block \<longleftrightarrow> ff_reference D f hs bs = Some block) \<and>
    (case fst (ff_poll D f hs bs) of
       Ready _ \<Rightarrow> True
     | Pending g \<Rightarrow> ff_reference D f hs bs = None \<and> ff_ok D g \<and> ff_block_hash g = ff_block_hash f \<and>
         (ff_header g, ff_body g) = ff_parts D f hs bs \<and>
         (\<forall>hs' bs' block'. fst (ff_poll D g hs' bs') = Ready block' \<longleftrightarrow>
            ff_reference D f (hs @ hs') (ff_read_bodies D f hs bs @ bs') = Some block')
     | Panicked \<Rightarrow> False)"
proof -
  note out = ff_poll_outcome [OF assms, of hs bs]
  have ready: "fst (ff_poll D g hs' bs') = Ready block' \<longleftrightarrow> ff_reference D g hs' bs' = Some block'"
    if "ff_ok D g" for g hs' bs' block'
    using ff_poll_outcome [OF that, of hs' bs'] by (auto simp: ff_agrees_def split: polled.splits)
  show ?thesis
  proof (cases "fst (ff_poll D f hs bs)")
    case (Pending g)
    with out have g: "ff_ok D g" "ff_block_hash g = ff_block_hash f" "(ff_header g, ff_body g) = ff_parts D f hs bs"
      "ff_reference D f hs bs = None" by (simp_all add: ff_agrees_def)
    with Pending ready [OF g(1)] ff_resume [OF g(3,2,4)] show ?thesis by simp
  qed (use out in \<open>auto simp: ff_agrees_def\<close>)
qed

lemma from_sealed_parts_sel [simp]:
  "hash (from_sealed_parts h b) = hash h" "parent_hash (from_sealed_parts h b) = parent_hash h"
  "number (from_sealed_parts h b) = number h" "body (from_sealed_parts h b) = b"
  "sealed_header.truncate (from_sealed_parts h b) = h"
  "header.truncate (from_sealed_parts h b) = header.truncate h"
  by (simp_all add: from_sealed_parts_def sealed_header.defs sealed_block.defs header.defs)

text \<open>A block that authenticates itself: its hash is the hash of its header, and its body is valid
  for the header.\<close>

definition block_checked :: "fetch_deps \<Rightarrow> b256 \<Rightarrow> sealed_block \<Rightarrow> bool" where
  "block_checked D want block \<longleftrightarrow>
     hash block = want \<and> hash_slow (fd_codec D) (header.truncate block) = want \<and>
     validate_body_against_header D (body block) (sealed_header.truncate block)"

lemma ff_reference_checked:
  assumes "ff_ok D f" "ff_reference D f hs bs = Some block"
  shows "block_checked D (ff_block_hash f) block"
proof -
  from assms(2) obtain h b where block: "block = from_sealed_parts h b"
    and h: "ff_header f = Some h \<or> accept_first (good_header D (ff_block_hash f)) hs = Some h"
    and b: "accept_first (good_body D h)
      ((case ff_body f of Some b \<Rightarrow> [Inr [b]] | None \<Rightarrow> []) @ bs) = Some b"
    by (auto simp: ff_reference_def split: option.splits simp del: accept_first_None)
  from h assms(1) have "h = seal_slow (fd_codec D) (header.truncate h) \<and> hash h = ff_block_hash f"
    by (auto simp: ff_ok_def dest: accept_first_Some good_header_sound)
  moreover from b have "validate_body_against_header D b h"
    by (auto dest!: accept_first_Some simp: good_body_def split: sum.splits option.splits if_splits)
  ultimately show ?thesis
    by (simp add: block_checked_def block) (metis seal_slow_sel(1))
qed

section \<open>The finalized block and its ancestors\<close>

text \<open>What reth documents of the validation of a header range in rising order: every header has the
  one before it as its parent, by hash and by number.\<close>

definition validate_header_range_spec :: "fetch_deps \<Rightarrow> bool" where
  "validate_header_range_spec D \<longleftrightarrow>
     (\<forall>hs. validate_header_range D hs \<longrightarrow>
        successively (\<lambda>p c. parent_hash c = hash p \<and> unat (number c) = unat (number p) + 1) hs)"

text \<open>A list of headers in falling order that authenticates itself from the hash of the first, with
  consecutive numbers.\<close>

fun header_chain :: "codec \<Rightarrow> b256 \<Rightarrow> sealed_header list \<Rightarrow> bool" where
  "header_chain c want [] = True"
| "header_chain c want (h # hs) \<longleftrightarrow>
     hash h = want \<and> hash_slow c (header.truncate h) = want \<and>
     (hs \<noteq> [] \<longrightarrow> unat (number h) = unat (number (List.hd hs)) + 1) \<and> header_chain c (parent_hash h) hs"

lemma header_chain_sealed:
  "successively (\<lambda>c p. parent_hash c = hash p \<and> unat (number c) = unat (number p) + 1) (map (seal_slow c) hs) \<Longrightarrow>
   hs \<noteq> [] \<Longrightarrow> hash_slow c (List.hd hs) = want \<Longrightarrow> header_chain c want (map (seal_slow c) hs)"
proof (induction hs arbitrary: want)
  case (Cons h hs)
  then show ?case by (cases hs) auto
qed simp

lemma falling_numbers:
  "successively (\<lambda>c p. unat (number c) = unat (number p) + 1) (hs :: sealed_header list) \<Longrightarrow> hs \<noteq> [] \<Longrightarrow>
   length hs \<le> unat (number (List.hd hs)) + 1"
proof (induction hs)
  case (Cons h hs)
  then show ?case by (cases hs) auto
qed simp

lemma successively_conj:
  "successively (\<lambda>x y. P x y \<and> Q x y) xs \<longleftrightarrow> successively P xs \<and> successively Q xs"
  by (induction xs rule: induct_list012) auto

lemma hr_accept_chain:
  assumes "validate_header_range_spec D" "hr_accept D f answer = Some headers"
  shows "header_chain (fd_codec D) (start_hash (hr_request f)) headers"
    and "unat (limit (hr_request f)) \<le> length headers"
    and "headers \<noteq> [] \<and> length headers \<le> unat (number (List.hd headers)) + 1"
proof -
  from assms(2) obtain hs where "answer = Inr hs"
    by (cases answer) (simp_all add: hr_accept_def hr_on_response_def)
  with assms(2) have headers: "headers = map (seal_slow (fd_codec D)) hs" "hs \<noteq> []"
      "hash_slow (fd_codec D) (List.hd hs) = start_hash (hr_request f)"
      "validate_header_range D (rev headers)" "unat (limit (hr_request f)) \<le> length headers"
    by (cases hs; auto simp: hr_accept_def hr_on_response_def Let_def
      split: range_response.splits if_splits)+
  then have "successively (\<lambda>p c. parent_hash c = hash p \<and> unat (number c) = unat (number p) + 1) (rev headers)"
    using assms(1) unfolding validate_header_range_spec_def by blast
  then have "successively (\<lambda>c p. parent_hash c = hash p \<and> unat (number c) = unat (number p) + 1) headers"
    by (simp add: successively_rev)
  then have linked: "successively (\<lambda>c p. parent_hash c = hash p \<and> unat (number c) = unat (number p) + 1) headers"
      "successively (\<lambda>c p. unat (number c) = unat (number p) + 1) headers"
    by (simp_all add: successively_conj)
  show "header_chain (fd_codec D) (start_hash (hr_request f)) headers"
    using linked(1) headers by (simp add: header_chain_sealed)
  show "unat (limit (hr_request f)) \<le> length headers" by fact
  show "headers \<noteq> [] \<and> length headers \<le> unat (number (List.hd headers)) + 1"
    using falling_numbers [OF linked(2)] headers(1,2) by simp
qed

lemma hr_on_response_accepts:
  assumes "unat (limit (hr_request f)) \<le> length hs" "hs \<noteq> []"
    and "hash_slow (fd_codec D) (List.hd hs) = start_hash (hr_request f)"
    and "validate_header_range D (rev (map (seal_slow (fd_codec D)) hs))"
  shows "hr_on_response D f (Inr hs) = Accepted (map (seal_slow (fd_codec D)) hs)"
  using assms by (cases hs) (auto simp: hr_on_response_def)

definition fa_ok :: "fetch_deps \<Rightarrow> full_block_with_ancestors_future \<Rightarrow> bool" where
  "fa_ok D f \<longleftrightarrow>
     fa_ancestor_count f \<noteq> 0 \<and>
     (case fa_state f of
        FullBlock fut \<Rightarrow> ff_ok D fut \<and> ff_block_hash fut = fa_block_hash f
      | Ancestors block fut \<Rightarrow>
          block_checked D (fa_block_hash f) block \<and>
          hr_request fut = \<lparr>start_hash = parent_hash block, limit = fa_ancestor_count f\<rparr>)"

lemma fa_new_ok: "ancestors \<noteq> 0 \<Longrightarrow> fa_ok D (fa_new delay block ancestors)"
  by (simp add: fa_ok_def fa_new_def ff_new_ok) (simp add: ff_new_def Let_def)

lemma hr_new_request [simp]: "hr_request (hr_new delay r) = r"
  by (simp add: hr_new_def)

text \<open>Pending requests keep what they ask for.\<close>

lemma hr_poll_request: "hr_poll D f hs = Pending g \<Longrightarrow> hr_request g = hr_request f"
  by (induction D f hs rule: hr_poll.induct) (auto split: range_response.splits)

lemma fa_poll_ancestors_cases:
  assumes "block_checked D (fa_block_hash f) block" "fa_ancestor_count f \<noteq> 0"
    "hr_request fut = \<lparr>start_hash = parent_hash block, limit = fa_ancestor_count f\<rparr>"
  shows "case fa_poll_ancestors D f block fut hs of
      Ready (block, ancestors) \<Rightarrow>
        block_checked D (fa_block_hash f) block \<and>
        (\<exists>fut answer. hr_request fut = \<lparr>start_hash = parent_hash block, limit = fa_ancestor_count f\<rparr> \<and>
           hr_accept D fut answer = Some ancestors)
    | Pending g \<Rightarrow> fa_ok D g \<and> fa_block_hash g = fa_block_hash f \<and> fa_ancestor_count g = fa_ancestor_count f
    | Panicked \<Rightarrow> False"
  using assms headers.poll_first [of fut D hs]
  by (auto simp: fa_poll_ancestors_def fa_ok_def hr_poll_request split: polled.splits option.splits
    simp del: accept_first_None dest!: accept_first_Some)

lemma fa_poll_cases:
  assumes "fa_ok D f"
  shows "case fa_poll D f hs bs of
      Ready (block, ancestors) \<Rightarrow>
        block_checked D (fa_block_hash f) block \<and>
        (\<exists>fut answer. hr_request fut = \<lparr>start_hash = parent_hash block, limit = fa_ancestor_count f\<rparr> \<and>
           hr_accept D fut answer = Some ancestors)
    | Pending g \<Rightarrow> fa_ok D g \<and> fa_block_hash g = fa_block_hash f \<and> fa_ancestor_count g = fa_ancestor_count f
    | Panicked \<Rightarrow> False"
proof (cases "fa_state f")
  case (Ancestors block fut)
  with assms fa_poll_ancestors_cases [of D f block fut hs] show ?thesis
    by (simp add: fa_ok_def fa_poll_def)
next
  case (FullBlock fut)
  with assms have fut: "ff_ok D fut" "ff_block_hash fut = fa_block_hash f" "fa_ancestor_count f \<noteq> 0"
    by (simp_all add: fa_ok_def)
  obtain r hs' where r: "ff_poll D fut hs bs = (r, hs')" by (cases "ff_poll D fut hs bs")
  show ?thesis
  proof (cases r)
    case (Ready block)
    with ff_poll_outcome [OF fut(1), of hs bs] r ff_reference_checked [OF fut(1), of hs bs block] fut(2)
    have "block_checked D (fa_block_hash f) block" by (simp add: ff_agrees_def)
    from fa_poll_ancestors_cases [OF this fut(3), of "hr_new (ff_retry_delay fut)
        \<lparr>start_hash = parent_hash block, limit = fa_ancestor_count f\<rparr>" hs']
    show ?thesis using FullBlock r Ready by (simp add: fa_poll_def)
  next
    case (Pending g)
    with ff_poll_outcome [OF fut(1), of hs bs] r fut FullBlock show ?thesis
      by (simp add: ff_agrees_def fa_poll_def fa_ok_def)
  next
    case Panicked
    with ff_poll_outcome [OF fut(1), of hs bs] r show ?thesis by (simp add: ff_agrees_def)
  qed
qed

lemma fa_poll_chain:
  assumes "validate_header_range_spec D" "fa_ok D f"
  shows "case fa_poll D f hs bs of
      Ready (block, ancestors) \<Rightarrow>
        block_checked D (fa_block_hash f) block \<and>
        header_chain (fd_codec D) (parent_hash block) ancestors \<and>
        unat (fa_ancestor_count f) \<le> length ancestors
    | Pending g \<Rightarrow> fa_ok D g \<and> fa_block_hash g = fa_block_hash f \<and> fa_ancestor_count g = fa_ancestor_count f
    | Panicked \<Rightarrow> False"
  using fa_poll_cases [OF assms(2), of hs bs]
  by (fastforce split: polled.splits dest: hr_accept_chain(1,2) [OF assms(1)])

text \<open>(C5) What the finalized download returns is authenticated from the requested hash alone, whatever
  the peers send: the block's header hashes to it and its body is valid for the header, and the
  ancestors are the header chain from the block's parent down, each hash computed from its header
  and the numbers consecutive, at least as many as were asked for. While it waits the future stays a future for that block,
  and it does not panic.\<close>

theorem finalized_fetched:
  assumes "validate_header_range_spec D" "fa_ok D f"
  shows "case fa_poll D f hs bs of
      Ready (block, ancestors) \<Rightarrow>
        block_checked D (fa_block_hash f) block \<and>
        header_chain (fd_codec D) (parent_hash block) ancestors \<and>
        unat (fa_ancestor_count f) \<le> length ancestors
    | Pending g \<Rightarrow> fa_ok D g \<and> fa_block_hash g = fa_block_hash f \<and> fa_ancestor_count g = fa_ancestor_count f
    | Panicked \<Rightarrow> False"
  using assms by (rule fa_poll_chain)

text \<open>The download of a finalized block asks for 256 ancestors and takes no shorter answer, so it
  returns, at whichever poll, only for a block whose parent has a number of at least 255. Close to
  genesis there are fewer ancestors, and the future retries for ever.\<close>

lemma finalized_needs_ancestors:
  assumes "validate_header_range_spec D" "fa_ok D f" "fa_ancestor_count f = 256"
    and "fa_poll D f hs bs = Ready (b, ancestors)"
  shows "255 \<le> unat (number (List.hd ancestors)) \<and> hash (List.hd ancestors) = parent_hash b"
proof -
  from fa_poll_cases [OF assms(2), of hs bs] assms(3,4) obtain fut answer where
    fut: "hr_request fut = \<lparr>start_hash = parent_hash b, limit = 256\<rparr>" "hr_accept D fut answer = Some ancestors"
    by auto
  with hr_accept_chain [OF assms(1) fut(2)] show ?thesis
    by (cases ancestors) auto
qed

section \<open>The block range\<close>

text \<open>Every body kept so far is valid for a header of the range, at its own place or later.\<close>

definition br_ok :: "fetch_deps \<Rightarrow> full_block_range_bodies \<Rightarrow> bool" where
  "br_ok D s \<longleftrightarrow>
     length (br_bodies s) \<le> length (br_headers s) \<and>
     (\<forall>i<length (br_bodies s). \<exists>j\<ge>i. j < length (br_headers s) \<and>
        validate_body_against_header D (br_bodies s ! i) (br_headers s ! j))"

lemma fr_each_ok:
  assumes "br_ok D s" "length (br_bodies s) \<le> n"
  shows "br_ok D (fr_each D delay (drop n (br_headers s)) pending s) \<and>
    br_headers (fr_each D delay (drop n (br_headers s)) pending s) = br_headers s"
  using assms
proof (induction "length (br_headers s) - n" arbitrary: n pending s)
  case 0
  then show ?case by simp
next
  case (Suc k)
  then have drop: "drop n (br_headers s) = br_headers s ! n # drop (Suc n) (br_headers s)" "n < length (br_headers s)"
    by (simp_all add: Cons_nth_drop_Suc)
  show ?case
  proof (cases pending)
    case Nil
    with Suc(1) [of s "Suc n" "[]"] Suc.hyps(2) Suc.prems drop show ?thesis by simp
  next
    case (Cons b rest)
    let ?s = "s\<lparr>br_bodies := br_bodies s @ [b]\<rparr>" and ?t = "s\<lparr>br_fut := fr_request_bodies (br_missing s) delay\<rparr>"
    have "br_ok D ?t" using Suc.prems(1) by (simp add: br_ok_def)
    moreover have "br_ok D ?s" if "validate_body_against_header D b (br_headers s ! n)"
      using Suc.prems that drop(2) by (auto simp: br_ok_def nth_append less_Suc_eq)
    ultimately show ?thesis
      using Suc(1) [of ?s "Suc n" rest] Suc(1) [of ?t "Suc n" rest] Suc.hyps(2) Suc.prems drop Cons by simp
  qed
qed

lemma br_take_blocks_parts:
  assumes "length (br_bodies s) = length (br_headers s)"
  shows "length (br_take_blocks s) = length (br_headers s)"
    and "map sealed_header.truncate (br_take_blocks s) = br_headers s"
    and "i < length (br_headers s) \<Longrightarrow>
      body (br_take_blocks s ! i) = br_bodies s ! i \<and>
      sealed_header.truncate (br_take_blocks s ! i) = br_headers s ! i"
  using assms by (simp_all add: br_take_blocks_def case_prod_unfold comp_def)

lemma fr_poll_bodies_ok:
  "br_ok D s \<Longrightarrow>
   case fr_poll_bodies D f s bs of
     Ready blocks \<Rightarrow>
       (\<exists>s'. blocks = br_take_blocks s' \<and> br_ok D s' \<and> br_headers s' = br_headers s \<and>
             length (br_bodies s') = length (br_headers s))
   | Pending g \<Rightarrow> (\<exists>s'. fr_state g = Bodies s' \<and> br_ok D s' \<and> br_headers s' = br_headers s)
   | Panicked \<Rightarrow> False"
proof (induction bs arbitrary: s)
  case (Cons answer bs)
  show ?case
  proof (cases "\<exists>b pending. answer = Inr (b # pending)")
    case False
    then have "fr_poll_bodies D f s (answer # bs) =
        fr_poll_bodies D f (s\<lparr>br_fut := fr_request_bodies (br_missing s) (fr_retry_delay f)\<rparr>) bs"
      by (cases answer) (auto simp: neq_Nil_conv)
    moreover have "br_ok D (s\<lparr>br_fut := r\<rparr>)" for r using Cons.prems by (simp add: br_ok_def)
    ultimately show ?thesis
      using Cons.IH [of "s\<lparr>br_fut := fr_request_bodies (br_missing s) (fr_retry_delay f)\<rparr>"]
      by (simp cong: polled.case_cong)
  next
    case True
    then obtain b pending where answer: "answer = Inr (b # pending)" by blast
    define t where "t = fr_each D (fr_retry_delay f) (drop (length (br_bodies s)) (br_headers s)) (b # pending) s"
    have t: "br_ok D t" "br_headers t = br_headers s"
      using fr_each_ok [OF Cons.prems order.refl] by (simp_all add: t_def)
    then have "br_ok D (t\<lparr>br_fut := r\<rparr>)" for r by (simp add: br_ok_def)
    note next_round = Cons.IH [OF this, of "fr_request_bodies (br_missing t) 0"]
    have "length (br_bodies s) \<le> length (br_headers s)" using Cons.prems by (simp add: br_ok_def)
    then have step: "fr_poll_bodies D f s (answer # bs) =
        (if br_missing t = [] then Ready (br_take_blocks t)
         else fr_poll_bodies D f (t\<lparr>br_fut := fr_request_bodies (br_missing t) 0\<rparr>) bs)"
      by (simp add: answer t_def [symmetric] Let_def)
    show ?thesis
    proof (cases "br_missing t = []")
      case True
      with t have "length (br_bodies t) = length (br_headers s)" by (simp add: br_missing_def br_ok_def)
      with t True step show ?thesis by auto
    qed (use step next_round t in \<open>simp cong: polled.case_cong\<close>)
  qed
qed auto

text \<open>Between two polls the future either still asks for its headers, or it has them, authenticated,
  with the bodies kept so far.\<close>

definition fr_ok :: "fetch_deps \<Rightarrow> full_block_range_future \<Rightarrow> bool" where
  "fr_ok D f \<longleftrightarrow>
     limit (fr_request f) \<noteq> 0 \<and>
     (case fr_state f of
        Headers fut \<Rightarrow> hr_request fut = fr_request f
      | Bodies s \<Rightarrow> br_ok D s \<and> header_chain (fd_codec D) (start_hash (fr_request f)) (br_headers s) \<and>
          unat (limit (fr_request f)) \<le> length (br_headers s))"

lemma fr_new_ok: "limit request \<noteq> 0 \<Longrightarrow> fr_ok D (fr_new delay request)"
  by (simp add: fr_ok_def fr_new_def)

text \<open>What a poll that has the headers \<open>hs\<close> may return.\<close>

definition fr_outcome ::
  "fetch_deps \<Rightarrow> full_block_range_future \<Rightarrow> (sealed_block list, full_block_range_future) polled \<Rightarrow> bool" where
  "fr_outcome D f out = (case out of
      Ready blocks \<Rightarrow>
        header_chain (fd_codec D) (start_hash (fr_request f)) (map sealed_header.truncate blocks) \<and>
        unat (limit (fr_request f)) \<le> length blocks \<and>
        (\<forall>i<length blocks. \<exists>j\<ge>i. j < length blocks \<and>
           validate_body_against_header D (body (blocks ! i)) (sealed_header.truncate (blocks ! j)))
    | Pending g \<Rightarrow> fr_ok D g \<and> fr_request g = fr_request f \<and> fr_retry_delay g = fr_retry_delay f
    | Panicked \<Rightarrow> False)"

lemma fr_poll_bodies_frame:
  "fr_poll_bodies D f s bs = Pending g \<Longrightarrow> \<exists>s'. g = f\<lparr>fr_state := Bodies s'\<rparr>"
  by (induction D f s bs rule: fr_poll_bodies.induct) (auto simp: Let_def split: sum.splits if_splits)

lemma fr_bodies_outcome:
  assumes s: "br_ok D s" "header_chain (fd_codec D) (start_hash (fr_request f)) (br_headers s)"
      "unat (limit (fr_request f)) \<le> length (br_headers s)" and f: "limit (fr_request f) \<noteq> 0"
  shows "fr_outcome D f (fr_poll_bodies D f s bs)"
proof (cases "fr_poll_bodies D f s bs")
  case (Ready blocks)
  with fr_poll_bodies_ok [OF s(1), of f bs] obtain s' where
    s': "blocks = br_take_blocks s'" "br_ok D s'" "br_headers s' = br_headers s" "length (br_bodies s') = length (br_headers s)"
    by auto
  note parts = br_take_blocks_parts [of s', unfolded s'(3), OF s'(4)]
  have "\<exists>j\<ge>i. j < length blocks \<and> validate_body_against_header D (body (blocks ! i)) (sealed_header.truncate (blocks ! j))"
    if "i < length blocks" for i
  proof -
    from that s' parts(1) obtain j where "j \<ge> i" "j < length (br_headers s)"
      "validate_body_against_header D (br_bodies s' ! i) (br_headers s ! j)" by (auto simp: br_ok_def)
    with parts(1) parts(3) [of i] parts(3) [of j] that s'(1) show ?thesis by auto
  qed
  with Ready s(2,3) parts(1,2) s'(1) show ?thesis by (simp add: fr_outcome_def)
next
  case (Pending g)
  with fr_poll_bodies_ok [OF s(1), of f bs] obtain s' where
    "fr_state g = Bodies s'" "br_ok D s'" "br_headers s' = br_headers s" by auto
  moreover obtain s'' where "g = f\<lparr>fr_state := Bodies s''\<rparr>" using fr_poll_bodies_frame [OF Pending] by blast
  ultimately show ?thesis using Pending s(2,3) f by (auto simp: fr_outcome_def fr_ok_def)
next
  case Panicked
  with fr_poll_bodies_ok [OF s(1), of f bs] show ?thesis by simp
qed

lemma fr_poll_outcome:
  assumes "validate_header_range_spec D" "fr_ok D f"
  shows "fr_outcome D f (fr_poll D f hs bs)"
proof (cases "fr_state f")
  case (Bodies s)
  with assms(2) fr_bodies_outcome [of D s f bs] show ?thesis by (simp add: fr_ok_def fr_poll_def)
next
  case (Headers fut)
  with assms(2) have fut: "hr_request fut = fr_request f" "limit (fr_request f) \<noteq> 0" by (simp_all add: fr_ok_def)
  note poll = headers.poll_first [of fut D hs, unfolded fut(1), OF fut(2)]
  show ?thesis
  proof (cases "accept_first (hr_accept D fut) hs")
    case None
    obtain g where g: "hr_poll D fut hs = Pending g" using poll None by (simp del: accept_first_None)
    with Headers fut hr_poll_request [OF g] show ?thesis by (simp add: fr_poll_def fr_outcome_def fr_ok_def)
  next
    case (Some headers)
    then obtain answer where "hr_accept D fut answer = Some headers" using accept_first_Some by fast
    note chain = hr_accept_chain [OF assms(1) this, unfolded fut(1)]
    let ?s = "\<lparr>br_headers = headers, br_fut = fr_request_bodies (map hash headers) 0, br_bodies = []\<rparr>"
    have "br_ok D ?s" by (simp add: br_ok_def)
    from fr_bodies_outcome [OF this, of f bs] chain fut(2) show ?thesis using poll Some Headers by (simp add: fr_poll_def)
  qed
qed

text \<open>Nothing is lost between two polls.\<close>

lemma fr_poll_bodies_state [simp]: "fr_poll_bodies D (f\<lparr>fr_state := st\<rparr>) s bs = fr_poll_bodies D f s bs"
  by (induction D f s bs rule: fr_poll_bodies.induct) (simp_all add: Let_def split: sum.split)

lemma fr_poll_bodies_resume:
  "fr_poll_bodies D f s bs = Pending g \<Longrightarrow> fr_poll_bodies D f s (bs @ bs') = fr_poll D g hs' bs'"
proof (induction D f s bs rule: fr_poll_bodies.induct)
  case (1 D f s)
  then show ?case by (auto simp: fr_poll_def)
next
  case (2 D f s response bs)
  then show ?case by (auto simp: Let_def split: sum.splits if_splits)
qed

lemma fr_poll_resume:
  assumes "fr_ok D f" "fr_poll D f hs bs = Pending g"
  shows "case fr_state g of
      Headers _ \<Rightarrow> fr_poll D f (hs @ hs') bs' = fr_poll D g hs' bs'
    | Bodies _ \<Rightarrow> fr_poll D f hs (bs @ bs') = fr_poll D g hs' bs'"
proof (cases "fr_state f")
  case (Bodies s)
  with assms(2) have p: "fr_poll_bodies D f s bs = Pending g" by (simp add: fr_poll_def)
  obtain s' where "g = f\<lparr>fr_state := Bodies s'\<rparr>" using fr_poll_bodies_frame [OF p] by blast
  with fr_poll_bodies_resume [OF p] Bodies show ?thesis by (simp add: fr_poll_def)
next
  case (Headers fut)
  with assms(1) have fut: "limit (hr_request fut) \<noteq> 0" by (simp add: fr_ok_def)
  show ?thesis
  proof (cases "hr_poll D fut hs")
    case (Ready headers)
    let ?s = "\<lparr>br_headers = headers, br_fut = fr_request_bodies (map hash headers) 0, br_bodies = []\<rparr>"
    have p: "fr_poll_bodies D f ?s bs = Pending g" using assms(2) Headers Ready by (simp add: fr_poll_def)
    obtain s' where "g = f\<lparr>fr_state := Bodies s'\<rparr>" using fr_poll_bodies_frame [OF p] by blast
    with fr_poll_bodies_resume [OF p] Headers Ready show ?thesis by (simp add: fr_poll_def)
  next
    case (Pending fut')
    with assms(2) Headers have "g = f\<lparr>fr_state := Headers fut'\<rparr>" by (simp add: fr_poll_def)
    with headers.poll_resume [OF fut Pending, of hs'] Headers show ?thesis
      by (simp add: fr_poll_def split: polled.split)
  next
    case Panicked
    with assms(2) Headers show ?thesis by (simp add: fr_poll_def)
  qed
qed

text \<open>(C36) A range of full blocks, at whichever poll it is returned, has the headers that were asked for,
  authenticated from the start hash and at least as many as the limit, and every body is valid for
  a header of the range at its own place or later (\<open>range_misaligned\<close> shows that it can be later).
  While it waits the future keeps the headers and the bodies it has: the next poll goes on as if the
  answers of both had come at once. It does not panic for a request with a limit other than 0.\<close>

theorem range_fetched:
  assumes "validate_header_range_spec D" "fr_ok D f"
  shows "case fr_poll D f hs bs of
      Ready blocks \<Rightarrow>
        header_chain (fd_codec D) (start_hash (fr_request f)) (map sealed_header.truncate blocks) \<and>
        unat (limit (fr_request f)) \<le> length blocks \<and>
        (\<forall>i<length blocks. \<exists>j\<ge>i. j < length blocks \<and>
           validate_body_against_header D (body (blocks ! i)) (sealed_header.truncate (blocks ! j)))
    | Pending g \<Rightarrow> fr_ok D g \<and> fr_request g = fr_request f \<and>
        (case fr_state g of
           Headers _ \<Rightarrow> \<forall>hs' bs'. fr_poll D f (hs @ hs') bs' = fr_poll D g hs' bs'
         | Bodies _ \<Rightarrow> \<forall>hs' bs'. fr_poll D f hs (bs @ bs') = fr_poll D g hs' bs')
    | Panicked \<Rightarrow> False"
proof (cases "fr_poll D f hs bs")
  case (Pending g)
  have "fr_ok D g \<and> fr_request g = fr_request f"
    using fr_poll_outcome [OF assms, of hs bs] Pending by (simp add: fr_outcome_def)
  with Pending fr_poll_resume [OF assms(2) Pending] show ?thesis
    by (cases "fr_state g") auto
qed (use fr_poll_outcome [OF assms, of hs bs] in \<open>simp_all add: fr_outcome_def\<close>)

text \<open>The loop over the headers, with a response in which every body fits.\<close>

lemma fr_each_fit:
  "list_all2 (validate_body_against_header D) bs hs \<Longrightarrow>
   br_bodies (fr_each D delay hs bs s) = br_bodies s @ bs \<and> br_headers (fr_each D delay hs bs s) = br_headers s"
  by (induction bs hs arbitrary: s rule: list_all2_induct) simp_all

text \<open>(C37) An invalid body shifts the bodies after it. The future has the headers \<open>h\<close> and \<open>hs\<close> and no
  body yet; a peer answers with one body that is not valid for \<open>h\<close>, followed by the right bodies for
  \<open>hs\<close>, and the request for what the code then takes to be missing, the last header, is answered with
  a body valid for that header. Then the future returns, and pairs every right body with the header
  before its own: \<open>h\<close> gets the body of the header after it, and so on.\<close>

theorem range_misaligned:
  assumes "fr_state f = Bodies \<lparr>br_headers = h # hs, br_fut = fut, br_bodies = []\<rparr>" "hs \<noteq> []"
    and "\<not> validate_body_against_header D b h" "list_all2 (validate_body_against_header D) bs hs"
    and "validate_body_against_header D c (last hs)"
  shows "fr_poll D f hs' [Inr (b # bs), Inr [c]] =
    Ready (map (\<lambda>(header, b). from_sealed_parts header b) (zip (h # hs) (bs @ [c])))"
proof -
  let ?s = "\<lparr>br_headers = h # hs, br_fut = fut, br_bodies = []\<rparr>"
  define t where "t = fr_each D (fr_retry_delay f) (h # hs) (b # bs) ?s"
  have len: "length bs = length hs" using assms(4) by (rule list_all2_lengthD)
  have t: "br_bodies t = bs" "br_headers t = h # hs"
    using fr_each_fit [OF assms(4)] assms(3) by (simp_all add: t_def)
  have last: "drop (length hs) (h # hs) = [last hs]"
    using assms(2) by (simp add: drop_Cons' last_conv_nth flip: Cons_nth_drop_Suc)
  have missing: "br_missing t = [hash (last hs)]" by (simp add: br_missing_def t len last)
  define u where "u = t\<lparr>br_fut := fr_request_bodies (br_missing t) 0\<rparr>"
  have "fr_poll D f hs' [Inr (b # bs), Inr [c]] = fr_poll_bodies D f u [Inr [c]]"
    using assms(1) missing unfolding u_def t_def by (simp add: fr_poll_def Let_def)
  also have "\<dots> = Ready (br_take_blocks (u\<lparr>br_bodies := bs @ [c]\<rparr>))"
    using assms(5) by (simp add: u_def t len last Let_def br_missing_def)
  finally show ?thesis by (simp add: br_take_blocks_def u_def t)
qed

section \<open>Bytecodes and witnesses\<close>

lemma bf_accept_good:
  "bf_accept D f a \<noteq> None \<longleftrightarrow>
     (\<exists>raw. a = Inr raw \<and> code_hash_slow (fd_codec D) (new_raw (fd_codec D) raw) = bf_code_hash f)"
  by (cases a) (auto simp: bf_accept_def)

lemma bf_poll_cases:
  "case bf_poll D f cs of
     Ready code \<Rightarrow> code_hash_slow (fd_codec D) code = bf_code_hash f
   | Pending g \<Rightarrow> bf_code_hash g = bf_code_hash f
   | Panicked \<Rightarrow> False"
  by (induction D f cs rule: bf_poll.induct) (auto split: sum.splits simp: Let_def cong: polled.case_cong)

lemma wf_poll_cases:
  "case wf_poll D f ws of Ready w \<Rightarrow> True | Pending g \<Rightarrow> wf_block_hash g = wf_block_hash f | Panicked \<Rightarrow> False"
  by (induction D f ws rule: wf_poll.induct) (auto split: sum.splits cong: polled.case_cong)

text \<open>(C35) The bytecode future returns as soon as one of the answers hashes to the requested code hash,
  and only then; what it returns has that hash; and how the answers are spread over polls does not
  matter.\<close>

theorem bytecode_fetched:
  "((\<exists>code. bf_poll D f cs = Ready code) \<longleftrightarrow>
      (\<exists>raw. Inr raw \<in> set cs \<and> code_hash_slow (fd_codec D) (new_raw (fd_codec D) raw) = bf_code_hash f))
   \<and> (case bf_poll D f cs of
        Ready code \<Rightarrow> code_hash_slow (fd_codec D) code = bf_code_hash f
      | Pending g \<Rightarrow> bf_code_hash g = bf_code_hash f \<and> bf_poll D f (cs @ cs') = bf_poll D g cs'
      | Panicked \<Rightarrow> False)"
proof
  show "(\<exists>code. bf_poll D f cs = Ready code) \<longleftrightarrow>
      (\<exists>raw. Inr raw \<in> set cs \<and> code_hash_slow (fd_codec D) (new_raw (fd_codec D) raw) = bf_code_hash f)"
    unfolding bytecode.poll_answers [OF TrueI] bf_accept_good by blast
next
  show "case bf_poll D f cs of
        Ready code \<Rightarrow> code_hash_slow (fd_codec D) code = bf_code_hash f
      | Pending g \<Rightarrow> bf_code_hash g = bf_code_hash f \<and> bf_poll D f (cs @ cs') = bf_poll D g cs'
      | Panicked \<Rightarrow> False"
    using bf_poll_cases [of D f cs] bytecode.poll_resume [OF TrueI, of D f cs _ cs']
    by (simp split: polled.splits)
qed

lemma witness_fetched:
  "wf_poll D f ws = Ready w \<Longrightarrow>
     ew_wf c w \<and> ew_state_witness w \<noteq> [] \<and> Inr (ew_state_witness w) \<in> set ws"
  unfolding witness.poll_Ready [OF TrueI]
  by (auto simp: wf_accept_def ew_wf_def ew_new_def split: sum.splits if_splits dest!: accept_first_Some)

section \<open>Witnesses\<close>

text \<open>Rules for the examples: a body fits a header with the same opaque part, and a range of headers
  is valid when it is linked.\<close>

definition sample_fetch :: fetch_deps where
  "sample_fetch = \<lparr>fd_codec = plain_codec,
     validate_body_against_header = \<lambda>b h. body_rest b = header_rest h,
     validate_header_range = \<lambda>hs. hs \<noteq> [] \<and>
       successively (\<lambda>p c. parent_hash c = hash p \<and> unat (number c) = unat (number p) + 1) hs\<rparr>"

definition sample_header :: "b256 \<Rightarrow> u64 \<Rightarrow> bytes \<Rightarrow> header" where
  "sample_header p n rest =
     \<lparr>parent_hash = p, number = n, state_root = 0, difficulty = 0, header_rest = rest\<rparr>"

definition sample_body :: "bytes \<Rightarrow> block_body" where
  "sample_body rest = \<lparr>transactions = [], body_rest = rest\<rparr>"

lemmas sample_fetch_simps = sample_fetch_def sample_header_def sample_body_def plain_codec_def seal_slow_def

lemma sample_fetch_spec: "validate_header_range_spec sample_fetch"
  by (simp add: validate_header_range_spec_def sample_fetch_def)

text \<open>Headers 1 and 0, and a response that starts with a body that fits neither.\<close>

theorem range_misaligned_witness:
  "\<exists>block rest.
     fr_poll sample_fetch \<lparr>fr_retry_delay = 50, fr_request = \<lparr>start_hash = 3, limit = 2\<rparr>,
         fr_state = Bodies \<lparr>br_headers = [seal_slow plain_codec (sample_header 1 1 [2]), seal_slow plain_codec (sample_header 0 0 [1])],
           br_fut = fr_request_bodies [] 0, br_bodies = []\<rparr>\<rparr> []
       [Inr [sample_body [9], sample_body [1]], Inr [sample_body [1]]] = Ready (block # rest) \<and>
     \<not> validate_body_against_header sample_fetch (body block) (sealed_header.truncate block)"
  using range_misaligned [where D = sample_fetch and h = "seal_slow plain_codec (sample_header 1 1 [2])"
      and hs = "[seal_slow plain_codec (sample_header 0 0 [1])]" and b = "sample_body [9]" and bs = "[sample_body [1]]"
      and c = "sample_body [1]" and hs' = "[]" and fut = "fr_request_bodies [] 0"
      and f = "\<lparr>fr_retry_delay = 50, fr_request = \<lparr>start_hash = 3, limit = 2\<rparr>,
         fr_state = Bodies \<lparr>br_headers = [seal_slow plain_codec (sample_header 1 1 [2]), seal_slow plain_codec (sample_header 0 0 [1])],
           br_fut = fr_request_bodies [] 0, br_bodies = []\<rparr>\<rparr>"]
  by (simp add: sample_fetch_simps)

theorem full_block_fetched_witness:
  "fst (ff_poll sample_fetch (ff_new 50 3)
       [Inl RequestDropped, Inr [sample_header 0 0 [1]], Inr [sample_header 1 1 [2]]]
       [Inr [], Inr [sample_body [7]], Inr [sample_body [2]]]) =
   Ready (from_sealed_parts (seal_slow plain_codec (sample_header 1 1 [2])) (sample_body [2])) \<and>
   (\<exists>g. fst (ff_poll sample_fetch (ff_new 50 3) [] [Inr [sample_body [2]]]) = Pending g \<and>
      fst (ff_poll sample_fetch g [Inr [sample_header 1 1 [2]]] []) =
        Ready (from_sealed_parts (seal_slow plain_codec (sample_header 1 1 [2])) (sample_body [2])))"
proof
  let ?f = "ff_new 50 3" and ?block = "from_sealed_parts (seal_slow plain_codec (sample_header 1 1 [2])) (sample_body [2])"
  note eval = ff_reference_def ff_new_def Let_def good_header_def good_body_def sample_fetch_simps
  show "fst (ff_poll sample_fetch ?f
       [Inl RequestDropped, Inr [sample_header 0 0 [1]], Inr [sample_header 1 1 [2]]]
       [Inr [], Inr [sample_body [7]], Inr [sample_body [2]]]) = Ready ?block"
    by (rule iffD2 [OF conjunct1 [OF full_block_fetched [OF ff_new_ok]]]) (simp add: eval)
  have none: "ff_reference sample_fetch ?f [] [Inr [sample_body [2]]] = None" by (simp add: eval)
  then have "fst (ff_poll sample_fetch ?f [] [Inr [sample_body [2]]]) \<noteq> Ready b" for b
    using full_block_fetched [OF ff_new_ok, of sample_fetch 50 3 "[]" "[Inr [sample_body [2]]]" b] by simp
  then obtain g where g: "fst (ff_poll sample_fetch ?f [] [Inr [sample_body [2]]]) = Pending g"
    using full_block_fetched [OF ff_new_ok, of sample_fetch 50 3 "[]" "[Inr [sample_body [2]]]"]
    by (cases "fst (ff_poll sample_fetch ?f [] [Inr [sample_body [2]]])") auto
  have "ff_reference sample_fetch ?f ([] @ [Inr [sample_header 1 1 [2]]])
      (ff_read_bodies sample_fetch ?f [] [Inr [sample_body [2]]] @ []) = Some ?block"
    by (simp add: eval ff_read_bodies_def ff_parts_def any_body_def)
  with g full_block_fetched [OF ff_new_ok, of sample_fetch 50 3 "[]" "[Inr [sample_body [2]]]"]
  show "\<exists>g. fst (ff_poll sample_fetch ?f [] [Inr [sample_body [2]]]) = Pending g \<and>
      fst (ff_poll sample_fetch g [Inr [sample_header 1 1 [2]]] []) = Ready ?block" by auto
qed

text \<open>A chain of headers from number \<open>n\<close> down to genesis.\<close>

fun sample_chain :: "nat \<Rightarrow> header list" where
  "sample_chain 0 = [sample_header 0 0 []]"
| "sample_chain (Suc n) =
     sample_header (hash_slow plain_codec (List.hd (sample_chain n))) (of_nat (Suc n)) [] # sample_chain n"

lemma sample_chain_shape [simp]:
  "sample_chain n \<noteq> []" "length (sample_chain n) = Suc n" "number (List.hd (sample_chain n)) = of_nat n"
  by (induction n) (simp_all add: sample_header_def)

lemma sample_chain_linked:
  "n < 2 ^ 64 \<Longrightarrow>
   successively (\<lambda>c p. parent_hash c = hash p \<and> unat (number c) = unat (number p) + 1)
     (map (seal_slow plain_codec) (sample_chain n))"
proof (induction n)
  case (Suc n)
  obtain h hs where hs: "sample_chain n = h # hs" by (cases "sample_chain n") auto
  then have "number h = of_nat n" using sample_chain_shape(3) [of n] by simp
  moreover have "unat (of_nat (Suc n) :: u64) = unat (of_nat n :: u64) + 1"
    using Suc.prems by (simp add: unat_of_nat del: of_nat_Suc)
  ultimately show ?case
    using Suc hs by (simp add: sample_header_def del: of_nat_Suc)
qed (simp add: sample_header_def)

lemma sample_chain_accepted:
  assumes "n < 2 ^ 64" "unat k \<le> Suc n"
  shows "hr_poll sample_fetch (hr_new 50 \<lparr>start_hash = hash_slow plain_codec (List.hd (sample_chain n)), limit = k\<rparr>)
      [Inr (sample_chain n)] = Ready (map (seal_slow plain_codec) (sample_chain n))"
proof -
  have codec: "fd_codec sample_fetch = plain_codec" by (simp add: sample_fetch_def)
  have "validate_header_range sample_fetch (rev (map (seal_slow plain_codec) (sample_chain n)))"
    using sample_chain_linked [OF assms(1)] by (simp add: sample_fetch_def successively_rev del: map_map rev_map)
  with assms(2) show ?thesis by (simp add: hr_on_response_accepts codec del: map_map rev_map)
qed

lemma sample_finalized:
  assumes "n < 2 ^ 64" "unat k \<le> Suc n"
  shows "fa_poll sample_fetch (fa_new 50 (hash_slow plain_codec (List.hd (sample_chain (Suc n)))) k)
      [Inr (sample_chain (Suc n)), Inr (sample_chain n)] [Inr [sample_body []]] =
    Ready (from_sealed_parts (seal_slow plain_codec (List.hd (sample_chain (Suc n)))) (sample_body []),
      map (seal_slow plain_codec) (sample_chain n))"
proof -
  let ?h = "List.hd (sample_chain (Suc n))"
  have rules: "fd_codec sample_fetch = plain_codec"
      "validate_body_against_header sample_fetch (sample_body []) (seal_slow plain_codec ?h)"
    by (simp_all add: sample_fetch_def sample_body_def sample_header_def seal_slow_def)
  have "ff_poll sample_fetch (ff_new 50 (hash_slow plain_codec ?h)) (Inr (sample_chain (Suc n)) # hs)
      [Inr [sample_body []]] = (Ready (from_sealed_parts (seal_slow plain_codec ?h) (sample_body [])), hs)" for hs
    using rules
    by (subst ff_poll.simps)
      (simp add: ff_new_def ff_poll_header_def ff_poll_body_def ff_on_header_response_def ff_on_body_response_def Let_def)
  moreover have "parent_hash ?h = hash_slow plain_codec (List.hd (sample_chain n))" "ff_retry_delay (ff_new 50 h) = 50" for h
    by (simp_all add: sample_header_def ff_new_def Let_def)
  ultimately show ?thesis
    using sample_chain_accepted [OF assms] by (simp add: fa_poll_def fa_new_def fa_poll_ancestors_def)
qed

theorem finalized_fetched_witness:
  "validate_header_range_spec sample_fetch \<and> fa_ok sample_fetch (fa_new 50 3 1) \<and>
   (case fa_poll sample_fetch (fa_new 50 3 1) [Inr (sample_chain 1), Inr (sample_chain 0)] [Inr [sample_body []]] of
      Ready (block, ancestors) \<Rightarrow>
        block_checked sample_fetch 3 block \<and> header_chain (fd_codec sample_fetch) (parent_hash block) ancestors \<and>
        1 \<le> length ancestors
    | _ \<Rightarrow> False)"
  using finalized_fetched [OF sample_fetch_spec fa_new_ok, of 1 50 3
      "[Inr (sample_chain 1), Inr (sample_chain 0)]" "[Inr [sample_body []]]"]
    sample_finalized [of 0 1] sample_fetch_spec fa_new_ok [of 1 sample_fetch 50 3]
  by (simp add: sample_header_def plain_codec_def fa_new_def)

text \<open>The range of the same chain, whose bodies come in a second poll.\<close>

theorem range_fetched_witness:
  "validate_header_range_spec sample_fetch \<and>
   (\<exists>g blocks. fr_poll sample_fetch (fr_new 50 \<lparr>start_hash = 3, limit = 2\<rparr>) [Inr (sample_chain 1)] [] = Pending g \<and>
      fr_poll sample_fetch g [] [Inr [sample_body [], sample_body []]] = Ready blocks \<and> length blocks = 2)"
proof -
  let ?f = "fr_new 50 \<lparr>start_hash = 3, limit = 2\<rparr>" and ?bodies = "[Inr [sample_body [], sample_body []]]"
  have hr: "hr_poll sample_fetch (hr_new 50 \<lparr>start_hash = 3, limit = 2\<rparr>) [Inr (sample_chain 1)] =
      Ready (map (seal_slow plain_codec) (sample_chain 1))"
    using sample_chain_accepted [of 1 2] by (simp add: sample_header_def plain_codec_def)
  then obtain g where g: "fr_poll sample_fetch ?f [Inr (sample_chain 1)] [] = Pending g" "\<exists>s. fr_state g = Bodies s"
    by (simp add: fr_poll_def fr_new_def)
  have "fr_ok sample_fetch ?f" by (rule fr_new_ok) simp
  note range = range_fetched [OF sample_fetch_spec this, of "[Inr (sample_chain 1)]" "[]"]
  obtain blocks where "fr_poll sample_fetch ?f [Inr (sample_chain 1)] ([] @ ?bodies) = Ready blocks" "length blocks = 2"
    using hr by (simp add: fr_poll_def fr_new_def sample_header_def sample_body_def sample_fetch_def br_missing_def
      br_take_blocks_def seal_slow_def)
  with g range sample_fetch_spec show ?thesis by fastforce
qed

end
