(* ===== verification/Downloader.thy ===== *)
theory Downloader
  imports Fetch_Correct "HOL-Library.Monad_Syntax"
begin

text \<open>
  The downloader of the engine, \<open>src/crates/engine/src/download/mod.rs\<close>: the requests in flight by
  kind, the outcomes not handed out yet, and the loops that advance them.

  What arrives between two polls is the record \<open>arrivals\<close>: for every hash the answers to the
  requests of the future for it. A panic of a future is the value \<open>None\<close>. Of the metrics the model
  has the counters and gauges, a type without an entry having zeroes; durations are not modelled.
\<close>

section \<open>State\<close>

datatype download_data =
  DD_FullBlock sealed_block
| DD_Bytecode b256 bytes
| DD_Witness b256 execution_witness
| DD_FinalizedBlock sealed_block "sealed_header list"

datatype request_metric_ty = Ty_FullBlock | Ty_Bytecode | Ty_Witness | Ty_Finalized

record request_type_metrics =
  m_total :: nat
  m_inflight :: nat

type_synonym downloader_metrics = "request_metric_ty \<Rightarrow> request_type_metrics"

definition inc_total :: "request_metric_ty \<Rightarrow> downloader_metrics \<Rightarrow> downloader_metrics" where
  "inc_total ty m = m(ty := (m ty)\<lparr>m_total := m_total (m ty) + 1\<rparr>)"

definition set_inflight :: "request_metric_ty \<Rightarrow> nat \<Rightarrow> downloader_metrics \<Rightarrow> downloader_metrics" where
  "set_inflight ty n m = m(ty := (m ty)\<lparr>m_inflight := n\<rparr>)"

record downloader =
  dl_retry_delay :: nat
  inflight_full_block_requests :: "full_block_future list"
  inflight_bytecode_requests :: "bytecode_future list"
  inflight_witness_requests :: "witness_future list"
  inflight_finalized_block_requests :: "full_block_with_ancestors_future list"
  dl_outcomes :: "download_data list"
  dl_metrics :: downloader_metrics

definition dl_new :: downloader where
  "dl_new =
     \<lparr>dl_retry_delay = 50, inflight_full_block_requests = [], inflight_bytecode_requests = [],
      inflight_witness_requests = [], inflight_finalized_block_requests = [], dl_outcomes = [],
      dl_metrics = \<lambda>_. \<lparr>m_total = 0, m_inflight = 0\<rparr>\<rparr>"

section \<open>Starting downloads\<close>

definition download_full_block :: "b256 \<Rightarrow> downloader \<Rightarrow> downloader" where
  "download_full_block h d =
     (if list_ex (\<lambda>req. ff_block_hash req = h) (inflight_full_block_requests d) then d
      else let fut = ff_new (dl_retry_delay d) h;
               d = d\<lparr>inflight_full_block_requests := inflight_full_block_requests d @ [fut]\<rparr>;
               m = inc_total Ty_FullBlock (dl_metrics d)
           in d\<lparr>dl_metrics := set_inflight Ty_FullBlock (length (inflight_witness_requests d)) m\<rparr>)"

definition download_bytecode :: "b256 \<Rightarrow> downloader \<Rightarrow> downloader" where
  "download_bytecode h d =
     (if list_ex (\<lambda>req. bf_code_hash req = h) (inflight_bytecode_requests d) then d
      else let fut = bf_new (dl_retry_delay d) h;
               d = d\<lparr>inflight_bytecode_requests := inflight_bytecode_requests d @ [fut]\<rparr>;
               m = inc_total Ty_Bytecode (dl_metrics d)
           in d\<lparr>dl_metrics := set_inflight Ty_Bytecode (length (inflight_bytecode_requests d)) m\<rparr>)"

definition download_witness :: "b256 \<Rightarrow> downloader \<Rightarrow> downloader" where
  "download_witness h d =
     (if list_ex (\<lambda>req. wf_block_hash req = h) (inflight_witness_requests d) then d
      else let fut = wf_new (dl_retry_delay d) h;
               d = d\<lparr>inflight_witness_requests := inflight_witness_requests d @ [fut]\<rparr>;
               m = inc_total Ty_Witness (dl_metrics d)
           in d\<lparr>dl_metrics := set_inflight Ty_Witness (length (inflight_witness_requests d)) m\<rparr>)"

definition download_finalized_with_ancestors :: "b256 \<Rightarrow> downloader \<Rightarrow> downloader" where
  "download_finalized_with_ancestors h d =
     (if list_ex (\<lambda>req. fa_block_hash req = h) (inflight_finalized_block_requests d) then d
      else let fut = fa_new (dl_retry_delay d) h 256;
               d = d\<lparr>inflight_finalized_block_requests := inflight_finalized_block_requests d @ [fut]\<rparr>;
               m = inc_total Ty_Finalized (dl_metrics d)
           in d\<lparr>dl_metrics := set_inflight Ty_Finalized (length (inflight_finalized_block_requests d)) m\<rparr>)"

section \<open>Polling\<close>

record arrivals =
  arr_full_block :: "b256 \<Rightarrow> header list answer list \<times> block_body list answer list"
  arr_bytecode :: "b256 \<Rightarrow> bytes answer list"
  arr_witness :: "b256 \<Rightarrow> bytes list answer list"
  arr_finalized :: "b256 \<Rightarrow> header list answer list \<times> block_body list answer list"

text \<open>\<open>Vec::swap_remove\<close> at an index of the vector.\<close>

definition swap_remove :: "nat \<Rightarrow> 'a list \<Rightarrow> 'a \<times> 'a list" where
  "swap_remove idx xs = (xs ! idx, butlast (xs[idx := last xs]))"

text \<open>One of the four loops, from the last index down to 0.\<close>

fun dl_advance ::
  "('f \<Rightarrow> ('r, 'f) polled) \<Rightarrow> ('f \<Rightarrow> 'r \<Rightarrow> download_data) \<Rightarrow> nat \<Rightarrow> 'f list \<Rightarrow> download_data list
     \<Rightarrow> ('f list \<times> download_data list) option" where
  "dl_advance poll data 0 fs outs = Some (fs, outs)"
| "dl_advance poll data (Suc idx) fs outs =
     (let (request, fs) = swap_remove idx fs
      in case poll request of
           Ready r \<Rightarrow> dl_advance poll data idx fs (outs @ [data request r])
         | Pending request \<Rightarrow> dl_advance poll data idx (fs @ [request]) outs
         | Panicked \<Rightarrow> None)"

definition poll_full_block ::
  "fetch_deps \<Rightarrow> arrivals \<Rightarrow> full_block_future \<Rightarrow> (sealed_block, full_block_future) polled" where
  "poll_full_block D arr f = (case arr_full_block arr (ff_block_hash f) of (hs, bs) \<Rightarrow> fst (ff_poll D f hs bs))"

definition poll_finalized ::
  "fetch_deps \<Rightarrow> arrivals \<Rightarrow> full_block_with_ancestors_future
     \<Rightarrow> (sealed_block \<times> sealed_header list, full_block_with_ancestors_future) polled" where
  "poll_finalized D arr f = (case arr_finalized arr (fa_block_hash f) of (hs, bs) \<Rightarrow> fa_poll D f hs bs)"

definition poll_witness ::
  "fetch_deps \<Rightarrow> arrivals \<Rightarrow> witness_future \<Rightarrow> (execution_witness, witness_future) polled" where
  "poll_witness D arr f = wf_poll D f (arr_witness arr (wf_block_hash f))"

definition poll_bytecode ::
  "fetch_deps \<Rightarrow> arrivals \<Rightarrow> bytecode_future \<Rightarrow> (bytes, bytecode_future) polled" where
  "poll_bytecode D arr f = bf_poll D f (arr_bytecode arr (bf_code_hash f))"

text \<open>The four loops in the order of the code, each followed by its gauge.\<close>

definition dl_advance_finalized :: "fetch_deps \<Rightarrow> arrivals \<Rightarrow> downloader \<Rightarrow> downloader option" where
  "dl_advance_finalized D arr d = do {
     (fs, outs) \<leftarrow> dl_advance (poll_finalized D arr)
        (\<lambda>_ (block, ancestors). DD_FinalizedBlock block ancestors)
        (length (inflight_finalized_block_requests d)) (inflight_finalized_block_requests d) (dl_outcomes d);
     Some (d\<lparr>inflight_finalized_block_requests := fs, dl_outcomes := outs,
             dl_metrics := set_inflight Ty_Finalized (length fs) (dl_metrics d)\<rparr>)
   }"

definition dl_advance_full_blocks :: "fetch_deps \<Rightarrow> arrivals \<Rightarrow> downloader \<Rightarrow> downloader option" where
  "dl_advance_full_blocks D arr d = do {
     (fs, outs) \<leftarrow> dl_advance (poll_full_block D arr) (\<lambda>_ block. DD_FullBlock block)
        (length (inflight_full_block_requests d)) (inflight_full_block_requests d) (dl_outcomes d);
     Some (d\<lparr>inflight_full_block_requests := fs, dl_outcomes := outs,
             dl_metrics := set_inflight Ty_FullBlock (length fs) (dl_metrics d)\<rparr>)
   }"

definition dl_advance_witnesses :: "fetch_deps \<Rightarrow> arrivals \<Rightarrow> downloader \<Rightarrow> downloader option" where
  "dl_advance_witnesses D arr d = do {
     (fs, outs) \<leftarrow> dl_advance (poll_witness D arr) (\<lambda>request witness. DD_Witness (wf_block_hash request) witness)
        (length (inflight_witness_requests d)) (inflight_witness_requests d) (dl_outcomes d);
     Some (d\<lparr>inflight_witness_requests := fs, dl_outcomes := outs,
             dl_metrics := set_inflight Ty_Witness (length fs) (dl_metrics d)\<rparr>)
   }"

definition dl_advance_bytecodes :: "fetch_deps \<Rightarrow> arrivals \<Rightarrow> downloader \<Rightarrow> downloader option" where
  "dl_advance_bytecodes D arr d = do {
     (fs, outs) \<leftarrow> dl_advance (poll_bytecode D arr) (\<lambda>request bytecode. DD_Bytecode (bf_code_hash request) bytecode)
        (length (inflight_bytecode_requests d)) (inflight_bytecode_requests d) (dl_outcomes d);
     Some (d\<lparr>inflight_bytecode_requests := fs, dl_outcomes := outs,
             dl_metrics := set_inflight Ty_Bytecode (length fs) (dl_metrics d)\<rparr>)
   }"

definition dl_pop :: "downloader \<Rightarrow> download_data option \<times> downloader" where
  "dl_pop d =
     (case dl_outcomes d of
        [] \<Rightarrow> (None, d)
      | first # outs \<Rightarrow> (Some first, d\<lparr>dl_outcomes := outs\<rparr>))"

text \<open>\<open>poll\<close>: the outcome handed out, \<open>None\<close> for \<open>Poll::Pending\<close>.\<close>

definition dl_poll :: "fetch_deps \<Rightarrow> arrivals \<Rightarrow> downloader \<Rightarrow> (download_data option \<times> downloader) option" where
  "dl_poll D arr d =
     (if dl_outcomes d \<noteq> [] then Some (dl_pop d)
      else do {
        d \<leftarrow> dl_advance_finalized D arr d;
        d \<leftarrow> dl_advance_full_blocks D arr d;
        d \<leftarrow> dl_advance_witnesses D arr d;
        d \<leftarrow> dl_advance_bytecodes D arr d;
        Some (dl_pop d)
      })"

section \<open>The loop advances every request once\<close>

fun polled_ready :: "('f \<Rightarrow> ('r, 'f) polled) \<Rightarrow> ('f \<Rightarrow> 'r \<Rightarrow> 'o) \<Rightarrow> 'f list \<Rightarrow> 'o list" where
  "polled_ready poll data [] = []"
| "polled_ready poll data (f # fs) =
     (case poll f of Ready r \<Rightarrow> [data f r] | _ \<Rightarrow> []) @ polled_ready poll data fs"

fun polled_waiting :: "('f \<Rightarrow> ('r, 'f) polled) \<Rightarrow> 'f list \<Rightarrow> 'f list" where
  "polled_waiting poll [] = []"
| "polled_waiting poll (f # fs) = (case poll f of Pending g \<Rightarrow> [g] | _ \<Rightarrow> []) @ polled_waiting poll fs"

lemma polled_waiting_append [simp]:
  "polled_waiting poll (xs @ ys) = polled_waiting poll xs @ polled_waiting poll ys"
  by (induction xs) simp_all

lemma swap_remove_append:
  "swap_remove (length xs) (xs @ x # ys) =
     (x, xs @ (if ys = [] then [] else last ys # butlast ys))"
  by (simp add: swap_remove_def list_update_append butlast_append)

lemma mset_rotated: "mset (if ys = [] then [] else last ys # butlast ys) = mset ys"
  by (cases ys rule: rev_cases) simp_all

lemma dl_advance_spec:
  assumes "\<And>f. f \<in> set front \<Longrightarrow> poll f \<noteq> Panicked"
  shows "\<exists>fs. dl_advance poll data (length front) (front @ rear) outs =
        Some (fs, outs @ polled_ready poll data (rev front)) \<and>
      mset fs = mset rear + mset (polled_waiting poll front)"
  using assms
proof (induction front arbitrary: rear outs rule: rev_induct)
  case (snoc x xs)
  let ?rear = "if rear = [] then [] else last rear # butlast rear"
  note IH = snoc.IH [OF snoc.prems]
  show ?case
  proof (cases "poll x")
    case (Ready r)
    then show ?thesis
      using IH [of ?rear "outs @ [data x r]"] mset_rotated [of rear] swap_remove_append [of xs x rear]
      by simp
  next
    case (Pending g)
    then show ?thesis
      using IH [of "?rear @ [g]" outs] mset_rotated [of rear] swap_remove_append [of xs x rear]
      by auto
  next
    case Panicked
    with snoc.prems show ?thesis by simp
  qed
qed simp

end
