(* ===== verification/Engine.thy ===== *)
theory Engine
  imports Tree_Machine Downloader
begin

text \<open>
  The consensus engine, \<open>src/crates/engine/src/engine.rs\<close>: it owns the tree and the downloader,
  answers the messages of the beacon engine API, and parks a payload whose witness is missing.

  The result of a handler is an option, \<open>None\<close> when a walk of the tree does not end or a future
  panics. What a handler sends on a oneshot channel is appended to \<open>ce_sent\<close>. Of a timer the model
  has whether it has expired when it is polled. Sender recovery, the forkchoice tracker and the
  accessors of the payload are reth's, the fields of \<open>engine_deps\<close>.
\<close>

section \<open>Types\<close>

datatype insert_block_fatal_error = SenderRecoveryError | DatabaseFatal db_error

datatype engine_response =
  PayloadResponse "fatal_error + payload_status"
| ForkchoiceResponse "provider_error + on_forkchoice_updated"

datatype beacon_message =
  NewPayload execution_data oneshot
| ForkchoiceUpdated forkchoice_state "payload_attributes option" oneshot api_version
| TransitionConfigurationExchanged

record parked_payload =
  pp_block_hash :: b256
  pp_tx :: oneshot

record ('d, 'u, 't, 's, 'l, 'c, 'f, 'x) engine_deps =
  tree_of :: "('d, 'u, 't, 's, 'l, 'c, 'f, 'x) tree_deps"
  fetch_of :: fetch_deps
  try_recover :: "sealed_block \<Rightarrow> recovered_block option"
  set_latest :: "forkchoice_state \<Rightarrow> forkchoice_status \<Rightarrow> 'f \<Rightarrow> 'f"
  status_of_forkchoice :: "on_forkchoice_updated \<Rightarrow> forkchoice_status"
  payload_block_hash :: "execution_data \<Rightarrow> b256"

record ('d, 'l, 'c, 'f) consensus_engine =
  ce_tree :: "('d, 'l, 'c, 'f) engine_tree"
  ce_downloader :: downloader
  ce_from_beacon_engine :: "beacon_message list"
  ce_parked_payload :: "parked_payload option"
  ce_witness_metrics :: "(nat \<times> nat) list"
  ce_sent :: "(oneshot \<times> engine_response) list"

definition ce_new ::
  "('d, 'u, 't, 's, 'l, 'c, 'f, 'x) engine_deps \<Rightarrow> 'd ress_provider \<Rightarrow> ('d, 'l, 'c, 'f) consensus_engine" where
  "ce_new E p =
     \<lparr>ce_tree = et_new (tree_of E) p, ce_downloader = dl_new, ce_from_beacon_engine = [],
      ce_parked_payload = None, ce_witness_metrics = [], ce_sent = []\<rparr>"

text \<open>Changing the parts of the engine.\<close>

definition with_tree ::
  "(('d, 'l, 'c, 'f) engine_tree \<Rightarrow> ('d, 'l, 'c, 'f) engine_tree)
     \<Rightarrow> ('d, 'l, 'c, 'f) consensus_engine \<Rightarrow> ('d, 'l, 'c, 'f) consensus_engine" where
  "with_tree f e = e\<lparr>ce_tree := f (ce_tree e)\<rparr>"

definition with_downloader ::
  "(downloader \<Rightarrow> downloader) \<Rightarrow> ('d, 'l, 'c, 'f) consensus_engine \<Rightarrow> ('d, 'l, 'c, 'f) consensus_engine" where
  "with_downloader f e = e\<lparr>ce_downloader := f (ce_downloader e)\<rparr>"

definition ce_send ::
  "oneshot \<Rightarrow> engine_response \<Rightarrow> ('d, 'l, 'c, 'f) consensus_engine \<Rightarrow> ('d, 'l, 'c, 'f) consensus_engine" where
  "ce_send tx r e = e\<lparr>ce_sent := ce_sent e @ [(tx, r)]\<rparr>"

section \<open>Events of the tree\<close>

fun ce_on_tree_event ::
  "('d, 'u, 't, 's, 'l, 'c, 'f, 'x) engine_deps \<Rightarrow> tree_event \<Rightarrow> ('d, 'l, 'c, 'f) consensus_engine
     \<Rightarrow> ('d, 'l, 'c, 'f) consensus_engine option" where
  "ce_on_tree_event E (Download (DownloadBlock h)) e =
     (let e = with_downloader (download_full_block h) e
      in Some (if h |\<notin>| fmdom (witnesses (et_buffer (ce_tree e)))
               then with_downloader (download_witness h) e else e))"
| "ce_on_tree_event E (Download (DownloadWitness h)) e = Some (with_downloader (download_witness h) e)"
| "ce_on_tree_event E (Download (DownloadFinalized h)) e =
     Some (with_downloader (download_finalized_with_ancestors h) e)"
| "ce_on_tree_event E (TreeAction (MakeCanonical h)) e = do {
     t \<leftarrow> et_make_canonical (tree_of E) h (ce_tree e);
     Some (e\<lparr>ce_tree := t\<rparr>)
   }"

definition ce_on_maybe_tree_event ::
  "('d, 'u, 't, 's, 'l, 'c, 'f, 'x) engine_deps \<Rightarrow> tree_event option \<Rightarrow> ('d, 'l, 'c, 'f) consensus_engine
     \<Rightarrow> ('d, 'l, 'c, 'f) consensus_engine option" where
  "ce_on_maybe_tree_event E maybe_event e =
     (case maybe_event of None \<Rightarrow> Some e | Some ev \<Rightarrow> ce_on_tree_event E ev e)"

section \<open>Downloaded data\<close>

definition ce_record_witness_metrics ::
  "execution_witness \<Rightarrow> ('d, 'l, 'c, 'f) consensus_engine \<Rightarrow> ('d, 'l, 'c, 'f) consensus_engine" where
  "ce_record_witness_metrics w e =
     e\<lparr>ce_witness_metrics := ce_witness_metrics e @ [(ew_rlp_size_bytes w, length (ew_state_witness w))]\<rparr>"

text \<open>The arms of \<open>on_download_outcome\<close>. Each returns the hashes of the blocks it unlocked, or \<open>None\<close>
  where the code returns early without an error.\<close>

definition ce_on_finalized_block ::
  "('d, 'u, 't, 's, 'l, 'c, 'f, 'x) engine_deps \<Rightarrow> sealed_block \<Rightarrow> sealed_header list
     \<Rightarrow> ('d, 'l, 'c, 'f) consensus_engine
     \<Rightarrow> (insert_block_fatal_error + b256 fset) \<times> ('d, 'l, 'c, 'f) consensus_engine" where
  "ce_on_finalized_block E block ancestors e =
     (case try_recover E block of
        None \<Rightarrow> (Inl SenderRecoveryError, e)
      | Some recovered \<Rightarrow>
          let insert_canonical = (\<lambda>(header :: sealed_header). rp_insert_canonical_hash (number header) (hash header));
              update = (\<lambda>p. fold insert_canonical ancestors
                (rp_insert_block recovered None
                  (rp_insert_canonical_hash (number recovered) (hash recovered) p)))
          in (Inr {|hash block|},
              with_tree (\<lambda>t. (et_set_canonical_head (num_hash block) t)
                \<lparr>et_provider := update (et_provider t)\<rparr>) e))"

definition ce_on_full_block ::
  "('d, 'u, 't, 's, 'l, 'c, 'f, 'x) engine_deps \<Rightarrow> sealed_block \<Rightarrow> ('d, 'l, 'c, 'f) consensus_engine
     \<Rightarrow> b256 fset option \<times> ('d, 'l, 'c, 'f) consensus_engine" where
  "ce_on_full_block E block e =
     (case try_recover E block of
        None \<Rightarrow> (None, e)
      | Some recovered \<Rightarrow>
          (Some {|hash block|},
           with_tree (\<lambda>t. t\<lparr>et_buffer := bb_insert_block (lru_of (tree_of E)) recovered (et_buffer t)\<rparr>) e))"

definition ce_on_witness ::
  "('d, 'u, 't, 's, 'l, 'c, 'f, 'x) engine_deps \<Rightarrow> b256 \<Rightarrow> execution_witness \<Rightarrow> ('d, 'l, 'c, 'f) consensus_engine
     \<Rightarrow> (insert_block_fatal_error + b256 fset) \<times> ('d, 'l, 'c, 'f) consensus_engine" where
  "ce_on_witness E h w e =
     (let (code_hashes, w) = bytecode_hashes (codec_of (tree_of E)) w
      in case rp_missing_code_hashes (db (tree_of E)) (et_provider (ce_tree e)) code_hashes of
           Inl error \<Rightarrow> (Inl (DatabaseFatal error), e)
         | Inr missing_code_hashes \<Rightarrow>
             let e = ce_record_witness_metrics w e;
                 e = with_tree (\<lambda>t. t\<lparr>et_buffer := bb_insert_witness h w missing_code_hashes (et_buffer t)\<rparr>) e
             in if missing_code_hashes = {||} then (Inr {|h|}, e)
                else (Inr {||},
                      fold (\<lambda>code_hash. with_downloader (download_bytecode code_hash))
                        (it (tree_of E) missing_code_hashes) e))"

definition ce_on_bytecode ::
  "('d, 'u, 't, 's, 'l, 'c, 'f, 'x) engine_deps \<Rightarrow> b256 \<Rightarrow> bytes \<Rightarrow> ('d, 'l, 'c, 'f) consensus_engine
     \<Rightarrow> b256 fset \<times> ('d, 'l, 'c, 'f) consensus_engine" where
  "ce_on_bytecode E h code e =
     (let (result, p) = rp_insert_bytecode (db (tree_of E)) h code (et_provider (ce_tree e));
          e = with_tree (\<lambda>t. t\<lparr>et_provider := p\<rparr>) e
      in case result of
           Inr _ \<Rightarrow>
             let (unlocked, buffer) = bb_on_bytecode_received h (et_buffer (ce_tree e))
             in (unlocked, with_tree (\<lambda>t. t\<lparr>et_buffer := buffer\<rparr>) e)
         | Inl error \<Rightarrow> ({||}, e))"

text \<open>The body of the loop over the unlocked blocks.\<close>

definition ce_answer_parked ::
  "b256 \<Rightarrow> fatal_error + payload_status tree_outcome \<Rightarrow> ('d, 'l, 'c, 'f) consensus_engine
     \<Rightarrow> ('d, 'l, 'c, 'f) consensus_engine" where
  "ce_answer_parked h result e =
     (case ce_parked_payload e of
        Some parked \<Rightarrow>
          if pp_block_hash parked = h
          then ce_send (pp_tx parked) (PayloadResponse (map_sum id outcome result)) (e\<lparr>ce_parked_payload := None\<rparr>)
          else e
      | None \<Rightarrow> e)"

definition ce_insert_unlocked ::
  "('d, 'u, 't, 's, 'l, 'c, 'f, 'x) engine_deps \<Rightarrow> b256 \<Rightarrow> ('d, 'l, 'c, 'f) consensus_engine
     \<Rightarrow> ('d, 'l, 'c, 'f) consensus_engine option" where
  "ce_insert_unlocked E unlocked_hash e =
     (let (removed, buffer) = bb_remove_block (lru_of (tree_of E)) unlocked_hash (et_buffer (ce_tree e));
          e = with_tree (\<lambda>t. t\<lparr>et_buffer := buffer\<rparr>) e
      in case removed of
           None \<Rightarrow> Some e
         | Some (block, w) \<Rightarrow> do {
             (result, t) \<leftarrow> et_on_downloaded_block (tree_of E) block w (ce_tree e);
             let e = e\<lparr>ce_tree := t\<rparr>;
             e \<leftarrow> (case result of
                     Inr out \<Rightarrow> ce_on_maybe_tree_event E (event out) e
                   | Inl error \<Rightarrow> Some e);
             Some (ce_answer_parked (hash block) result e)
           })"

fun ce_insert_each ::
  "('d, 'u, 't, 's, 'l, 'c, 'f, 'x) engine_deps \<Rightarrow> b256 list \<Rightarrow> ('d, 'l, 'c, 'f) consensus_engine
     \<Rightarrow> ('d, 'l, 'c, 'f) consensus_engine option" where
  "ce_insert_each E [] e = Some e"
| "ce_insert_each E (h # hs) e = do {
     e \<leftarrow> ce_insert_unlocked E h e;
     ce_insert_each E hs e
   }"

definition ce_on_download_outcome ::
  "('d, 'u, 't, 's, 'l, 'c, 'f, 'x) engine_deps \<Rightarrow> download_data \<Rightarrow> ('d, 'l, 'c, 'f) consensus_engine
     \<Rightarrow> ((insert_block_fatal_error + unit) \<times> ('d, 'l, 'c, 'f) consensus_engine) option" where
  "ce_on_download_outcome E data e =
     (let insert_all = (\<lambda>unlocked e. do {
            e \<leftarrow> ce_insert_each E (it (tree_of E) unlocked) e;
            Some (Inr (), e)
          })
      in case data of
           DD_FinalizedBlock block ancestors \<Rightarrow>
             (case ce_on_finalized_block E block ancestors e of
                (Inl error, e) \<Rightarrow> Some (Inl error, e)
              | (Inr unlocked, e) \<Rightarrow> insert_all unlocked e)
         | DD_FullBlock block \<Rightarrow>
             (case ce_on_full_block E block e of
                (None, e) \<Rightarrow> Some (Inr (), e)
              | (Some unlocked, e) \<Rightarrow> insert_all unlocked e)
         | DD_Witness h w \<Rightarrow>
             (case ce_on_witness E h w e of
                (Inl error, e) \<Rightarrow> Some (Inl error, e)
              | (Inr unlocked, e) \<Rightarrow> insert_all unlocked e)
         | DD_Bytecode h code \<Rightarrow>
             (case ce_on_bytecode E h code e of (unlocked, e) \<Rightarrow> insert_all unlocked e))"

section \<open>Messages\<close>

definition ce_on_new_payload ::
  "('d, 'u, 't, 's, 'l, 'c, 'f, 'x) engine_deps \<Rightarrow> execution_data \<Rightarrow> oneshot \<Rightarrow> ('d, 'l, 'c, 'f) consensus_engine
     \<Rightarrow> ('d, 'l, 'c, 'f) consensus_engine option" where
  "ce_on_new_payload E payload tx e =
     (let h = payload_block_hash E payload;
          (maybe_witness, buffer) = bb_remove_witness h (et_buffer (ce_tree e));
          e = with_tree (\<lambda>t. t\<lparr>et_buffer := buffer\<rparr>) e;
          has_witness = (maybe_witness \<noteq> None)
      in do {
        (result, t) \<leftarrow> et_on_new_payload (tree_of E) payload maybe_witness (ce_tree e);
        let e = e\<lparr>ce_tree := t\<rparr>;
        let answer = ce_send tx (PayloadResponse (map_sum id outcome result));
        case result of
          Inl error \<Rightarrow> Some (answer e)
        | Inr out \<Rightarrow>
            (case event out of
               None \<Rightarrow> Some (answer e)
             | Some ev \<Rightarrow> do {
                 e \<leftarrow> ce_on_tree_event E ev e;
                 case (if ps_status (outcome out) = Syncing then te_as_witness_download ev else None) of
                   Some missing \<Rightarrow>
                     Some (e\<lparr>ce_parked_payload := Some \<lparr>pp_block_hash = missing, pp_tx = tx\<rparr>\<rparr>)
                 | None \<Rightarrow>
                     if \<not> has_witness
                     then map_option answer (ce_on_tree_event E (te_download_witness h) e)
                     else Some (answer e)
               })
      })"

definition ce_on_forkchoice_updated ::
  "('d, 'u, 't, 's, 'l, 'c, 'f, 'x) engine_deps \<Rightarrow> forkchoice_state \<Rightarrow> payload_attributes option \<Rightarrow> oneshot
     \<Rightarrow> api_version \<Rightarrow> ('d, 'l, 'c, 'f) consensus_engine \<Rightarrow> ('d, 'l, 'c, 'f) consensus_engine option" where
  "ce_on_forkchoice_updated E state attrs tx version e = do {
     (result, t) \<leftarrow> et_on_forkchoice_updated (tree_of E) state attrs version (ce_tree e);
     let e = e\<lparr>ce_tree := t\<rparr>;
     e \<leftarrow> (case result of
             Inl error \<Rightarrow> Some e
           | Inr out \<Rightarrow>
               let status = status_of_forkchoice E (outcome out);
                   e = with_tree (\<lambda>t. t\<lparr>et_tracker := set_latest E state status (et_tracker t)\<rparr>) e;
                   e = with_tree (et_emit_event (ForkchoiceUpdatedEvent state status)) e
               in ce_on_maybe_tree_event E (event out) e);
     Some (ce_send tx (ForkchoiceResponse (map_sum id outcome result)) e)
   }"

fun ce_on_engine_message ::
  "('d, 'u, 't, 's, 'l, 'c, 'f, 'x) engine_deps \<Rightarrow> beacon_message \<Rightarrow> ('d, 'l, 'c, 'f) consensus_engine
     \<Rightarrow> ('d, 'l, 'c, 'f) consensus_engine option" where
  "ce_on_engine_message E (NewPayload payload tx) e = ce_on_new_payload E payload tx e"
| "ce_on_engine_message E (ForkchoiceUpdated state attrs tx version) e =
     ce_on_forkchoice_updated E state attrs tx version e"
| "ce_on_engine_message E TransitionConfigurationExchanged e = Some e"

section \<open>The loop of poll\<close>

text \<open>One round of the loop, with what arrived for the downloads and whether the timer of a parked
  payload has expired: the code goes round again, returns \<open>Poll::Pending\<close> or returns the error.\<close>

datatype round_result = Again | Return_pending | Return_error insert_block_fatal_error

definition ce_next_message ::
  "('d, 'u, 't, 's, 'l, 'c, 'f, 'x) engine_deps \<Rightarrow> ('d, 'l, 'c, 'f) consensus_engine
     \<Rightarrow> (round_result \<times> ('d, 'l, 'c, 'f) consensus_engine) option" where
  "ce_next_message E e =
     (case ce_from_beacon_engine e of
        [] \<Rightarrow> Some (Return_pending, e)
      | message # messages \<Rightarrow> do {
          e \<leftarrow> ce_on_engine_message E message (e\<lparr>ce_from_beacon_engine := messages\<rparr>);
          Some (Again, e)
        })"

definition ce_round ::
  "('d, 'u, 't, 's, 'l, 'c, 'f, 'x) engine_deps \<Rightarrow> arrivals \<Rightarrow> bool \<Rightarrow> ('d, 'l, 'c, 'f) consensus_engine
     \<Rightarrow> (round_result \<times> ('d, 'l, 'c, 'f) consensus_engine) option" where
  "ce_round E arr expired e = do {
     (polled, d) \<leftarrow> dl_poll (fetch_of E) arr (ce_downloader e);
     let e = e\<lparr>ce_downloader := d\<rparr>;
     case polled of
       Some data \<Rightarrow> do {
         (result, e) \<leftarrow> ce_on_download_outcome E data e;
         Some (case result of Inl error \<Rightarrow> Return_error error | Inr _ \<Rightarrow> Again, e)
       }
     | None \<Rightarrow>
         (case ce_parked_payload e of
            Some parked \<Rightarrow>
              if expired
              then ce_next_message E
                     (ce_send (pp_tx parked) (PayloadResponse (Inr (ps_new Syncing None)))
                       (e\<lparr>ce_parked_payload := None\<rparr>))
              else Some (Return_pending, e)
          | None \<Rightarrow> ce_next_message E e)
   }"

text \<open>\<open>poll\<close>: rounds until one returns. The list has what each round finds; when it is exhausted the
  loop is still running.\<close>

fun ce_poll ::
  "('d, 'u, 't, 's, 'l, 'c, 'f, 'x) engine_deps \<Rightarrow> (arrivals \<times> bool) list \<Rightarrow> ('d, 'l, 'c, 'f) consensus_engine
     \<Rightarrow> (round_result \<times> ('d, 'l, 'c, 'f) consensus_engine) option" where
  "ce_poll E [] e = Some (Again, e)"
| "ce_poll E ((arr, expired) # rounds) e = do {
     (result, e) \<leftarrow> ce_round E arr expired e;
     (case result of Again \<Rightarrow> ce_poll E rounds e | _ \<Rightarrow> Some (result, e))
   }"

end
