(* ===== verification/Engine_Answers.thy ===== *)
theory Engine_Answers
  imports Engine "HOL-Library.Sublist"
begin

text \<open>
  Every call of the engine API is answered once. The calls the engine has to answer are those of
  the messages in its queue and the one it parked; a round of the loop moves calls from there to
  the answers sent and neither loses nor duplicates one.
\<close>

section \<open>Open calls\<close>

fun message_tx :: "beacon_message \<Rightarrow> oneshot list" where
  "message_tx (NewPayload payload tx) = [tx]"
| "message_tx (ForkchoiceUpdated state attrs tx version) = [tx]"
| "message_tx TransitionConfigurationExchanged = []"

definition parked_tx :: "parked_payload option \<Rightarrow> oneshot list" where
  "parked_tx parked = (case parked of None \<Rightarrow> [] | Some p \<Rightarrow> [pp_tx p])"

definition ce_open :: "('d, 'l, 'c, 'f) consensus_engine \<Rightarrow> oneshot multiset" where
  "ce_open e =
     mset (concat (map message_tx (ce_from_beacon_engine e))) + mset (parked_tx (ce_parked_payload e))"

definition ce_calls :: "('d, 'l, 'c, 'f) consensus_engine \<Rightarrow> oneshot multiset" where
  "ce_calls e = ce_open e + mset (map fst (ce_sent e))"

text \<open>Neither the calls nor the queue, the parked payload and the answers change.\<close>

definition same_calls ::
  "('d, 'l, 'c, 'f) consensus_engine \<Rightarrow> ('d, 'l, 'c, 'f) consensus_engine \<Rightarrow> bool" where
  "same_calls e e' \<longleftrightarrow>
     ce_from_beacon_engine e' = ce_from_beacon_engine e \<and>
     ce_parked_payload e' = ce_parked_payload e \<and> ce_sent e' = ce_sent e"

lemma same_calls_refl [simp]: "same_calls e e"
  by (simp add: same_calls_def)

lemma same_calls_trans: "same_calls e f \<Longrightarrow> same_calls f g \<Longrightarrow> same_calls e g"
  by (simp add: same_calls_def)

lemma same_calls_parts [simp]:
  "same_calls e (with_tree f e)" "same_calls e (with_downloader g e)" "same_calls e (e\<lparr>ce_tree := t\<rparr>)"
  "same_calls e (e\<lparr>ce_downloader := d\<rparr>)" "same_calls e (ce_record_witness_metrics w e)"
  by (simp_all add: same_calls_def with_tree_def with_downloader_def ce_record_witness_metrics_def)

lemma same_calls_after [simp]:
  "same_calls e (with_tree f e') = same_calls e e'" "same_calls e (with_downloader g e') = same_calls e e'"
  "same_calls e (e'\<lparr>ce_tree := t\<rparr>) = same_calls e e'"
  "same_calls e (ce_record_witness_metrics w e') = same_calls e e'"
  by (simp_all add: same_calls_def with_tree_def with_downloader_def ce_record_witness_metrics_def)

lemma same_calls_fold [simp]:
  "same_calls e (fold (\<lambda>h. with_downloader (f h)) hs e') = same_calls e e'"
  by (induction hs arbitrary: e') simp_all

lemma tree_event_calls:
  "ce_on_tree_event E ev e = Some e' \<Longrightarrow> same_calls e e'"
  "ce_on_maybe_tree_event E maybe e = Some e' \<Longrightarrow> same_calls e e'"
proof -
  show *: "ce_on_tree_event E ev e = Some e' \<Longrightarrow> same_calls e e'" for ev
    by (induction E ev e rule: ce_on_tree_event.induct)
      (auto simp: Let_def split: if_splits bind_splits)
  show "ce_on_maybe_tree_event E maybe e = Some e' \<Longrightarrow> same_calls e e'"
    by (auto simp: ce_on_maybe_tree_event_def dest: * split: option.splits)
qed

section \<open>Conservation\<close>

text \<open>A step that only sends: the queue stays, and the calls are the same.\<close>

definition answers ::
  "('d, 'l, 'c, 'f) consensus_engine \<Rightarrow> ('d, 'l, 'c, 'f) consensus_engine \<Rightarrow> bool" where
  "answers e e' \<longleftrightarrow>
     ce_from_beacon_engine e' = ce_from_beacon_engine e \<and> ce_calls e' = ce_calls e \<and>
     prefix (ce_sent e) (ce_sent e')"

lemma answers_trans: "answers e f \<Longrightarrow> answers f g \<Longrightarrow> answers e g"
  by (auto simp: answers_def)

lemma same_calls_answers: "same_calls e e' \<Longrightarrow> answers e e'"
  by (simp add: same_calls_def answers_def ce_calls_def ce_open_def)

lemma ce_answer_parked_answers: "answers e (ce_answer_parked h r e)"
  by (auto simp: ce_answer_parked_def answers_def ce_calls_def ce_open_def ce_send_def parked_tx_def
    split: option.split)

text \<open>The two ways through the body of the loop over the unlocked blocks.\<close>

lemma ce_insert_unlocked_cases [consumes 1, case_names absent inserted]:
  assumes "ce_insert_unlocked E h e = Some e'"
  obtains s where "bb_remove_block (lru_of (tree_of E)) h (et_buffer (ce_tree e)) = (None, s)"
      "e' = with_tree (\<lambda>t. t\<lparr>et_buffer := s\<rparr>) e"
  | b w s r t f where "bb_remove_block (lru_of (tree_of E)) h (et_buffer (ce_tree e)) = (Some (b, w), s)"
      "et_on_downloaded_block (tree_of E) b w ((ce_tree e)\<lparr>et_buffer := s\<rparr>) = Some (r, t)"
      "(case r of Inr out \<Rightarrow> ce_on_maybe_tree_event E (event out) (e\<lparr>ce_tree := t\<rparr>)
        | Inl _ \<Rightarrow> Some (e\<lparr>ce_tree := t\<rparr>)) = Some f"
      "e' = ce_answer_parked (hash b) r f"
proof -
  obtain removed s where s: "bb_remove_block (lru_of (tree_of E)) h (et_buffer (ce_tree e)) = (removed, s)"
    by (cases "bb_remove_block (lru_of (tree_of E)) h (et_buffer (ce_tree e))")
  show thesis
  proof (cases removed)
    case None
    with assms s show thesis by (intro that(1)) (auto simp: ce_insert_unlocked_def)
  next
    case (Some bw)
    obtain b w where bw: "bw = (b, w)" by (cases bw)
    from assms s Some bw obtain r t where rt:
      "et_on_downloaded_block (tree_of E) b w ((ce_tree e)\<lparr>et_buffer := s\<rparr>) = Some (r, t)"
      by (cases "et_on_downloaded_block (tree_of E) b w ((ce_tree e)\<lparr>et_buffer := s\<rparr>)")
        (auto simp: ce_insert_unlocked_def with_tree_def)
    with assms s Some bw obtain f where
      "(case r of Inr out \<Rightarrow> ce_on_maybe_tree_event E (event out) (e\<lparr>ce_tree := t\<rparr>)
        | Inl _ \<Rightarrow> Some (e\<lparr>ce_tree := t\<rparr>)) = Some f" "e' = ce_answer_parked (hash b) r f"
      by (auto simp: ce_insert_unlocked_def with_tree_def Let_def split: bind_splits)
    with rt s Some bw show thesis by (intro that(2)) simp_all
  qed
qed

lemma insert_unlocked_answers:
  assumes "ce_insert_unlocked E h e = Some e'"
  shows "answers e e'"
  using assms
proof (cases rule: ce_insert_unlocked_cases)
  case (inserted b w s r t f)
  from inserted(3) have "same_calls e f"
    by (cases r) (auto dest!: tree_event_calls(2) elim: same_calls_trans [rotated])
  with inserted(4) show ?thesis
    using answers_trans [OF same_calls_answers ce_answer_parked_answers] by blast
qed (simp add: same_calls_answers)

lemma insert_each_answers: "ce_insert_each E hs e = Some e' \<Longrightarrow> answers e e'"
proof (induction hs arbitrary: e)
  case Nil
  then show ?case by (simp add: same_calls_answers)
next
  case (Cons h hs)
  then show ?case by (auto split: bind_splits dest: insert_unlocked_answers intro: answers_trans)
qed

text \<open>What the four arms do before the unlocked blocks are inserted.\<close>

lemma download_arms_calls:
  "same_calls e (snd (ce_on_finalized_block E block ancestors e))"
  "same_calls e (snd (ce_on_full_block E block e))"
  "same_calls e (snd (ce_on_witness E h w e))"
  "same_calls e (snd (ce_on_bytecode E h code e))"
  by (simp_all add: ce_on_finalized_block_def ce_on_full_block_def ce_on_witness_def ce_on_bytecode_def Let_def
    split: option.split sum.split prod.split)

lemma download_outcome_answers:
  assumes "ce_on_download_outcome E data e = Some (r, e')"
  shows "answers e e'"
proof -
  have all: "answers e e'" if "ce_insert_each E hs f = Some e'" "same_calls e f" for hs f
    using that insert_each_answers same_calls_answers answers_trans by blast
  note simps = ce_on_download_outcome_def Let_def
  show ?thesis
  proof (cases data)
    case (DD_FinalizedBlock block ancestors)
    with assms download_arms_calls(1) [of e E block ancestors] show ?thesis
      by (cases "ce_on_finalized_block E block ancestors e"; cases "fst (ce_on_finalized_block E block ancestors e)")
        (auto simp: simps split: bind_splits intro: all same_calls_answers)
  next
    case (DD_FullBlock block)
    with assms download_arms_calls(2) [of e E block] show ?thesis
      by (cases "ce_on_full_block E block e"; cases "fst (ce_on_full_block E block e)")
        (auto simp: simps split: bind_splits intro: all same_calls_answers)
  next
    case (DD_Witness h w)
    with assms download_arms_calls(3) [of e E h w] show ?thesis
      by (cases "ce_on_witness E h w e"; cases "fst (ce_on_witness E h w e)")
        (auto simp: simps split: bind_splits intro: all same_calls_answers)
  next
    case (DD_Bytecode h code)
    with assms download_arms_calls(4) [of e E h code] show ?thesis
      by (cases "ce_on_bytecode E h code e") (auto simp: simps split: bind_splits intro: all)
  qed
qed

text \<open>Handling a call: it is answered or parked.\<close>

definition takes_call ::
  "oneshot \<Rightarrow> ('d, 'l, 'c, 'f) consensus_engine \<Rightarrow> ('d, 'l, 'c, 'f) consensus_engine \<Rightarrow> bool" where
  "takes_call tx e e' \<longleftrightarrow>
     ce_from_beacon_engine e' = ce_from_beacon_engine e \<and> ce_calls e' = add_mset tx (ce_calls e) \<and>
     prefix (ce_sent e) (ce_sent e')"

lemma takes_call_send: "same_calls e f \<Longrightarrow> takes_call tx e (ce_send tx r f)"
  by (simp add: takes_call_def same_calls_def ce_send_def ce_calls_def ce_open_def)

lemma takes_call_park:
  "same_calls e f \<Longrightarrow> ce_parked_payload e = None \<Longrightarrow>
     takes_call tx e (f\<lparr>ce_parked_payload := Some \<lparr>pp_block_hash = h, pp_tx = tx\<rparr>\<rparr>)"
  by (simp add: takes_call_def same_calls_def ce_calls_def ce_open_def parked_tx_def)

lemma new_payload_takes:
  assumes "ce_parked_payload e = None" "ce_on_new_payload E payload tx e = Some e'"
  shows "takes_call tx e e'"
proof -
  let ?h = "payload_block_hash E payload"
  obtain w s where w: "bb_remove_witness ?h (et_buffer (ce_tree e)) = (w, s)"
    by (cases "bb_remove_witness ?h (et_buffer (ce_tree e))")
  let ?e = "with_tree (\<lambda>t. t\<lparr>et_buffer := s\<rparr>) e"
  from assms(2) w obtain r t where r: "et_on_new_payload (tree_of E) payload w (ce_tree ?e) = Some (r, t)"
    by (cases "et_on_new_payload (tree_of E) payload w (ce_tree ?e)") (auto simp: ce_on_new_payload_def Let_def)
  show ?thesis
  proof (cases "\<exists>out ev. r = Inr out \<and> event out = Some ev")
    case False
    with assms(2) w r have "e' = ce_send tx (PayloadResponse (map_sum id outcome r)) (?e\<lparr>ce_tree := t\<rparr>)"
      by (cases r) (auto simp: ce_on_new_payload_def Let_def split: option.splits)
    then show ?thesis by (simp add: takes_call_send)
  next
    case True
    then obtain out ev where out: "r = Inr out" "event out = Some ev" by blast
    with assms(2) w r obtain f where f: "ce_on_tree_event E ev (?e\<lparr>ce_tree := t\<rparr>) = Some f"
      by (cases "ce_on_tree_event E ev (?e\<lparr>ce_tree := t\<rparr>)") (auto simp: ce_on_new_payload_def Let_def)
    have same: "same_calls e f" using tree_event_calls(1) [OF f] by (auto elim: same_calls_trans [rotated])
    then have more: "same_calls e g" if "ce_on_tree_event E ev' f = Some g" for ev' g
      using tree_event_calls(1) [OF that] by (rule same_calls_trans)
    from assms(2) w r out f show ?thesis
      by (auto simp: ce_on_new_payload_def Let_def takes_call_send same
        intro: takes_call_park [OF same assms(1)] dest: more split: option.splits if_splits)
  qed
qed

lemma forkchoice_takes:
  assumes "ce_on_forkchoice_updated E state attrs tx version e = Some e'"
  shows "takes_call tx e e'"
proof -
  from assms obtain r t where r: "et_on_forkchoice_updated (tree_of E) state attrs version (ce_tree e) = Some (r, t)"
    by (cases "et_on_forkchoice_updated (tree_of E) state attrs version (ce_tree e)")
      (auto simp: ce_on_forkchoice_updated_def)
  define step where "step = (case r of Inl _ \<Rightarrow> Some (e\<lparr>ce_tree := t\<rparr>)
        | Inr out \<Rightarrow> let status = status_of_forkchoice E (outcome out) in
            ce_on_maybe_tree_event E (event out)
              (with_tree (et_emit_event (ForkchoiceUpdatedEvent state status))
                (with_tree (\<lambda>t. t\<lparr>et_tracker := set_latest E state status (et_tracker t)\<rparr>) (e\<lparr>ce_tree := t\<rparr>))))"
  from assms r obtain f where f: "step = Some f" and e': "e' = ce_send tx (ForkchoiceResponse (map_sum id outcome r)) f"
    by (cases r) (auto simp: ce_on_forkchoice_updated_def step_def Let_def split: bind_splits)
  from f have "same_calls e f"
    by (cases r) (auto simp: step_def Let_def dest!: tree_event_calls(2) elim: same_calls_trans [rotated])
  with e' show ?thesis by (simp add: takes_call_send)
qed

lemma next_message_calls:
  assumes "ce_parked_payload e = None" "ce_next_message E e = Some (r, e')"
  shows "ce_calls e' = ce_calls e \<and> prefix (ce_sent e) (ce_sent e') \<and>
    (r = Return_pending \<longrightarrow> e' = e \<and> ce_from_beacon_engine e = [])"
proof (cases "ce_from_beacon_engine e")
  case Nil
  with assms show ?thesis by (simp add: ce_next_message_def)
next
  case (Cons m ms)
  let ?e = "e\<lparr>ce_from_beacon_engine := ms\<rparr>"
  from assms(2) Cons have r: "r = Again" and msg: "ce_on_engine_message E m ?e = Some e'"
    by (auto simp: ce_next_message_def split: bind_splits)
  have "ce_calls e = mset (message_tx m) + ce_calls ?e" using Cons by (simp add: ce_calls_def ce_open_def)
  moreover have "ce_calls e' = mset (message_tx m) + ce_calls ?e \<and> prefix (ce_sent ?e) (ce_sent e')"
    using msg assms(1) new_payload_takes [of ?e E] forkchoice_takes [of E _ _ _ _ ?e]
    by (cases m) (auto simp: takes_call_def)
  ultimately show ?thesis using r by simp
qed

lemma round_calls:
  assumes "ce_round E arr expired e = Some (r, e')"
  shows "ce_calls e' = ce_calls e \<and> prefix (ce_sent e) (ce_sent e') \<and>
    (r = Return_pending \<longrightarrow> ce_parked_payload e' = None \<longrightarrow> ce_from_beacon_engine e' = [])"
proof -
  from assms obtain polled d where d: "dl_poll (fetch_of E) arr (ce_downloader e) = Some (polled, d)"
    by (cases "dl_poll (fetch_of E) arr (ce_downloader e)") (auto simp: ce_round_def)
  let ?e = "e\<lparr>ce_downloader := d\<rparr>"
  have e: "ce_calls ?e = ce_calls e" "ce_sent ?e = ce_sent e" by (simp_all add: ce_calls_def ce_open_def)
  show ?thesis
  proof (cases polled)
    case (Some data)
    with assms d obtain q where "ce_on_download_outcome E data ?e = Some (q, e')" "r \<noteq> Return_pending"
      by (auto simp: ce_round_def split: bind_splits sum.splits)
    with download_outcome_answers [of E data ?e q e'] e show ?thesis by (simp add: answers_def)
  next
    case None
    show ?thesis
    proof (cases "ce_parked_payload e")
      case None
      with assms d \<open>polled = None\<close> have "ce_next_message E ?e = Some (r, e')" by (simp add: ce_round_def Let_def)
      with None next_message_calls [of ?e E r e'] e show ?thesis by auto
    next
      case (Some parked)
      let ?f = "ce_send (pp_tx parked) (PayloadResponse (Inr (ps_new Syncing None))) (?e\<lparr>ce_parked_payload := None\<rparr>)"
      have f: "ce_calls ?f = ce_calls e" "ce_parked_payload ?f = None" "prefix (ce_sent e) (ce_sent ?f)"
        using Some by (simp_all add: ce_send_def ce_calls_def ce_open_def parked_tx_def)
      have "ce_round E arr expired e = (if expired then ce_next_message E ?f else Some (Return_pending, ?e))"
        using d \<open>polled = None\<close> Some by (simp add: ce_round_def Let_def)
      with assms Some next_message_calls [OF f(2), of E r e'] f e show ?thesis
        by (cases expired) auto
    qed
  qed
qed

text \<open>(C2) Every call of the engine API gets one answer: over any number of rounds of the engine's loop,
  the calls in the queue, the parked one and the calls answered are together the same multiset, and
  answers already sent stay. When the engine goes to sleep without a parked payload, every call it
  was given has been answered.\<close>

theorem engine_answers_once:
  assumes "ce_poll E rounds e = Some (r, e')"
  shows "ce_open e' + mset (map fst (ce_sent e')) = ce_open e + mset (map fst (ce_sent e)) \<and>
    prefix (ce_sent e) (ce_sent e') \<and>
    (r = Return_pending \<and> ce_parked_payload e' = None \<longrightarrow> ce_open e' = {#})"
  using assms
proof (induction rounds arbitrary: e)
  case (Cons env rounds)
  obtain arr expired where env: "env = (arr, expired)" by (cases env)
  with Cons.prems obtain q f where q: "ce_round E arr expired e = Some (q, f)"
    by (cases "ce_round E arr expired e") auto
  note round = round_calls [OF q]
  show ?case
  proof (cases "q = Again")
    case True
    with Cons.prems env q have "ce_poll E rounds f = Some (r, e')" by simp
    from Cons.IH [OF this] round show ?thesis by (auto simp: ce_calls_def)
  next
    case False
    with Cons.prems env q have "r = q" "e' = f" by (cases q; simp)+
    with round show ?thesis by (auto simp: ce_calls_def ce_open_def parked_tx_def)
  qed
qed simp

end
