(* ===== verification/Downloader_Correct.thy ===== *)
theory Downloader_Correct
  imports Downloader
begin

text \<open>
  Correctness of the downloader. What the four loops need of a kind of future is the locale
  \<open>download_kind\<close>: polling yields data for the key of the future, or a future for the same key. It
  is interpreted on the four kinds, and the loops, the state they keep and what is handed out follow
  from its lemmas.
\<close>

section \<open>What is downloaded\<close>

datatype download_key = K_FullBlock b256 | K_Bytecode b256 | K_Witness b256 | K_Finalized b256

fun data_key :: "download_data \<Rightarrow> download_key" where
  "data_key (DD_FullBlock block) = K_FullBlock (hash block)"
| "data_key (DD_Bytecode h code) = K_Bytecode h"
| "data_key (DD_Witness h witness) = K_Witness h"
| "data_key (DD_FinalizedBlock block ancestors) = K_Finalized (hash block)"

text \<open>What the engine may rely on in an outcome.\<close>

fun data_ok :: "fetch_deps \<Rightarrow> download_data \<Rightarrow> bool" where
  "data_ok D (DD_FullBlock block) = block_checked D (hash block) block"
| "data_ok D (DD_Bytecode h code) = (code_hash_slow (fd_codec D) code = h)"
| "data_ok D (DD_Witness h w) = (ew_wf (fd_codec D) w \<and> ew_state_witness w \<noteq> [])"
| "data_ok D (DD_FinalizedBlock block ancestors) \<longleftrightarrow>
     block_checked D (hash block) block \<and>
     header_chain (fd_codec D) (parent_hash block) ancestors \<and> 256 \<le> length ancestors"

section \<open>One loop\<close>

locale download_kind =
  fixes D :: fetch_deps
    and poll :: "'f \<Rightarrow> ('r, 'f) polled"
    and data :: "'f \<Rightarrow> 'r \<Rightarrow> download_data"
    and key :: "'f \<Rightarrow> download_key"
    and ok :: "'f \<Rightarrow> bool"
  assumes poll_ok: "ok f \<Longrightarrow>
    case poll f of
      Ready r \<Rightarrow> data_ok D (data f r) \<and> data_key (data f r) = key f
    | Pending g \<Rightarrow> ok g \<and> key g = key f
    | Panicked \<Rightarrow> False"
begin

lemma ready_ok:
  "list_all ok fs \<Longrightarrow> list_all (data_ok D) (polled_ready poll data fs)"
  by (induction fs) (auto dest!: poll_ok split: polled.splits)

lemma waiting_ok:
  "list_all ok fs \<Longrightarrow> list_all ok (polled_waiting poll fs) \<and>
     key ` set (polled_waiting poll fs) \<subseteq> key ` set fs"
proof (induction fs)
  case (Cons f fs)
  then show ?case using poll_ok [of f] by (cases "poll f") auto
qed simp

lemma waiting_distinct:
  "list_all ok fs \<Longrightarrow> distinct (map key fs) \<Longrightarrow> distinct (map key (polled_waiting poll fs))"
proof (induction fs)
  case (Cons f fs)
  then show ?case using poll_ok [of f] waiting_ok [of fs] by (auto split: polled.splits)
qed simp

lemma keys_split:
  "list_all ok fs \<Longrightarrow>
     mset (map data_key (polled_ready poll data fs)) + mset (map key (polled_waiting poll fs)) =
     mset (map key fs)"
  by (induction fs) (auto dest!: poll_ok split: polled.splits)

lemma polled_ready_rev: "mset (polled_ready poll data (rev fs)) = mset (polled_ready poll data fs)"
proof -
  have "polled_ready poll data (xs @ ys) = polled_ready poll data xs @ polled_ready poll data ys" for xs ys
    by (induction xs) simp_all
  then show ?thesis by (induction fs) simp_all
qed

lemma advance [consumes 2, case_names advanced]:
  assumes "list_all ok fs" "distinct (map key fs)"
  obtains gs new where "dl_advance poll data (length fs) fs outs = Some (gs, outs @ new)"
    and "list_all ok gs" "distinct (map key gs)" "list_all (data_ok D) new"
    and "mset (map data_key new) + mset (map key gs) = mset (map key fs)"
    and "new = polled_ready poll data (rev fs)"
proof -
  have "poll f \<noteq> Panicked" if "f \<in> set fs" for f
    using that assms(1) poll_ok [of f] by (auto simp: list_all_iff)
  from dl_advance_spec [where front = fs and poll = poll and data = data and rear = "[]" and outs = outs, OF this]
  obtain gs where
    gs: "dl_advance poll data (length fs) fs outs = Some (gs, outs @ polled_ready poll data (rev fs))"
      "mset gs = mset (polled_waiting poll fs)"
    by auto
  have same: "mset (map key gs) = mset (map key (polled_waiting poll fs))" using gs(2) by (simp add: mset_map)
  show thesis
  proof (rule that [OF gs(1)])
    show "list_all ok gs" using waiting_ok [OF assms(1)] mset_eq_setD [OF gs(2)] by (simp add: list_all_iff)
    show "distinct (map key gs)"
      using waiting_distinct [OF assms] mset_eq_imp_distinct_iff [OF same] by simp
    show "list_all (data_ok D) (polled_ready poll data (rev fs))"
      using assms(1) by (intro ready_ok) (simp add: list_all_iff)
    show "mset (map data_key (polled_ready poll data (rev fs))) + mset (map key gs) = mset (map key fs)"
      using keys_split [OF assms(1)] polled_ready_rev [of fs] same by (simp add: mset_map)
  qed simp
qed

end

section \<open>The four kinds\<close>

interpretation full: download_kind D "poll_full_block D arr" "\<lambda>_ block. DD_FullBlock block"
  "\<lambda>f. K_FullBlock (ff_block_hash f)" "ff_ok D"
proof
  fix f
  assume "ff_ok D f"
  with ff_poll_outcome [OF this, of "fst (arr_full_block arr (ff_block_hash f))" "snd (arr_full_block arr (ff_block_hash f))"]
    ff_reference_checked [OF this]
  show "case poll_full_block D arr f of
      Ready r \<Rightarrow> data_ok D (DD_FullBlock r) \<and> data_key (DD_FullBlock r) = K_FullBlock (ff_block_hash f)
    | Pending g \<Rightarrow> ff_ok D g \<and> K_FullBlock (ff_block_hash g) = K_FullBlock (ff_block_hash f)
    | Panicked \<Rightarrow> False"
    by (fastforce simp: ff_agrees_def poll_full_block_def case_prod_unfold block_checked_def split: polled.splits)
qed

interpretation code: download_kind D "poll_bytecode D arr" "\<lambda>f. DD_Bytecode (bf_code_hash f)"
  "\<lambda>f. K_Bytecode (bf_code_hash f)" "\<lambda>_. True"
proof
  fix f
  show "case poll_bytecode D arr f of
      Ready r \<Rightarrow> data_ok D (DD_Bytecode (bf_code_hash f) r) \<and>
        data_key (DD_Bytecode (bf_code_hash f) r) = K_Bytecode (bf_code_hash f)
    | Pending g \<Rightarrow> True \<and> K_Bytecode (bf_code_hash g) = K_Bytecode (bf_code_hash f)
    | Panicked \<Rightarrow> False"
    using bf_poll_cases [of D f "arr_bytecode arr (bf_code_hash f)"]
    by (auto simp: poll_bytecode_def split: polled.splits)
qed

interpretation wit: download_kind D "poll_witness D arr" "\<lambda>f. DD_Witness (wf_block_hash f)"
  "\<lambda>f. K_Witness (wf_block_hash f)" "\<lambda>_. True"
proof
  fix f
  show "case poll_witness D arr f of
      Ready r \<Rightarrow> data_ok D (DD_Witness (wf_block_hash f) r) \<and>
        data_key (DD_Witness (wf_block_hash f) r) = K_Witness (wf_block_hash f)
    | Pending g \<Rightarrow> True \<and> K_Witness (wf_block_hash g) = K_Witness (wf_block_hash f)
    | Panicked \<Rightarrow> False"
    using wf_poll_cases [where D = D and f = f and ws = "arr_witness arr (wf_block_hash f)"] witness_fetched [where D = D and f = f and c = "fd_codec D"]
    by (fastforce simp: poll_witness_def split: polled.splits)
qed

interpretation final: download_kind D "poll_finalized D arr" "\<lambda>_ (block, ancestors). DD_FinalizedBlock block ancestors"
  "\<lambda>f. K_Finalized (fa_block_hash f)" "\<lambda>f. validate_header_range_spec D \<and> fa_ok D f \<and> fa_ancestor_count f = 256"
proof
  fix f
  assume f: "validate_header_range_spec D \<and> fa_ok D f \<and> fa_ancestor_count f = 256"
  show "case poll_finalized D arr f of
      Ready r \<Rightarrow> data_ok D (case r of (block, ancestors) \<Rightarrow> DD_FinalizedBlock block ancestors) \<and>
        data_key (case r of (block, ancestors) \<Rightarrow> DD_FinalizedBlock block ancestors) = K_Finalized (fa_block_hash f)
    | Pending g \<Rightarrow> (validate_header_range_spec D \<and> fa_ok D g \<and> fa_ancestor_count g = 256) \<and>
        K_Finalized (fa_block_hash g) = K_Finalized (fa_block_hash f)
    | Panicked \<Rightarrow> False"
    using fa_poll_chain [of D f "fst (arr_finalized arr (fa_block_hash f))" "snd (arr_finalized arr (fa_block_hash f))"] f
    by (fastforce simp: poll_finalized_def case_prod_unfold block_checked_def split: polled.splits)
qed

section \<open>The downloader\<close>

text \<open>The invariant: one request in flight for each hash and kind, every future is for its hash, and
  every outcome is one the engine may rely on. The abstract state is the multiset of what was
  asked for and not handed out.\<close>

definition dl_ok :: "fetch_deps \<Rightarrow> downloader \<Rightarrow> bool" where
  "dl_ok D d \<longleftrightarrow>
     list_all (ff_ok D) (inflight_full_block_requests d) \<and>
     list_all (\<lambda>f. fa_ok D f \<and> fa_ancestor_count f = 256) (inflight_finalized_block_requests d) \<and>
     distinct (map ff_block_hash (inflight_full_block_requests d)) \<and>
     distinct (map bf_code_hash (inflight_bytecode_requests d)) \<and>
     distinct (map wf_block_hash (inflight_witness_requests d)) \<and>
     distinct (map fa_block_hash (inflight_finalized_block_requests d)) \<and>
     list_all (data_ok D) (dl_outcomes d)"

definition dl_wanted :: "downloader \<Rightarrow> download_key multiset" where
  "dl_wanted d =
     mset (map (\<lambda>f. K_FullBlock (ff_block_hash f)) (inflight_full_block_requests d)) +
     mset (map (\<lambda>f. K_Bytecode (bf_code_hash f)) (inflight_bytecode_requests d)) +
     mset (map (\<lambda>f. K_Witness (wf_block_hash f)) (inflight_witness_requests d)) +
     mset (map (\<lambda>f. K_Finalized (fa_block_hash f)) (inflight_finalized_block_requests d)) +
     mset (map data_key (dl_outcomes d))"

text \<open>What one loop does to the downloader, apart from its own list.\<close>

definition dl_advanced :: "fetch_deps \<Rightarrow> downloader \<Rightarrow> download_data list \<Rightarrow> downloader \<Rightarrow> bool" where
  "dl_advanced D d new d' \<longleftrightarrow>
     dl_ok D d' \<and> dl_wanted d' = dl_wanted d \<and> dl_outcomes d' = dl_outcomes d @ new"

lemma distinct_keys:
  "distinct (map (\<lambda>x. K_FullBlock (f x)) xs) = distinct (map f xs)"
  "distinct (map (\<lambda>x. K_Bytecode (f x)) xs) = distinct (map f xs)"
  "distinct (map (\<lambda>x. K_Witness (f x)) xs) = distinct (map f xs)"
  "distinct (map (\<lambda>x. K_Finalized (f x)) xs) = distinct (map f xs)"
  by (simp_all add: distinct_map inj_on_def)

lemmas advanced_simps = dl_advanced_def dl_ok_def dl_wanted_def distinct_keys list_all_iff ball_Un

lemma advance_finalized:
  assumes "validate_header_range_spec D" "dl_ok D d"
  obtains d' where "dl_advance_finalized D arr d = Some d'"
    "dl_advanced D d (polled_ready (poll_finalized D arr) (\<lambda>_ (b, as). DD_FinalizedBlock b as)
       (rev (inflight_finalized_block_requests d))) d'"
    "inflight_full_block_requests d' = inflight_full_block_requests d"
    "inflight_witness_requests d' = inflight_witness_requests d"
    "inflight_bytecode_requests d' = inflight_bytecode_requests d"
proof -
  from assms have "list_all (\<lambda>f. validate_header_range_spec D \<and> fa_ok D f \<and> fa_ancestor_count f = 256) (inflight_finalized_block_requests d)"
      "distinct (map (\<lambda>f. K_Finalized (fa_block_hash f)) (inflight_finalized_block_requests d))"
    by (simp_all add: advanced_simps)
  then show thesis
  proof (cases rule: final.advance [where D = D and arr = arr and outs = "dl_outcomes d"])
    case (advanced gs new)
    let ?d = "d\<lparr>inflight_finalized_block_requests := gs, dl_outcomes := dl_outcomes d @ new,
      dl_metrics := set_inflight Ty_Finalized (length gs) (dl_metrics d)\<rparr>"
    from assms advanced show thesis
      by (intro that [of ?d]) (simp_all add: dl_advance_finalized_def advanced_simps ac_simps)
  qed
qed

lemma advance_full_blocks:
  assumes "dl_ok D d"
  obtains d' where "dl_advance_full_blocks D arr d = Some d'"
    "dl_advanced D d (polled_ready (poll_full_block D arr) (\<lambda>_ block. DD_FullBlock block)
       (rev (inflight_full_block_requests d))) d'"
    "inflight_finalized_block_requests d' = inflight_finalized_block_requests d"
    "inflight_witness_requests d' = inflight_witness_requests d"
    "inflight_bytecode_requests d' = inflight_bytecode_requests d"
proof -
  from assms have "list_all (ff_ok D) (inflight_full_block_requests d)"
      "distinct (map (\<lambda>f. K_FullBlock (ff_block_hash f)) (inflight_full_block_requests d))"
    by (simp_all add: advanced_simps)
  then show thesis
  proof (cases rule: full.advance [where D = D and arr = arr and outs = "dl_outcomes d"])
    case (advanced gs new)
    let ?d = "d\<lparr>inflight_full_block_requests := gs, dl_outcomes := dl_outcomes d @ new,
      dl_metrics := set_inflight Ty_FullBlock (length gs) (dl_metrics d)\<rparr>"
    from assms advanced show thesis
      by (intro that [of ?d]) (simp_all add: dl_advance_full_blocks_def advanced_simps ac_simps)
  qed
qed

lemma advance_witnesses:
  assumes "dl_ok D d"
  obtains d' where "dl_advance_witnesses D arr d = Some d'"
    "dl_advanced D d (polled_ready (poll_witness D arr) (\<lambda>f. DD_Witness (wf_block_hash f))
       (rev (inflight_witness_requests d))) d'"
    "inflight_bytecode_requests d' = inflight_bytecode_requests d"
proof -
  from assms have "list_all (\<lambda>_. True) (inflight_witness_requests d)"
      "distinct (map (\<lambda>f. K_Witness (wf_block_hash f)) (inflight_witness_requests d))"
    by (simp_all add: advanced_simps)
  then show thesis
  proof (cases rule: wit.advance [where D = D and arr = arr and outs = "dl_outcomes d"])
    case (advanced gs new)
    let ?d = "d\<lparr>inflight_witness_requests := gs, dl_outcomes := dl_outcomes d @ new,
      dl_metrics := set_inflight Ty_Witness (length gs) (dl_metrics d)\<rparr>"
    from assms advanced show thesis
      by (intro that [of ?d]) (simp_all add: dl_advance_witnesses_def advanced_simps ac_simps)
  qed
qed

lemma advance_bytecodes:
  assumes "dl_ok D d"
  obtains d' where "dl_advance_bytecodes D arr d = Some d'"
    "dl_advanced D d (polled_ready (poll_bytecode D arr) (\<lambda>f. DD_Bytecode (bf_code_hash f))
       (rev (inflight_bytecode_requests d))) d'"
proof -
  from assms have "list_all (\<lambda>_. True) (inflight_bytecode_requests d)"
      "distinct (map (\<lambda>f. K_Bytecode (bf_code_hash f)) (inflight_bytecode_requests d))"
    by (simp_all add: advanced_simps)
  then show thesis
  proof (cases rule: code.advance [where D = D and arr = arr and outs = "dl_outcomes d"])
    case (advanced gs new)
    let ?d = "d\<lparr>inflight_bytecode_requests := gs, dl_outcomes := dl_outcomes d @ new,
      dl_metrics := set_inflight Ty_Bytecode (length gs) (dl_metrics d)\<rparr>"
    from assms advanced show thesis
      by (intro that [of ?d]) (simp_all add: dl_advance_bytecodes_def advanced_simps ac_simps)
  qed
qed

section \<open>Requests are answered once\<close>

lemma dl_new_ok: "dl_ok D dl_new" "dl_wanted dl_new = {#}"
  by (simp_all add: dl_ok_def dl_wanted_def dl_new_def)

lemma new_keys [simp]:
  "ff_block_hash (ff_new delay h) = h" "bf_code_hash (bf_new delay h) = h"
  "wf_block_hash (wf_new delay h) = h" "fa_block_hash (fa_new delay h n) = h"
  "fa_ancestor_count (fa_new delay h n) = n"
  by (simp_all add: ff_new_def bf_new_def wf_new_def fa_new_def Let_def)

text \<open>The four ways to start a download, by key.\<close>

fun dl_start :: "download_key \<Rightarrow> downloader \<Rightarrow> downloader" where
  "dl_start (K_FullBlock h) = download_full_block h"
| "dl_start (K_Bytecode h) = download_bytecode h"
| "dl_start (K_Witness h) = download_witness h"
| "dl_start (K_Finalized h) = download_finalized_with_ancestors h"

fun dl_inflight :: "downloader \<Rightarrow> download_key \<Rightarrow> bool" where
  "dl_inflight d (K_FullBlock h) \<longleftrightarrow> h \<in> ff_block_hash ` set (inflight_full_block_requests d)"
| "dl_inflight d (K_Bytecode h) \<longleftrightarrow> h \<in> bf_code_hash ` set (inflight_bytecode_requests d)"
| "dl_inflight d (K_Witness h) \<longleftrightarrow> h \<in> wf_block_hash ` set (inflight_witness_requests d)"
| "dl_inflight d (K_Finalized h) \<longleftrightarrow> h \<in> fa_block_hash ` set (inflight_finalized_block_requests d)"

lemmas download_defs = download_full_block_def download_bytecode_def download_witness_def
  download_finalized_with_ancestors_def

lemma dl_start_step:
  "dl_ok D d \<Longrightarrow> dl_ok D (dl_start k d)"
  "dl_wanted (dl_start k d) = (if dl_inflight d k then dl_wanted d else add_mset k (dl_wanted d))"
  by (cases k; force simp: download_defs dl_ok_def dl_wanted_def Let_def list_ex_iff image_iff ff_new_ok fa_new_ok)+

lemma dl_pop_step:
  "dl_ok D d \<Longrightarrow> dl_pop d = (r, d') \<Longrightarrow>
     dl_ok D d' \<and> pred_option (data_ok D) r \<and>
     dl_wanted d = dl_wanted d' + mset (map data_key (case r of None \<Rightarrow> [] | Some x \<Rightarrow> [x])) \<and>
     (r = None \<longleftrightarrow> dl_outcomes d = [])"
  by (auto simp: dl_pop_def dl_ok_def dl_wanted_def split: list.splits)

lemma polled_ready_Nil:
  "polled_ready poll data (rev fs) = [] \<Longrightarrow> f \<in> set fs \<Longrightarrow> poll f \<noteq> Ready r"
proof -
  have "polled_ready poll data gs = [] \<Longrightarrow> f \<in> set gs \<Longrightarrow> poll f \<noteq> Ready r" for gs
    by (induction gs) (auto split: polled.splits)
  then show "polled_ready poll data (rev fs) = [] \<Longrightarrow> f \<in> set fs \<Longrightarrow> poll f \<noteq> Ready r" by simp
qed

lemma dl_poll_step:
  assumes "validate_header_range_spec D" "dl_ok D d"
  obtains r d' where "dl_poll D arr d = Some (r, d')" "dl_ok D d'" "pred_option (data_ok D) r"
    and "dl_wanted d = dl_wanted d' + mset (map data_key (case r of None \<Rightarrow> [] | Some x \<Rightarrow> [x]))"
    and "r = None \<Longrightarrow> dl_outcomes d = [] \<and>
      (\<forall>f\<in>set (inflight_full_block_requests d). \<forall>x. poll_full_block D arr f \<noteq> Ready x) \<and>
      (\<forall>f\<in>set (inflight_finalized_block_requests d). \<forall>x. poll_finalized D arr f \<noteq> Ready x) \<and>
      (\<forall>f\<in>set (inflight_witness_requests d). \<forall>x. poll_witness D arr f \<noteq> Ready x) \<and>
      (\<forall>f\<in>set (inflight_bytecode_requests d). \<forall>x. poll_bytecode D arr f \<noteq> Ready x)"
proof (cases "dl_outcomes d = []")
  case False
  show thesis
    by (rule that [of "fst (dl_pop d)" "snd (dl_pop d)"])
      (use False dl_pop_step [OF assms(2), of "fst (dl_pop d)" "snd (dl_pop d)"] in \<open>auto simp: dl_poll_def\<close>)
next
  case True
  obtain d1 where d1: "dl_advance_finalized D arr d = Some d1"
    "dl_advanced D d (polled_ready (poll_finalized D arr) (\<lambda>_ (b, as). DD_FinalizedBlock b as)
       (rev (inflight_finalized_block_requests d))) d1"
    "inflight_full_block_requests d1 = inflight_full_block_requests d"
    "inflight_witness_requests d1 = inflight_witness_requests d"
    "inflight_bytecode_requests d1 = inflight_bytecode_requests d"
    by (rule advance_finalized [OF assms])
  obtain d2 where d2: "dl_advance_full_blocks D arr d1 = Some d2"
    "dl_advanced D d1 (polled_ready (poll_full_block D arr) (\<lambda>_ block. DD_FullBlock block)
       (rev (inflight_full_block_requests d1))) d2"
    "inflight_witness_requests d2 = inflight_witness_requests d1"
    "inflight_bytecode_requests d2 = inflight_bytecode_requests d1"
    by (rule advance_full_blocks [of D d1 arr]) (use d1 in \<open>auto simp: dl_advanced_def\<close>)
  obtain d3 where d3: "dl_advance_witnesses D arr d2 = Some d3"
    "dl_advanced D d2 (polled_ready (poll_witness D arr) (\<lambda>f. DD_Witness (wf_block_hash f))
       (rev (inflight_witness_requests d2))) d3"
    "inflight_bytecode_requests d3 = inflight_bytecode_requests d2"
    by (rule advance_witnesses [of D d2 arr]) (use d2 in \<open>auto simp: dl_advanced_def\<close>)
  obtain d4 where d4: "dl_advance_bytecodes D arr d3 = Some d4"
    "dl_advanced D d3 (polled_ready (poll_bytecode D arr) (\<lambda>f. DD_Bytecode (bf_code_hash f))
       (rev (inflight_bytecode_requests d3))) d4"
    by (rule advance_bytecodes [of D d3 arr]) (use d3 in \<open>auto simp: dl_advanced_def\<close>)
  have "dl_ok D d4" "dl_wanted d4 = dl_wanted d" using d1(2) d2(2) d3(2) d4(2) by (auto simp: dl_advanced_def)
  moreover obtain r d' where pop: "dl_pop d4 = (r, d')" by (cases "dl_pop d4")
  ultimately show thesis
    using dl_pop_step [of D d4 r d'] d1 d2 d3 d4 True
    by (intro that [of r d'])
      (auto simp: dl_poll_def dl_advanced_def dest: polled_ready_Nil)
qed

text \<open>A run of the downloader: downloads that are started and polls with what arrived before them.\<close>

datatype dl_op = Start download_key | Poll arrivals

fun dl_run :: "fetch_deps \<Rightarrow> dl_op list \<Rightarrow> downloader \<Rightarrow> (download_data list \<times> downloader) option" where
  "dl_run D [] d = Some ([], d)"
| "dl_run D (Start k # ops) d = dl_run D ops (dl_start k d)"
| "dl_run D (Poll arr # ops) d = do {
     (r, d) \<leftarrow> dl_poll D arr d;
     (outs, d) \<leftarrow> dl_run D ops d;
     Some ((case r of None \<Rightarrow> [] | Some x \<Rightarrow> [x]) @ outs, d)
   }"

fun dl_started :: "dl_op list \<Rightarrow> download_key list" where
  "dl_started [] = []"
| "dl_started (Start k # ops) = k # dl_started ops"
| "dl_started (Poll arr # ops) = dl_started ops"

lemma dl_inflight_wanted: "dl_inflight d k \<Longrightarrow> k \<in># dl_wanted d"
  by (cases k) (auto simp: dl_wanted_def)

lemma dl_run_step:
  assumes "validate_header_range_spec D" "dl_ok D d"
  shows "\<exists>outs d'. dl_run D ops d = Some (outs, d') \<and> dl_ok D d' \<and> list_all (data_ok D) outs \<and>
    mset (map data_key outs) + dl_wanted d' \<subseteq># dl_wanted d + mset (dl_started ops) \<and>
    set (map data_key outs) \<union> set_mset (dl_wanted d') = set_mset (dl_wanted d) \<union> set (dl_started ops)"
  using assms(2)
proof (induction ops arbitrary: d)
  case (Cons op ops)
  show ?case
  proof (cases op)
    case (Start k)
    with Cons.IH [OF dl_start_step(1) [OF Cons.prems, of k]] obtain outs d' where
      run: "dl_run D (op # ops) d = Some (outs, d')" "dl_ok D d'" "list_all (data_ok D) outs"
        "mset (map data_key outs) + dl_wanted d' \<subseteq># dl_wanted (dl_start k d) + mset (dl_started ops)"
        "set (map data_key outs) \<union> set_mset (dl_wanted d') =
           set_mset (dl_wanted (dl_start k d)) \<union> set (dl_started ops)"
      by auto
    have wanted: "dl_wanted (dl_start k d) \<subseteq># add_mset k (dl_wanted d)"
        "set_mset (dl_wanted (dl_start k d)) = insert k (set_mset (dl_wanted d))"
      using dl_inflight_wanted [of d k] by (auto simp: dl_start_step(2))
    have "mset (map data_key outs) + dl_wanted d' \<subseteq># add_mset k (dl_wanted d) + mset (dl_started ops)"
      using run(4) subset_mset.add_right_mono [OF wanted(1)] by (rule subset_mset.order_trans)
    with run wanted(2) Start show ?thesis by auto
  next
    case (Poll arr)
    obtain r d1 where poll: "dl_poll D arr d = Some (r, d1)" "dl_ok D d1" "pred_option (data_ok D) r"
      "dl_wanted d = dl_wanted d1 + mset (map data_key (case r of None \<Rightarrow> [] | Some x \<Rightarrow> [x]))"
      by (rule dl_poll_step [OF assms(1) Cons.prems]) blast
    from Cons.IH [OF poll(2)] obtain outs d' where
      run: "dl_run D ops d1 = Some (outs, d')" "dl_ok D d'" "list_all (data_ok D) outs"
        "mset (map data_key outs) + dl_wanted d' \<subseteq># dl_wanted d1 + mset (dl_started ops)"
        "set (map data_key outs) \<union> set_mset (dl_wanted d') = set_mset (dl_wanted d1) \<union> set (dl_started ops)"
      by blast
    have "dl_run D (op # ops) d = Some ((case r of None \<Rightarrow> [] | Some x \<Rightarrow> [x]) @ outs, d')"
      using poll(1) run(1) Poll by simp
    with run(2-5) poll(3,4) Poll show ?thesis by (cases r) auto
  qed
qed simp

text \<open>(C3) The downloader over any run from its start, whatever the peers answer: it does not panic;
  every outcome it hands out is good, a block or a bytecode for the hash that was asked for, a
  non-empty witness, a finalized block with the chain of its ancestors; there is never more than
  one request in flight for a hash; nothing is handed out more often than it was asked for; and
  whatever was asked for has been handed out or is still being worked on.\<close>

theorem downloader_answers:
  assumes "validate_header_range_spec D"
  shows "\<exists>outs d. dl_run D ops dl_new = Some (outs, d) \<and> dl_ok D d \<and> list_all (data_ok D) outs \<and>
    mset (map data_key outs) + dl_wanted d \<subseteq># mset (dl_started ops) \<and>
    set (map data_key outs) \<union> set_mset (dl_wanted d) = set (dl_started ops)"
  using dl_run_step [OF assms dl_new_ok(1), of ops] by (simp add: dl_new_ok(2))

text \<open>(C34) A poll of the downloader hands out an outcome whenever the data of some download has arrived:
  when it waits, no full block in flight has both its header and a valid body among its answers, no
  bytecode answer has the hash that was asked for, and no witness answer is non-empty.\<close>

theorem downloader_progress:
  assumes "validate_header_range_spec D" "dl_ok D d" "dl_poll D arr d = Some (None, d')"
  shows "list_all (\<lambda>f. case arr_full_block arr (ff_block_hash f) of (hs, bs) \<Rightarrow> ff_reference D f hs bs = None)
      (inflight_full_block_requests d)
    \<and> list_all (\<lambda>f. \<forall>raw. Inr raw \<in> set (arr_bytecode arr (bf_code_hash f)) \<longrightarrow>
        code_hash_slow (fd_codec D) (new_raw (fd_codec D) raw) \<noteq> bf_code_hash f) (inflight_bytecode_requests d)
    \<and> list_all (\<lambda>f. \<forall>es. Inr es \<in> set (arr_witness arr (wf_block_hash f)) \<longrightarrow> es = [])
        (inflight_witness_requests d)"
proof -
  obtain pending: "\<And>f x. f \<in> set (inflight_full_block_requests d) \<Longrightarrow> poll_full_block D arr f \<noteq> Ready x"
      "\<And>f x. f \<in> set (inflight_witness_requests d) \<Longrightarrow> poll_witness D arr f \<noteq> Ready x"
      "\<And>f x. f \<in> set (inflight_bytecode_requests d) \<Longrightarrow> poll_bytecode D arr f \<noteq> Ready x"
    by (rule dl_poll_step [OF assms(1,2), of arr]) (use assms(3) in auto)
  have "ff_reference D f (fst (arr_full_block arr (ff_block_hash f))) (snd (arr_full_block arr (ff_block_hash f))) = None"
    if "f \<in> set (inflight_full_block_requests d)" for f
    using pending(1) [OF that] that assms(2)
      ff_poll_outcome [of D f "fst (arr_full_block arr (ff_block_hash f))" "snd (arr_full_block arr (ff_block_hash f))"]
    by (auto simp: ff_agrees_def poll_full_block_def case_prod_unfold dl_ok_def list_all_iff split: polled.splits)
  moreover have "bf_accept D f a = None"
    if "f \<in> set (inflight_bytecode_requests d)" "a \<in> set (arr_bytecode arr (bf_code_hash f))" for f a
    using pending(3) [OF that(1)] that(2) bytecode.poll_answers [OF TrueI, of D f "arr_bytecode arr (bf_code_hash f)"]
    by (auto simp: poll_bytecode_def)
  moreover have "wf_accept D f a = None"
    if "f \<in> set (inflight_witness_requests d)" "a \<in> set (arr_witness arr (wf_block_hash f))" for f a
    using pending(2) [OF that(1)] that(2) witness.poll_answers [OF TrueI, of D f "arr_witness arr (wf_block_hash f)"]
    by (auto simp: poll_witness_def)
  ultimately show ?thesis
    by (fastforce simp: list_all_iff case_prod_unfold bf_accept_def wf_accept_def split: if_splits)
qed

section \<open>Witnesses\<close>

definition quiet :: arrivals where
  "quiet = \<lparr>arr_full_block = \<lambda>_. ([], []), arr_bytecode = \<lambda>_. [], arr_witness = \<lambda>_. [], arr_finalized = \<lambda>_. ([], [])\<rparr>"

theorem downloader_answers_witness:
  "validate_header_range_spec sample_fetch \<and>
   (\<exists>outs d. dl_run sample_fetch
      [Start (K_Bytecode 2), Start (K_Bytecode 2), Poll (quiet\<lparr>arr_bytecode := \<lambda>_. [Inr [1, 1]]\<rparr>)] dl_new = Some (outs, d) \<and>
      list_all (data_ok sample_fetch) outs \<and>
      set (map data_key outs) \<union> set_mset (dl_wanted d) = {K_Bytecode 2})"
  using downloader_answers [OF sample_fetch_spec, of "[Start (K_Bytecode 2), Start (K_Bytecode 2),
      Poll (quiet\<lparr>arr_bytecode := \<lambda>_. [Inr [1, 1]]\<rparr>)]"] sample_fetch_spec
  by auto

theorem downloader_progress_witness:
  "dl_ok sample_fetch (download_witness 5 dl_new) \<and>
   list_all (\<lambda>f. \<forall>es. Inr es \<in> set (arr_witness quiet (wf_block_hash f)) \<longrightarrow> es = [])
     (inflight_witness_requests (download_witness 5 dl_new))"
proof -
  have ok: "dl_ok sample_fetch (download_witness 5 dl_new)"
    using dl_start_step(1) [OF dl_new_ok(1), of _ "K_Witness 5"] by simp
  have "\<exists>d'. dl_poll sample_fetch quiet (download_witness 5 dl_new) = Some (None, d')"
    by (simp add: dl_poll_def dl_new_def download_witness_def Let_def dl_advance_finalized_def
      dl_advance_full_blocks_def dl_advance_witnesses_def dl_advance_bytecodes_def swap_remove_def
      poll_witness_def quiet_def dl_pop_def)
  then obtain d' where "dl_poll sample_fetch quiet (download_witness 5 dl_new) = Some (None, d')" ..
  from downloader_progress [OF sample_fetch_spec ok this] ok show ?thesis by blast
qed

text \<open>The gauge of full blocks in flight is set from the number of witness requests.\<close>

lemma full_block_gauge:
  "length (inflight_full_block_requests (download_full_block 7 dl_new)) = 1 \<and>
   m_inflight (dl_metrics (download_full_block 7 dl_new) Ty_FullBlock) = 0"
  by (simp add: download_full_block_def dl_new_def set_inflight_def Let_def)

end
