(* ===== verification/Tree_Answers.thy ===== *)
theory Tree_Answers
  imports Tree_Machine
begin

text \<open>
  What the engine tree answers to the consensus client, and what it asks the downloader for.
\<close>

section \<open>The branches of a forkchoice update\<close>

lemma cache_frame [simp]:
  "chain_to_head (t\<lparr>et_invalid := c\<rparr>) h u = chain_to_head t h u"
  "connects (t\<lparr>et_invalid := c\<rparr>) h = connects t h"
  "et_is_block_persisted_or_buffered (t\<lparr>et_invalid := c\<rparr>) h = et_is_block_persisted_or_buffered t h"
  "et_lowest_buffered_ancestor_or (t\<lparr>et_invalid := c\<rparr>) h = et_lowest_buffered_ancestor_or t h"
  by (simp_all add: chain_to_head_def connects_def et_is_block_persisted_or_buffered_def
      et_lowest_buffered_ancestor_or_def split: new_canonical_chain.split)

context chain_view
begin

lemma forkchoice_cases [consumes 3, case_names zero invalid same moved unconnected missing]:
  assumes D: "tree_deps_spec D keys view" and inv: "et_inv hdr rank D keys view J t"
    and "et_on_forkchoice_updated D state attrs version t = Some (r, t')"
  obtains "head_block_hash state = 0" "r = Inr (to_new Fcu_invalid_state)" "t' = t"
  | c st where "head_block_hash state \<noteq> 0" "cache_ok rank (view c)" "t' = t\<lparr>et_invalid := c\<rparr>"
      "r = Inr (to_new (Fcu_with_invalid st))" "ps_status st = Invalid links_to_rejected" "latest_ok t st"
  | c where "head_block_hash state \<noteq> 0" "cache_ok rank (view c)" "t' = t\<lparr>et_invalid := c\<rparr>"
      "bnh_hash (et_canonical_head t) = head_block_hash state"
      "r = et_fcu_same_head D state attrs version (t\<lparr>et_invalid := c\<rparr>)"
  | c u where "head_block_hash state \<noteq> 0" "cache_ok rank (view c)"
      "bnh_hash (et_canonical_head t) \<noteq> head_block_hash state"
      "chain_to_head t (head_block_hash state) u" "known t (head_block_hash state) = Some (ncc_tip u)"
      "r = Inr (fst (et_fcu_new_head D u state attrs version (t\<lparr>et_invalid := c\<rparr>)))"
      "t' = snd (et_fcu_new_head D u state attrs version (t\<lparr>et_invalid := c\<rparr>))"
  | c where "head_block_hash state \<noteq> 0" "cache_ok rank (view c)" "t' = t\<lparr>et_invalid := c\<rparr>"
      "bnh_hash (et_canonical_head t) \<noteq> head_block_hash state"
      "known t (head_block_hash state) \<noteq> None" "\<not> connects t (head_block_hash state)"
      "r = Inr (to_new (Fcu_valid (ps_new Valid (Some (head_block_hash state)))))"
  | c out where "head_block_hash state \<noteq> 0" "cache_ok rank (view c)" "t' = t\<lparr>et_invalid := c\<rparr>"
      "bnh_hash (et_canonical_head t) \<noteq> head_block_hash state"
      "known t (head_block_hash state) = None"
      "et_sync_to_head state (t\<lparr>et_invalid := c\<rparr>) = Some out" "r = Inr out"
proof (cases "head_block_hash state = 0")
  case True
  with assms(3) that(1) show thesis
    by (simp add: et_on_forkchoice_updated_def et_pre_validate_forkchoice_update_def)
next
  case nz: False
  let ?h = "head_block_hash state"
  obtain q c where
    pre: "et_pre_validate_forkchoice_update D state t = Some (map_option Fcu_with_invalid q, t\<lparr>et_invalid := c\<rparr>)"
    and c: "cache_ok rank (view c)" "et_inv hdr rank D keys view J (t\<lparr>et_invalid := c\<rparr>)"
      "\<And>st. q = Some st \<Longrightarrow> ps_status st = Invalid links_to_rejected \<and> latest_ok t st"
    using pre_validate_total [OF D inv nz] by blast
  note run = assms(3) [unfolded et_on_forkchoice_updated_def pre]
  consider (rejected) st where "q = Some st" | (stay) "q = None" "bnh_hash (et_canonical_head t) = ?h"
    | (move) "q = None" "bnh_hash (et_canonical_head t) \<noteq> ?h"
    by (cases q) auto
  then show thesis
  proof cases
    case rejected
    with run that(2) [OF nz c(1)] c(3) show thesis by auto
  next
    case stay
    with run that(3) [OF nz c(1)] show thesis by auto
  next
    case move
    from D c(2) show thesis
    proof (cases rule: new_head_total [where h = ?h])
      case unconnected
      with run move that(5,6) [OF nz c(1)] show thesis
        by (cases "known t ?h") (auto simp: bind_eq_Some_conv)
    next
      case (connected u)
      with run move that(4) [OF nz c(1) move(2)] show thesis by (simp add: case_prod_beta)
    qed
  qed
qed

end

section \<open>Ancestors of the canonical head\<close>

lemma ancestor_back_path: "ancestor get h a \<Longrightarrow> \<exists>xs. back_path get h xs a"
proof (induction rule: ancestor.induct)
  case (ancestor_step h x a)
  then obtain xs where "back_path get (parent_hash x) xs a" by blast
  with ancestor_step.hyps(1) have "back_path get h (x # xs) a" by simp
  then show ?case ..
qed (auto intro: exI [of _ "[]"])

text \<open>A stored ancestor of the canonical head connects to it, unless it is the genesis.\<close>

lemma ancestor_connects:
  assumes t: "tree_ok hdr rank t" and a: "ancestor (known t) (bnh_hash (et_canonical_head t)) h"
    and x: "known t h = Some x" "number x \<noteq> 0"
  shows "connects t h"
proof -
  let ?head = "bnh_hash (et_canonical_head t)" and ?N = "bnh_number (et_canonical_head t)"
  obtain ys where ys: "back_path (known t) ?head ys h" using ancestor_back_path [OF a] by blast
  have path: "back_path (known t) ?head (ys @ [x]) (parent_hash x)"
    using ys x(1) by (auto simp: back_path_append)
  have "unat (number x) + length ys = unat ?N"
    using back_path_numbers [OF stored_ok_linked [OF tree_okD(1) [OF t]] path _ tree_ok_at_number [OF t],
        of "length ys"] by simp
  with path x show ?thesis
    unfolding connects_def
    by (intro exI [of _ x] exI [of _ "[x]"] exI [of _ "ys @ [x]"] exI [of _ "parent_hash x"]) simp
qed

section \<open>What is downloaded\<close>

lemma sync_to_head_syncing:
  assumes "et_sync_to_head state t = Some out"
  shows "outcome out = Fcu_valid (ps_new Syncing None)"
  using assms by (auto simp: et_sync_to_head_def Let_def bind_eq_Some_conv split: if_splits)

lemma sync_to_head_event:
  assumes "et_sync_to_head state t = Some out" "event out = Some e"
  shows "\<exists>h. (e = te_download_finalized h \<or> e = te_download_block h) \<and> \<not> et_is_block_persisted_or_buffered t h"
  using assms by (auto simp: et_sync_to_head_def Let_def bind_eq_Some_conv split: if_splits)

section \<open>Finalized blocks\<close>

lemma finalized_stays_canonical:
  assumes ord: "iteration_order ord" and t: "tree_ok hdr rank t" and filed: "canonical_filed hdr t"
    and f: "rp_is_hash_canonical (et_provider t) f"
  shows "rp_is_hash_canonical (rp_on_finalized ord f (et_provider t)) f"
proof (cases "f = 0 \<or> fmlookup (executed_blocks (et_provider t)) f = None")
  case True
  with f show ?thesis by (simp add: rp_on_finalized_unknown)
next
  case False
  then obtain b where f0: "f \<noteq> 0" and b: "fmlookup (executed_blocks (et_provider t)) f = Some b" by auto
  obtain n where n: "canonical (et_provider t) n = Some f" using f by (auto simp: rp_canonical_iff)
  have "known t f = Some (sealed_header.truncate b)" by (simp add: rp_sealed_header_iff b)
  from known_authentic(3) [OF tree_okD(1) [OF t] this] canonical_filedD [OF filed n] have "n = number b" by simp
  then have "canonical (rp_on_finalized ord f (et_provider t)) n = Some f"
    using known_finalized(2) [OF ord stored_okD(1) [OF tree_okD(1) [OF t]] f0 b, of n] n
      saturating_sub_le [of "number b" 256] by simp
  then show ?thesis by (auto simp: rp_canonical_iff)
qed

lemma fcu_new_head_valid:
  assumes D: "tree_deps_spec D keys view" and inv: "et_inv hdr rank D keys view (canonical_filed hdr) t"
    and u: "chain_to_head t h u" "known t h = Some (ncc_tip u)"
    and v: "outcome (fst (et_fcu_new_head D u state attrs version t)) = Fcu_valid st"
  shows "st = ps_new Valid (Some (head_block_hash state)) \<and>
    bnh_hash (et_canonical_head (snd (et_fcu_new_head D u state attrs version t))) = h \<and>
    (finalized_block_hash state \<noteq> 0 \<longrightarrow>
       rp_is_hash_canonical (et_provider (snd (et_fcu_new_head D u state attrs version t)))
         (finalized_block_hash state))"
proof -
  let ?t = "et_on_canonical_chain_update u t" and ?f = "finalized_block_hash state"
  note i = et_invD [OF filed.inv_update [OF inv u]]
  have h: "hash (ncc_tip u) = h" using known_authentic(2) [OF et_invD(1) [OF inv] u(2)] .
  have c: "et_ensure_consistent_forkchoice_state state ?t = Inr ()"
    using v by (cases "et_ensure_consistent_forkchoice_state state ?t")
      (auto simp: et_fcu_new_head_def Let_def et_ensure_consistent_forkchoice_state_def split: if_splits)
  have "rp_is_hash_canonical (rp_on_finalized (it D) ?f (et_provider ?t)) ?f" if "?f \<noteq> 0"
    using i(5,6) c that tree_deps_specD(1) [OF D]
    by (intro finalized_stays_canonical) (auto simp: ensure_consistent_finalized)
  with c v h show ?thesis
    by (auto simp: et_fcu_new_head_def Let_def et_validate_payload_attributes_def
        split: option.splits sum.splits)
qed

section \<open>Executing a block\<close>

text \<open>What the parts of \<open>et_execute_block\<close> did when it succeeded.\<close>

lemma executed_meaning:
  "executed hdr D b \<longleftrightarrow> et_validate_block D (sealed_block.truncate b) = Inr () \<and>
    (\<exists>p parent (witness :: execution_witness) trie out tries'.
       header.truncate parent = hdr (parent_hash b) \<and> hash parent = parent_hash b \<and>
       validate_header_against_parent D (sealed_header.truncate b) parent = Inr () \<and>
       reveal_witness (tries D) (state_root parent)
         (state_witness_map (codec_of D) (ew_state_witness witness)) (trie_new (tries D)) = Inr trie \<and>
       be_execute (evm D) (be_new (codec_of D) (pnh D) (db D) (tries D) (evm D) p
         (pnh D (header.truncate b)) trie) b = Inr out \<and>
       validate_block_post_execution D b (eo_result out) = Inr () \<and>
       calculate_state_root (codec_of D) (tries D) (it D) (arrive D) trie
         (from_bundle_state D (eo_state out)) = Inr (state_root b, tries'))"
proof -
  have "(\<exists>out. et_execute_block D p parent b (witness :: execution_witness) = Inr out) \<longleftrightarrow>
    (\<exists>trie out tries'. reveal_witness (tries D) (state_root parent)
         (state_witness_map (codec_of D) (ew_state_witness witness)) (trie_new (tries D)) = Inr trie \<and>
       be_execute (evm D) (be_new (codec_of D) (pnh D) (db D) (tries D) (evm D) p
         (pnh D (header.truncate b)) trie) b = Inr out \<and>
       validate_block_post_execution D b (eo_result out) = Inr () \<and>
       calculate_state_root (codec_of D) (tries D) (it D) (arrive D) trie
         (from_bundle_state D (eo_state out)) = Inr (state_root b, tries'))" for p parent witness
    by (auto simp: et_execute_block_def Let_def split: sum.splits if_splits)
  then show ?thesis by (simp add: executed_def)
qed

section \<open>A world for the witnesses\<close>

text \<open>A genesis block 1 and a block 3 on top of it, which the empty payload decodes to.\<close>

definition sample_spec :: chain_spec where
  "sample_spec = \<lparr>genesis_header = header.truncate (sample_block 1 0 0), genesis_hash = 1, genesis_codes = []\<rparr>"

definition world_deps ::
  "((b256 \<times> bytecode) list, (b256 \<times> bytecode) list, leaf_map \<times> (b256, leaf_map) fmap, leaf_map,
    u32 \<times> b256 list, sample_cache, forkchoice_state option, unit) tree_deps" where
  "world_deps = sample_deps\<lparr>ensure_well_formed_payload :=
     \<lambda>payload. if payload = [] then Inr (sample_block 3 1 1) else Inl ''malformed''\<rparr>"

definition sample_hdr :: header_of where
  "sample_hdr h = header.truncate (if h = 3 then sample_block 3 1 1 else sample_block 1 0 0)"

abbreviation world_tree :: sample_tree_type where
  "world_tree \<equiv> launch_tree world_deps sample_spec []"

lemma sample_deps_spec: "tree_deps_spec sample_deps snd map_of"
  unfolding tree_deps_spec_def
  using iteration_order_sorted list_lru_spec plain_parent_num_hash_spec
  by (auto simp: sample_deps_def map_le_def)

lemma sample_world: "tree_world sample_hdr unat world_deps snd map_of sample_spec"
proof -
  have "tree_deps_spec world_deps snd map_of"
    using sample_deps_spec by (simp add: tree_deps_spec_def world_deps_def)
  moreover have "authentic_payloads sample_hdr unat world_deps"
    by (auto simp: authentic_payloads_def world_deps_def authentic_def sample_hdr_def split: if_splits)
  moreover have "genesis_ok sample_hdr unat (codec_of world_deps) sample_spec"
    by (simp add: genesis_ok_def authentic_def sample_spec_def sample_hdr_def world_deps_def sample_deps_def
        plain_codec_def genesis_block_def header.defs)
  ultimately show ?thesis by (simp add: tree_world_def)
qed

lemma world_deps_sel [simp]:
  "it world_deps = sorted_list_of_fset" "lru_of world_deps = list_lru" "pnh world_deps = plain_parent_num_hash"
  "ihc_get world_deps h c = (map_of c h, c)" "ihc_new world_deps n = []" "codec_of world_deps = plain_codec"
  "sync_target_state world_deps = id" "validate_header_with_total_difficulty world_deps hh td = Inr ()"
  "validate_header world_deps sh = Inr ()" "validate_block_pre_execution world_deps sb = Inr ()"
  "validate_header_against_parent world_deps sh p =
     (if next_number (number p) (number sh) then Inr () else Inl (Rule_violation ''number''))"
  "ensure_well_formed_payload world_deps [] = Inr (sample_block 3 1 1)" "fct_default world_deps = None"
  "status_of_payload_error world_deps = Invalid"
  by (simp_all add: world_deps_def sample_deps_def)

lemma world_state_root:
  "calculate_state_root plain_codec map_trie sorted_list_of_fset id (trie_new map_trie)
     \<lparr>accounts = fmempty, storages = fmempty\<rparr> = Inr (0, (fmempty, fmempty))"
  by (simp add: calculate_state_root_def map_trie_def sorted_list_of_fset.rep_eq sorted_entries_def fcard_fempty)

lemma world_execute:
  "et_execute_block world_deps p parent (sample_block 3 1 1) (ew_new [] 0) = Inr \<lparr>eo_state = [], eo_result = []\<rparr>"
proof -
  have "reveal_witness map_trie r m tr = Inr tr" for r m tr by (simp add: map_trie_def)
  then show ?thesis
    by (simp add: et_execute_block_def world_deps_def sample_deps_def Let_def be_execute_def
        sample_evm_def transactions_recovered_def) (simp add: sample_block_def world_state_root)
qed

text \<open>The tree after the payload of block 3, with an empty witness.\<close>

definition world_tree_3 :: sample_tree_type where
  "world_tree_3 = et_emit_event (CanonicalBlockAdded (sample_block 3 1 1) \<lparr>eo_state = [], eo_result = []\<rparr>)
     (world_tree\<lparr>et_provider := rp_insert_block (sample_block 3 1 1) (Some []) (et_provider world_tree)\<rparr>)"

lemma world_tree_views [simp]:
  "known world_tree = [1 \<mapsto> sealed_header.truncate (genesis_block sample_spec)]"
  "canonical (et_provider world_tree) = [0 \<mapsto> 1]" "et_buffer world_tree = bb_new list_lru 256"
  "et_canonical_head world_tree = \<lparr>bnh_number = 0, bnh_hash = 1\<rparr>"
  "et_tracker world_tree = None" "et_invalid world_tree = []" "genesis_hash sample_spec = 1"
  "number (genesis_header sample_spec) = 0" "parent_hash (genesis_header sample_spec) = 0"
  by (simp_all add: launch_tree_views) (simp_all add: sample_spec_def plain_codec_def launch_tree_def et_new_def Let_def)

lemma world_tree_3_views [simp]:
  "known world_tree_3 = [1 \<mapsto> sealed_header.truncate (genesis_block sample_spec),
     3 \<mapsto> sealed_header.truncate (sample_block 3 1 1)]"
  "canonical (et_provider world_tree_3) = [0 \<mapsto> 1]" "et_buffer world_tree_3 = bb_new list_lru 256"
  "et_canonical_head world_tree_3 = \<lparr>bnh_number = 0, bnh_hash = 1\<rparr>"
  "et_tracker world_tree_3 = None" "et_invalid world_tree_3 = []"
  "fmlookup (executed_blocks (et_provider world_tree_3)) 3 = Some (sample_block 3 1 1)"
  by (simp_all add: world_tree_3_def known_insert)

lemma empty_buffer_reads [simp]:
  "bb_lowest_ancestor (bb_new ops n) h = Some None"
  "bb_remove_block_with_children ord ops h (bb_new ops n) = ([], bb_new ops n)"
  by (simp_all add: bb_lowest_ancestor_def bb_new_def bb_remove_block_with_children_def bb_remove_block_def
      bb_remove_children.simps)

lemma world_payload:
  "et_on_new_payload world_deps [] (Some (ew_new [] 0)) world_tree =
     Some (Inr (to_new (ps_new Valid (Some 3))), world_tree_3)"
proof -
  let ?t = "world_tree\<lparr>et_provider := rp_insert_block (sample_block 3 1 1) (Some []) (et_provider world_tree)\<rparr>"
  have "et_walk_is_fork (rp_sealed_header (et_provider ?t)) (et_canonical_head ?t) 1 = Some False"
    by (subst et_walk_is_fork.simps) (simp add: known_insert)
  then have f: "et_is_fork ?t 3 = Some False"
    unfolding et_is_fork_def by (subst et_walk_is_fork.simps) (simp add: known_insert)
  have v: "et_insert_block world_deps (sample_block 3 1 1) (Some (ew_new [] 0)) world_tree =
     Some (Inr (Inserted BS_Valid), world_tree_3)"
    using f world_execute unfolding world_tree_3_def
    by (simp add: et_insert_block_def et_validate_block_def Let_def ew_new_def next_number_def)
  have low: "et_lowest_buffered_ancestor_or world_tree 3 = Some 3"
    by (simp add: et_lowest_buffered_ancestor_or_def)
  have chk: "et_check_invalid_ancestor_with_head world_deps 1 3 world_tree = Some (None, world_tree)"
    by (simp add: et_check_invalid_ancestor_with_head_def launch_tree_def et_new_def Let_def)
  have st: "\<not> et_is_sync_target_head world_deps t 3" if "et_tracker t = None" for t :: sample_tree_type
    using that by (simp add: et_is_sync_target_head_def)
  have "world_tree_3\<lparr>et_buffer := bb_new list_lru 256\<rparr> = world_tree_3"
    by (simp add: world_tree_3_def et_emit_event_def launch_tree_def et_new_def Let_def)
  then show ?thesis
    by (simp add: et_on_new_payload_def low chk v Let_def et_try_connect_buffered_blocks_def st)
qed

lemma world_reachable: "reachable (\<lambda>t. t = launch_tree D spec d) (et_step hdr rank D trust) (launch_tree D spec d)"
  by (rule reachable.intros) (rule refl)

lemma world_reachable_3:
  "reachable (\<lambda>t. t = launch_tree world_deps sample_spec []) (et_step sample_hdr unat world_deps trust) world_tree_3"
  using world_reachable by (rule reachable.intros) (rule et_step_payload [OF world_payload])

section \<open>Properties\<close>

text \<open>What every reachable tree satisfies, and the destructed form of it the proofs below use.\<close>

lemma reachable_tree:
  assumes "tree_world hdr rank D keys view spec"
    and "reachable (\<lambda>t. t = launch_tree D spec d) (et_step hdr rank D trust) t"
  shows "tree_deps_spec D keys view" "authentic_payloads hdr rank D"
    and "et_inv hdr rank D keys view (canonical_filed hdr) t"
    and "genesis_hash spec \<in> anchors \<Longrightarrow> \<forall>t h. trust t h \<longrightarrow> h \<in> anchors
      \<Longrightarrow> et_inv hdr rank D keys view (blocks_executed hdr D anchors) t"
    and "\<forall>t h. trust t h \<longrightarrow> extends_head hdr t h \<Longrightarrow> et_inv hdr rank D keys view (canonical_sound hdr) t"
    and "\<forall>t h. \<not> trust t h \<Longrightarrow> et_inv hdr rank D keys view (canonical_complete hdr) t"
  using tree_machine.reachable_inv [OF assms(2), of keys view] assms(1) by (auto simp: tree_world_def le_fun_def)

text \<open>(C7) From the launch of the node on, whatever sequence of payloads, downloaded blocks, forkchoice
  updates, syncs to finalized blocks and other direct changes by the consensus engine the tree sees:
  its stored blocks are linked, the block buffer is well-formed, the number of the head and of every
  canonical hash is that of its header. As long as every finalized block synced to descends from the
  head at the time, every canonical hash is the ancestor of the head at its height by the headers
  themselves, and none is above the head. And before the first sync, a stored block is in the index
  under its number exactly when it is an ancestor of the head through stored blocks.\<close>

theorem et_reachable_consistent:
  assumes "tree_world hdr rank D keys view spec"
    and "reachable (\<lambda>t. t = launch_tree D spec d) (et_step hdr rank D trust) t"
  shows "et_linked t \<and> bb_wf (lru_of D) keys (et_buffer t)
    \<and> bnh_number (et_canonical_head t) = number (hdr (bnh_hash (et_canonical_head t)))
    \<and> (\<forall>n h. canonical (et_provider t) n = Some h \<longrightarrow> n = number (hdr h))
    \<and> ((\<forall>t h. trust t h \<longrightarrow> extends_head hdr t h) \<longrightarrow> canonical_sound hdr t)
    \<and> ((\<forall>t h. \<not> trust t h) \<longrightarrow> (\<forall>h x. known t h = Some x \<longrightarrow>
         (canonical (et_provider t) (number x) = Some h \<longleftrightarrow>
          ancestor (known t) (bnh_hash (et_canonical_head t)) h)))"
proof (intro conjI impI allI)
  note inv = reachable_tree [OF assms] and i = et_invD [OF reachable_tree(3) [OF assms]]
  show "et_linked t" using i(1) by (rule stored_ok_linked)
  show "bb_wf (lru_of D) keys (et_buffer t)" using i(2) by (rule buffer_okD)
  show "bnh_number (et_canonical_head t) = number (hdr (bnh_hash (et_canonical_head t)))"
    using i(5) by (intro head_okD(1) tree_okD(2))
  show "n = number (hdr h)" if "canonical (et_provider t) n = Some h" for n h
    using i(6) that by (rule canonical_filedD)
  show "canonical_sound hdr t" if "\<forall>t h. trust t h \<longrightarrow> extends_head hdr t h"
    using inv(5) [OF that] by (rule et_invD)
  show "canonical (et_provider t) (number x) = Some h \<longleftrightarrow> ancestor (known t) (bnh_hash (et_canonical_head t)) h"
    if "\<forall>t h. \<not> trust t h" "known t h = Some x" for h x
    using canonical_exact [OF i(5) et_invD(6) [OF inv(6)] et_invD(6) [OF inv(5)] that(2)] that(1) by blast
qed

text \<open>The tree synced to block 3, with block 1 as its ancestor.\<close>

definition world_tree_synced :: sample_tree_type where
  "world_tree_synced = et_sync_finalized (sample_block 3 1 1) [sealed_header.truncate (sample_block 1 0 0)] world_tree"

lemma world_synced:
  assumes "trust world_tree 3"
  shows "reachable (\<lambda>t. t = launch_tree world_deps sample_spec []) (et_step sample_hdr unat world_deps trust) world_tree_synced"
  using world_reachable
proof (rule reachable.intros)
  show "et_step sample_hdr unat world_deps trust world_tree world_tree_synced"
    unfolding world_tree_synced_def
    by (rule et_step_sync)
      (use assms in \<open>simp_all add: authentic_def validated_def next_number_def sample_hdr_def header_ancestors_def
         hash_back_Suc header.defs sealed_header.defs\<close>)
qed

theorem et_reachable_consistent_witness:
  "extends_head sample_hdr world_tree 3 \<and> canonical_sound sample_hdr world_tree_synced \<and>
   et_canonical_head world_tree_synced = \<lparr>bnh_number = 1, bnh_hash = 3\<rparr> \<and>
   \<not> ancestor (known world_tree_3) 1 3"
proof -
  have "extends_head sample_hdr world_tree 3"
    by (auto simp: extends_head_def sample_hdr_def hash_back_Suc intro!: exI [of _ "Suc 0"])
  moreover from this have "canonical_sound sample_hdr world_tree_synced"
    using et_reachable_consistent [OF sample_world world_synced, of "extends_head sample_hdr"] by blast
  moreover have "\<not> ancestor (known world_tree_3) 1 3"
  proof -
    have "\<forall>h x. known world_tree_3 h = Some x \<longrightarrow>
        (canonical (et_provider world_tree_3) (number x) = Some h \<longleftrightarrow> ancestor (known world_tree_3) 1 h)"
      using et_reachable_consistent [OF sample_world world_reachable_3, of "\<lambda>_ _. False"]
      by (elim conjE) (simp only: world_tree_3_views block_num_hash.simps simp_thms)
    from spec [OF spec [OF this, of 3], of "sealed_header.truncate (sample_block 3 1 1)"] show ?thesis by simp
  qed
  ultimately show ?thesis by (simp add: world_tree_synced_def)
qed

text \<open>(C8) The tree always answers: in every reachable tree each of the handlers returns, whatever it is
  given. No walk through parent hashes runs forever.\<close>

theorem et_reachable_responsive:
  assumes "tree_world hdr rank D keys view spec"
    and "reachable (\<lambda>t. t = launch_tree D spec d) (et_step hdr rank D trust) t"
  shows "(\<forall>payload w. \<exists>r t'. et_on_new_payload D payload w t = Some (r, t')) \<and>
    (\<forall>b w. authentic hdr rank b \<longrightarrow> (\<exists>r t'. et_on_downloaded_block D b w t = Some (r, t'))) \<and>
    (\<forall>state attrs version. \<exists>r t'. et_on_forkchoice_updated D state attrs version t = Some (r, t')) \<and>
    (\<forall>h. \<exists>t'. et_make_canonical D h t = Some t')"
  using filed_responsive [OF reachable_tree(1-3) [OF assms]]
  unfolding et_responsive_def by simp

theorem et_reachable_responsive_witness:
  "\<exists>r t'. et_on_forkchoice_updated world_deps \<lparr>head_block_hash = 9, safe_block_hash = 0, finalized_block_hash = 8\<rparr>
     None 3 world_tree_3 = Some (r, t')"
  using et_reachable_responsive [OF sample_world world_reachable_3] by blast

text \<open>(C9) What a VALID answer to a forkchoice update means: the latest valid hash is the requested head, and
  either the requested head is the canonical head afterwards and the finalized hash is canonical;
  or the head is stored but has no common ancestor with the canonical chain, and nothing moved.
  The latter is the branch the sources describe as "the head is already part of the canonical
  chain": no stored ancestor of the canonical head but a block of number 0 takes it.\<close>

theorem et_forkchoice_valid:
  assumes "tree_world hdr rank D keys view spec"
    and "reachable (\<lambda>t. t = launch_tree D spec d) (et_step hdr rank D trust) t"
    and "et_on_forkchoice_updated D state attrs version t = Some (Inr out, t')"
    and "outcome out = Fcu_valid st" "ps_status st = Valid"
  shows "ps_latest_valid_hash st = Some (head_block_hash state) \<and>
    ((bnh_hash (et_canonical_head t') = head_block_hash state \<and>
      (finalized_block_hash state \<noteq> 0 \<longrightarrow>
         rp_is_hash_canonical (et_provider t') (finalized_block_hash state))) \<or>
     (\<not> connects t (head_block_hash state) \<and> known t (head_block_hash state) \<noteq> None \<and>
      et_canonical_head t' = et_canonical_head t \<and>
      (\<forall>x. ancestor (known t) (bnh_hash (et_canonical_head t)) (head_block_hash state) \<longrightarrow>
         known t (head_block_hash state) = Some x \<longrightarrow> number x = 0)))"
proof -
  note inv = reachable_tree [OF assms(1,2)]
  from inv(1,3) assms(3) show ?thesis
  proof (cases rule: filed.forkchoice_cases)
    case (same c)
    then show ?thesis
      using assms(4,5) by (auto simp: et_fcu_same_head_def Let_def ps_new_def et_validate_payload_attributes_def
          ensure_consistent_finalized et_ensure_consistent_forkchoice_state_def
          split: sum.splits option.splits if_splits)
  next
    case (moved c u)
    have t: "et_inv hdr rank D keys view (canonical_filed hdr) (t\<lparr>et_invalid := c\<rparr>)"
      using inv(3) moved(2) by (rule filed.inv_cache)
    from moved fcu_new_head_valid [OF inv(1) t, of "head_block_hash state" u state attrs version st] assms(4)
    show ?thesis by (simp add: ps_new_def)
  next
    case (unconnected c)
    with assms(4) ancestor_connects [OF et_invD(5) [OF inv(3)], of "head_block_hash state"] show ?thesis
      by (auto simp: ps_new_def)
  next
    case (missing c o')
    with assms(4,5) show ?thesis by (auto simp: sync_to_head_syncing ps_new_def)
  qed (use assms(4,5) in auto)
qed

definition sample_state_3 :: forkchoice_state where
  "sample_state_3 = \<lparr>head_block_hash = 3, safe_block_hash = 1, finalized_block_hash = 1\<rparr>"

lemma world_forkchoice:
  "\<exists>t'. et_on_forkchoice_updated world_deps sample_state_3 None 3 world_tree_3 =
     Some (Inr (to_new (Fcu_valid (ps_new Valid (Some 3)))), t')"
proof -
  have pre: "et_pre_validate_forkchoice_update world_deps sample_state_3 world_tree_3 = Some (None, world_tree_3)"
    by (simp add: et_pre_validate_forkchoice_update_def sample_state_3_def et_lowest_buffered_ancestor_or_def
        et_check_invalid_ancestor_def)
  have new: "et_on_new_head world_deps world_tree_3 3 =
      Some (Some (Commit [sealed_header.truncate (sample_block 3 1 1)]))"
    by (simp add: et_on_new_head_def Let_def plain_parent_num_hash_def et_walk_back.simps)
  let ?t = "et_on_canonical_chain_update (Commit [sealed_header.truncate (sample_block 3 1 1)]) world_tree_3"
  have "canonical (et_provider ?t) 0 = Some 1" by (simp add: rp_on_chain_update_canonical)
  then have "rp_is_hash_canonical (et_provider ?t) 1" unfolding rp_canonical_iff by blast
  then have "et_ensure_consistent_forkchoice_state sample_state_3 ?t = Inr ()"
    by (simp add: et_ensure_consistent_forkchoice_state_def sample_state_3_def)
  with pre new show ?thesis
    by (simp add: et_on_forkchoice_updated_def sample_state_3_def et_fcu_new_head_def Let_def)
qed

theorem et_forkchoice_valid_witness:
  "\<exists>t'. et_on_forkchoice_updated world_deps sample_state_3 None 3 world_tree_3 =
     Some (Inr (to_new (Fcu_valid (ps_new Valid (Some 3)))), t') \<and>
   (bnh_hash (et_canonical_head t') = 3 \<or> \<not> connects world_tree_3 3)"
proof -
  obtain t' where f: "et_on_forkchoice_updated world_deps sample_state_3 None 3 world_tree_3 =
     Some (Inr (to_new (Fcu_valid (ps_new Valid (Some 3)))), t')" using world_forkchoice by blast
  from et_forkchoice_valid [OF sample_world world_reachable_3 f] f show ?thesis
    by (auto simp: ps_new_def sample_state_3_def)
qed

text \<open>(C11) What a forkchoice update downloads: whenever it asks for a download, it answers SYNCING, and
  the block it asks for is neither stored nor buffered.\<close>

theorem et_forkchoice_download:
  assumes "tree_world hdr rank D keys view spec"
    and "reachable (\<lambda>t. t = launch_tree D spec d) (et_step hdr rank D trust) t"
    and "et_on_forkchoice_updated D state attrs version t = Some (Inr out, t')" "event out = Some e"
  shows "outcome out = Fcu_valid (ps_new Syncing None) \<and>
    (\<exists>h. (e = te_download_finalized h \<or> e = te_download_block h) \<and>
       known t h = None \<and> h |\<notin>| fmdom (blocks (et_buffer t)))"
proof -
  note inv = reachable_tree [OF assms(1,2)]
  from inv(1,3) assms(3) show ?thesis
  proof (cases rule: filed.forkchoice_cases)
    case (missing c o')
    with assms(4) sync_to_head_syncing [OF missing(6)] sync_to_head_event [OF missing(6), of e] show ?thesis
      by (auto simp: et_is_block_persisted_or_buffered_def)
  qed (use assms(4) in \<open>auto simp: et_fcu_same_head_def et_fcu_new_head_def Let_def to_new_def
         split: sum.splits option.splits\<close>)
qed

theorem et_forkchoice_download_witness:
  "\<exists>out t'. et_on_forkchoice_updated world_deps
       \<lparr>head_block_hash = 9, safe_block_hash = 0, finalized_block_hash = 8\<rparr> None 3 world_tree = Some (Inr out, t') \<and>
     event out = Some (te_download_finalized 8) \<and> outcome out = Fcu_valid (ps_new Syncing None)"
proof -
  let ?st = "\<lparr>head_block_hash = 9, safe_block_hash = 0, finalized_block_hash = 8\<rparr> :: forkchoice_state"
  have pre: "et_pre_validate_forkchoice_update world_deps ?st world_tree = Some (None, world_tree)"
    by (simp add: et_pre_validate_forkchoice_update_def et_lowest_buffered_ancestor_or_def
        et_check_invalid_ancestor_def)
  let ?out = "with_event (te_download_finalized 8) (to_new (Fcu_valid (ps_new Syncing None)))"
  have f: "et_on_forkchoice_updated world_deps ?st None 3 world_tree = Some (Inr ?out, world_tree)"
    using pre by (simp add: et_on_forkchoice_updated_def et_on_new_head_def Let_def et_sync_to_head_def
        et_is_block_persisted_or_buffered_def bb_new_def)
  from et_forkchoice_download [OF sample_world world_reachable f] f show ?thesis by auto
qed

text \<open>(C10) What an answer to a payload means, in every reachable tree: its latest valid hash is zero or
  that of a stored block, and when the answer is VALID it names the block of the payload, and a block
  with this hash is stored that is a trusted one, the genesis or a finalized block the node synced
  to, or that was executed: it passed the consensus rules, and executing it over the state of its
  parent, revealed from a witness, gave the state root its header claims. The hypothesis on payload
  errors is reth's conversion of them, which never gives VALID.\<close>

theorem et_new_payload_answer:
  assumes "tree_world hdr rank D keys view spec"
    and "reachable (\<lambda>t. t = launch_tree D spec d) (et_step hdr rank D trust) t"
    and "genesis_hash spec \<in> anchors" "\<forall>t h. trust t h \<longrightarrow> h \<in> anchors"
    and "et_on_new_payload D payload w t = Some (Inr out, t')"
    and "\<And>e. status_of_payload_error D e \<noteq> Valid"
  shows "(\<forall>h. ps_latest_valid_hash (outcome out) = Some h \<longrightarrow> h = 0 \<or> known t' h \<noteq> None) \<and>
    (ps_status (outcome out) = Valid \<longrightarrow>
      (\<exists>b x. ensure_well_formed_payload D payload = Inr b \<and>
         ps_latest_valid_hash (outcome out) = Some (hash b) \<and>
         fmlookup (executed_blocks (et_provider t')) (hash b) = Some x \<and>
         (hash b \<in> anchors \<or>
          (et_validate_block D (sealed_block.truncate x) = Inr () \<and>
           (\<exists>p parent (witness :: execution_witness) trie out tries'.
              header.truncate parent = hdr (parent_hash x) \<and> hash parent = parent_hash x \<and>
              validate_header_against_parent D (sealed_header.truncate x) parent = Inr () \<and>
              reveal_witness (tries D) (state_root parent)
                (state_witness_map (codec_of D) (ew_state_witness witness)) (trie_new (tries D)) = Inr trie \<and>
              be_execute (evm D) (be_new (codec_of D) (pnh D) (db D) (tries D) (evm D) p
                (pnh D (header.truncate x)) trie) x = Inr out \<and>
              validate_block_post_execution D x (eo_result out) = Inr () \<and>
              calculate_state_root (codec_of D) (tries D) (it D) (arrive D) trie
                (from_bundle_state D (eo_state out)) = Inr (state_root x, tries'))))))"
proof -
  note inv = reachable_tree [OF assms(1,2)]
  let ?J = "blocks_executed hdr D anchors"
  have "\<And>b. ensure_well_formed_payload D payload = Inr b \<Longrightarrow> authentic hdr rank b"
    using inv(2) by (auto simp: authentic_payloads_def)
  from exec_view.new_payload_total [OF inv(1) inv(4) [OF assms(3,4)] this, of payload w] assms(5)
  have t': "et_inv hdr rank D keys view ?J t'" and l: "latest_ok t' (outcome out)"
    and a: "\<And>b. ensure_well_formed_payload D payload = Inr b \<Longrightarrow> answer_ok t' (hash b) (outcome out)" by auto
  show ?thesis
  proof (cases "ensure_well_formed_payload D payload")
    case (Inl e)
    with assms(5,6) l show ?thesis
      by (auto simp: et_on_new_payload_def latest_ok_def ps_new_def bind_eq_Some_conv)
  next
    case (Inr b)
    have "\<exists>x. fmlookup (executed_blocks (et_provider t')) (hash b) = Some x \<and>
        (hash b \<in> anchors \<or> executed hdr D x)" if "known t' (hash b) \<noteq> None"
      using that et_invD(6) [OF t'] by (auto simp: blocks_executed_def rp_sealed_header_iff)
    with a [OF Inr] Inr l show ?thesis unfolding executed_meaning by (auto simp: answer_ok_def latest_ok_def)
  qed
qed

theorem et_new_payload_answer_witness:
  "\<exists>x. fmlookup (executed_blocks (et_provider world_tree_3)) 3 = Some x \<and>
     et_validate_block world_deps (sealed_block.truncate x) = Inr ()"
  using et_new_payload_answer [OF sample_world world_reachable _ _ world_payload,
      where trust = "\<lambda>_ _. False" and anchors = "{1}"]
  by (auto simp: ps_new_def)

end
