(* ===== verification/Engine_Correct.thy ===== *)
theory Engine_Correct
  imports Engine_Answers Downloader_Correct Tree_Answers
begin

text \<open>
  The engine keeps the invariants of its parts: every handler of the engine is a sequence of the
  tree's handlers and of downloads that are started, the data handed out by the downloader is what
  the tree's handlers need, and no round of the loop gets stuck. The proofs are relative to a
  condition \<open>J\<close> on the tree, as in \<open>chain_view\<close>; the finalized block a download brings is the one
  change to the tree that its own handlers do not make.
\<close>

section \<open>What a download brings\<close>

text \<open>The headers that arrive do not collide with others under the hash, and a parent hash is older
  than the hash that commits to it.\<close>

definition genuine :: "header_of \<Rightarrow> hash_rank \<Rightarrow> codec \<Rightarrow> header \<Rightarrow> bool" where
  "genuine hdr rank c h \<longleftrightarrow>
     hdr (hash_slow c h) = h \<and> hash_slow c h \<noteq> 0 \<and> rank (parent_hash h) < rank (hash_slow c h)"

text \<open>The finalized blocks of the consensus layer are trusted: they are \<open>anchors\<close>, and their number
  follows that of their parent.\<close>

fun data_genuine :: "header_of \<Rightarrow> hash_rank \<Rightarrow> codec \<Rightarrow> b256 set \<Rightarrow> download_data \<Rightarrow> bool" where
  "data_genuine hdr rank c anchors (DD_FullBlock block) = genuine hdr rank c (header.truncate block)"
| "data_genuine hdr rank c anchors (DD_FinalizedBlock block ancestors) \<longleftrightarrow>
     genuine hdr rank c (header.truncate block) \<and> validated hdr block \<and> hash block \<in> anchors"
| "data_genuine hdr rank c anchors (DD_Bytecode h code) = True"
| "data_genuine hdr rank c anchors (DD_Witness h w) = True"

text \<open>What reth promises: recovering the senders does not change the block. And the two parts of the
  engine hash alike.\<close>

definition engine_deps_spec ::
  "('d, 'u, 't, 's, 'l, 'c, 'f, 'x) engine_deps \<Rightarrow> bool" where
  "engine_deps_spec E \<longleftrightarrow>
     validate_header_range_spec (fetch_of E) \<and> fd_codec (fetch_of E) = codec_of (tree_of E) \<and>
     (\<forall>b r. try_recover E b = Some r \<longrightarrow> sealed_block.truncate r = b)"

lemma engine_deps_specD:
  assumes "engine_deps_spec E"
  shows "validate_header_range_spec (fetch_of E)" "fd_codec (fetch_of E) = codec_of (tree_of E)"
    and "try_recover E b = Some r \<Longrightarrow> sealed_block.truncate r = b"
  using assms by (auto simp: engine_deps_spec_def)

lemma recovered_parts:
  assumes "sealed_block.truncate r = b"
  shows "hash r = hash b" "parent_hash r = parent_hash b" "number r = number b"
    and "header.truncate r = header.truncate b"
  using assms by (auto simp: sealed_block.defs header.defs)

lemma checked_authentic:
  assumes "genuine hdr rank c (header.truncate block)" "block_checked D h block" "fd_codec D = c"
    and "sealed_block.truncate r = block"
  shows "authentic hdr rank r"
  using assms recovered_parts [OF assms(4)] by (auto simp: genuine_def block_checked_def authentic_def)

section \<open>The invariant\<close>

definition ce_inv ::
  "header_of \<Rightarrow> hash_rank \<Rightarrow> ('d, 'u, 't, 's, 'l, 'c, 'f, 'x) engine_deps \<Rightarrow> ('l \<Rightarrow> b256 list)
     \<Rightarrow> ('c \<Rightarrow> b256 \<rightharpoonup> block_with_parent) \<Rightarrow> (('d, 'l, 'c, 'f) engine_tree \<Rightarrow> bool)
     \<Rightarrow> ('d, 'l, 'c, 'f) consensus_engine \<Rightarrow> bool" where
  "ce_inv hdr rank E keys view J e \<longleftrightarrow>
     et_inv hdr rank (tree_of E) keys view J (ce_tree e) \<and> dl_ok (fetch_of E) (ce_downloader e)"

lemma ce_inv_simps [simp]:
  "ce_inv hdr rank E keys view J (ce_send tx r e) = ce_inv hdr rank E keys view J e"
  "ce_inv hdr rank E keys view J (e\<lparr>ce_parked_payload := p\<rparr>) = ce_inv hdr rank E keys view J e"
  "ce_inv hdr rank E keys view J (e\<lparr>ce_from_beacon_engine := ms\<rparr>) = ce_inv hdr rank E keys view J e"
  "ce_inv hdr rank E keys view J (ce_record_witness_metrics w e) = ce_inv hdr rank E keys view J e"
  "ce_inv hdr rank E keys view J (ce_answer_parked h q e) = ce_inv hdr rank E keys view J e"
  by (simp_all add: ce_inv_def ce_send_def ce_record_witness_metrics_def ce_answer_parked_def split: option.split)

lemma ce_inv_tree:
  "ce_inv hdr rank E keys view J e \<Longrightarrow> et_inv hdr rank (tree_of E) keys view J t
   \<Longrightarrow> ce_inv hdr rank E keys view J (e\<lparr>ce_tree := t\<rparr>)"
  by (simp add: ce_inv_def)

lemma ce_inv_download:
  assumes "ce_inv hdr rank E keys view J e"
  shows "ce_inv hdr rank E keys view J (with_downloader (download_full_block h) e)"
    and "ce_inv hdr rank E keys view J (with_downloader (download_witness h) e)"
    and "ce_inv hdr rank E keys view J (with_downloader (download_bytecode h) e)"
    and "ce_inv hdr rank E keys view J (with_downloader (download_finalized_with_ancestors h) e)"
  using assms dl_start_step(1) [of "fetch_of E" "ce_downloader e" "K_FullBlock h"]
    dl_start_step(1) [of "fetch_of E" "ce_downloader e" "K_Witness h"]
    dl_start_step(1) [of "fetch_of E" "ce_downloader e" "K_Bytecode h"]
    dl_start_step(1) [of "fetch_of E" "ce_downloader e" "K_Finalized h"]
  by (simp_all add: ce_inv_def with_downloader_def)

lemma ce_inv_download_all:
  "ce_inv hdr rank E keys view J e \<Longrightarrow>
   ce_inv hdr rank E keys view J (fold (\<lambda>h. with_downloader (download_bytecode h)) hs e)"
  by (induction hs arbitrary: e) (simp_all add: ce_inv_download)

text \<open>A condition on the tree that the finalized download keeps as well.\<close>

locale engine_view = chain_view hdr rank D J
  for hdr :: header_of and rank :: hash_rank and D :: "('d, 'u, 't, 's, 'l, 'c, 'f, 'x) tree_deps"
    and J :: "('d, 'l, 'c, 'f) engine_tree \<Rightarrow> bool" +
  fixes anchors :: "b256 set"
  assumes J_sync: "tree_ok hdr rank t \<Longrightarrow> J t \<Longrightarrow> authentic hdr rank b \<Longrightarrow> hash b \<in> anchors
    \<Longrightarrow> J (t\<lparr>et_canonical_head := \<lparr>bnh_number = number b, bnh_hash = hash b\<rparr>,
            et_provider := fold (\<lambda>(h :: sealed_header). rp_insert_canonical_hash (number h) (hash h)) ancestors
              (rp_insert_block b None (rp_insert_canonical_hash (number b) (hash b) (et_provider t)))\<rparr>)"
begin

lemma tree_event_total:
  assumes D: "tree_deps_spec D keys view" "tree_of E = D" and inv: "ce_inv hdr rank E keys view J e"
  shows "\<exists>e'. ce_on_tree_event E ev e = Some e' \<and> ce_inv hdr rank E keys view J e'"
proof -
  show ?thesis
  proof (cases ev)
    case (TreeAction a)
    obtain h where ev: "ev = TreeAction (MakeCanonical h)" using TreeAction by (cases a) simp
    from inv D(2) have "et_inv hdr rank D keys view J (ce_tree e)" by (simp add: ce_inv_def)
    from make_canonical_total [OF D(1) this, of h] obtain t' where
      "et_make_canonical D h (ce_tree e) = Some t'" "et_inv hdr rank D keys view J t'" by blast
    with ev D(2) ce_inv_tree [OF inv] show ?thesis by simp
  next
    case (Download r)
    with inv show ?thesis by (cases r) (simp_all add: Let_def ce_inv_download)
  qed
qed

lemma maybe_tree_event_total:
  assumes "tree_deps_spec D keys view" "tree_of E = D" "ce_inv hdr rank E keys view J e"
  shows "\<exists>e'. ce_on_maybe_tree_event E ev e = Some e' \<and> ce_inv hdr rank E keys view J e'"
  using tree_event_total [OF assms] assms(3) by (simp add: ce_on_maybe_tree_event_def split: option.split)

lemma insert_unlocked_total:
  assumes D: "tree_deps_spec D keys view" "tree_of E = D" and inv: "ce_inv hdr rank E keys view J e"
  shows "\<exists>e'. ce_insert_unlocked E h e = Some e' \<and> ce_inv hdr rank E keys view J e'"
proof -
  from inv D(2) have t: "et_inv hdr rank D keys view J (ce_tree e)" by (simp add: ce_inv_def)
  obtain removed s where s: "bb_remove_block (lru_of D) h (et_buffer (ce_tree e)) = (removed, s)"
    by (cases "bb_remove_block (lru_of D) h (et_buffer (ce_tree e))")
  note taken = buffer_ok_take_block [OF tree_deps_specD(2) [OF D(1)] et_invD(2) [OF t], of h]
  have t1: "et_inv hdr rank D keys view J ((ce_tree e)\<lparr>et_buffer := s\<rparr>)"
    using inv_buffer [OF t taken(1)] s by simp
  show ?thesis
  proof (cases removed)
    case None
    with s D(2) t1 ce_inv_tree [OF inv] show ?thesis by (simp add: ce_insert_unlocked_def with_tree_def)
  next
    case (Some bw)
    obtain b w where bw: "bw = (b, w)" by (cases bw)
    with s Some taken(2) have "authentic hdr rank b" by simp
    from downloaded_block_total [OF D(1) t1 this, of w] obtain r t2 where
      r: "et_on_downloaded_block D b w ((ce_tree e)\<lparr>et_buffer := s\<rparr>) = Some (r, t2)"
      and t2: "et_inv hdr rank D keys view J t2" by blast
    have e2: "ce_inv hdr rank E keys view J (e\<lparr>ce_tree := t2\<rparr>)"
      using ce_inv_tree [OF inv, of t2] t2 D(2) by simp
    obtain f where "(case r of Inr out \<Rightarrow> ce_on_maybe_tree_event E (event out) (e\<lparr>ce_tree := t2\<rparr>)
        | Inl _ \<Rightarrow> Some (e\<lparr>ce_tree := t2\<rparr>)) = Some f" "ce_inv hdr rank E keys view J f"
      using maybe_tree_event_total [OF D e2] e2 by (cases r) auto
    with s Some bw r D(2) show ?thesis by (simp add: ce_insert_unlocked_def with_tree_def Let_def)
  qed
qed

lemma insert_each_total:
  assumes "tree_deps_spec D keys view" "tree_of E = D" "ce_inv hdr rank E keys view J e"
  shows "\<exists>e'. ce_insert_each E hs e = Some e' \<and> ce_inv hdr rank E keys view J e'"
  using assms(3)
proof (induction hs arbitrary: e)
  case (Cons h hs)
  from insert_unlocked_total [OF assms(1,2) Cons.prems, of h] Cons.IH show ?case by auto
qed simp

text \<open>The four arms of a download outcome.\<close>

lemma finalized_block_inv:
  assumes E: "tree_deps_spec D keys view" "tree_of E = D" "engine_deps_spec E"
    and inv: "ce_inv hdr rank E keys view J e"
    and data: "block_checked (fetch_of E) (hash block) block"
      "data_genuine hdr rank (codec_of D) anchors (DD_FinalizedBlock block ancestors)"
  shows "ce_inv hdr rank E keys view J (snd (ce_on_finalized_block E block ancestors e))"
proof (cases "try_recover E block")
  case None
  with inv show ?thesis by (simp add: ce_on_finalized_block_def)
next
  case (Some b)
  note b = recovered_parts [OF engine_deps_specD(3) [OF E(3) Some]]
  have auth: "authentic hdr rank b"
    using checked_authentic [OF _ _ _ engine_deps_specD(3) [OF E(3) Some]] data engine_deps_specD(2) [OF E(3)] E(2)
    by auto
  have val: "validated hdr b" using data(2) b by (simp add: validated_def)
  let ?t = "ce_tree e"
  have t: "et_inv hdr rank D keys view J ?t" using inv E(2) by (simp add: ce_inv_def)
  let ?p = "rp_insert_block b None (rp_insert_canonical_hash (number b) (hash b) (et_provider ?t))"
  let ?q = "fold (\<lambda>(h :: sealed_header). rp_insert_canonical_hash (number h) (hash h)) ancestors ?p"
  let ?t' = "?t\<lparr>et_canonical_head := \<lparr>bnh_number = number b, bnh_hash = hash b\<rparr>, et_provider := ?q\<rparr>"
  have "stored_ok hdr rank ?p"
    using stored_ok_insert [OF stored_ok_canonical [OF et_invD(1) [OF t]] auth val] .
  then have "stored_ok hdr rank ?q" by (rule stored_ok_canonicals)
  moreover have "head_ok hdr ?t'" using authenticD(1,4) [OF auth] by (simp add: head_ok_def)
  ultimately have "tree_ok hdr rank ?t'" by (simp add: tree_ok_def)
  moreover have "J ?t'" using J_sync [OF et_invD(5,6) [OF t] auth] data(2) b by simp
  ultimately have "et_inv hdr rank D keys view J ?t'"
    using et_invD(2,3) [OF t] by (simp add: et_inv_def)
  moreover have "snd (ce_on_finalized_block E block ancestors e) = e\<lparr>ce_tree := ?t'\<rparr>"
    using Some b by (simp add: ce_on_finalized_block_def with_tree_def et_set_canonical_head_def num_hash_def Let_def)
  ultimately show ?thesis using ce_inv_tree [OF inv] E(2) by simp
qed

lemma full_block_inv:
  assumes E: "tree_deps_spec D keys view" "tree_of E = D" "engine_deps_spec E"
    and inv: "ce_inv hdr rank E keys view J e"
    and data: "data_ok (fetch_of E) (DD_FullBlock block)"
      "data_genuine hdr rank (codec_of D) anchors (DD_FullBlock block)"
  shows "ce_inv hdr rank E keys view J (snd (ce_on_full_block E block e))"
proof (cases "try_recover E block")
  case None
  with inv show ?thesis by (simp add: ce_on_full_block_def)
next
  case (Some b)
  have auth: "authentic hdr rank b"
    using checked_authentic [OF _ _ _ engine_deps_specD(3) [OF E(3) Some]] data engine_deps_specD(2) [OF E(3)] E(2)
    by auto
  have t: "et_inv hdr rank D keys view J (ce_tree e)" using inv E(2) by (simp add: ce_inv_def)
  from inv_buffer [OF t buffer_ok_insert [OF tree_deps_specD(2) [OF E(1)] et_invD(2) [OF t] auth]]
  show ?thesis using Some ce_inv_tree [OF inv] E(2) by (simp add: ce_on_full_block_def with_tree_def)
qed

lemma witness_inv:
  assumes E: "tree_deps_spec D keys view" "tree_of E = D"
    and inv: "ce_inv hdr rank E keys view J e"
  shows "ce_inv hdr rank E keys view J (snd (ce_on_witness E h w e))"
proof -
  have t: "et_inv hdr rank D keys view J (ce_tree e)" using inv E(2) by (simp add: ce_inv_def)
  have "et_inv hdr rank D keys view J ((ce_tree e)\<lparr>et_buffer := bb_insert_witness h w' m (et_buffer (ce_tree e))\<rparr>)" for w' m
    using inv_buffer [OF t buffer_ok_witness [OF et_invD(2) [OF t]]] .
  with inv E(2) have "ce_inv hdr rank E keys view J
      (with_tree (\<lambda>t. t\<lparr>et_buffer := bb_insert_witness h w' m (et_buffer t)\<rparr>) (ce_record_witness_metrics w' e))" for w' m
    by (simp add: ce_inv_def with_tree_def ce_record_witness_metrics_def)
  then show ?thesis using inv
    by (auto simp: ce_on_witness_def Let_def intro: ce_inv_download_all split: sum.split prod.split)
qed

lemma bytecode_inv:
  assumes E: "tree_deps_spec D keys view" "tree_of E = D"
    and inv: "ce_inv hdr rank E keys view J e"
  shows "ce_inv hdr rank E keys view J (snd (ce_on_bytecode E h code e))"
proof -
  have t: "et_inv hdr rank D keys view J (ce_tree e)" using inv E(2) by (simp add: ce_inv_def)
  let ?p = "snd (rp_insert_bytecode (db D) h code (et_provider (ce_tree e)))"
  have t1: "et_inv hdr rank D keys view J ((ce_tree e)\<lparr>et_provider := ?p\<rparr>)"
    by (rule inv_cong [OF t]) (use et_invD [OF t] in simp_all)
  have t2: "et_inv hdr rank D keys view J ((ce_tree e)\<lparr>et_provider := ?p,
      et_buffer := snd (bb_on_bytecode_received h (et_buffer (ce_tree e)))\<rparr>)"
    using inv_buffer [OF t1 buffer_ok_bytecode [OF et_invD(2) [OF t]]] .
  show ?thesis
    using ce_inv_tree [OF inv] t1 t2 E(2)
    by (auto simp: ce_on_bytecode_def with_tree_def Let_def case_prod_unfold split: sum.split)
qed

lemma download_outcome_total:
  assumes E: "tree_deps_spec D keys view" "tree_of E = D" "engine_deps_spec E"
    and inv: "ce_inv hdr rank E keys view J e"
    and data: "data_ok (fetch_of E) data" "data_genuine hdr rank (codec_of D) anchors data"
  shows "\<exists>r e'. ce_on_download_outcome E data e = Some (r, e') \<and> ce_inv hdr rank E keys view J e'"
proof -
  let ?goal = "\<lambda>res. \<exists>r e'. res = Some (r, e') \<and> ce_inv hdr rank E keys view J e'"
  have all: "?goal (do { e \<leftarrow> ce_insert_each E hs f; Some (Inr (), e) })"
    if "ce_inv hdr rank E keys view J f" for f hs
    using insert_each_total [OF E(1,2) that, of hs] by auto
  show ?thesis
  proof (cases data)
    case (DD_FinalizedBlock block ancestors)
    obtain q f where f: "ce_on_finalized_block E block ancestors e = (q, f)"
      by (cases "ce_on_finalized_block E block ancestors e")
    with finalized_block_inv [OF E inv] data DD_FinalizedBlock have "ce_inv hdr rank E keys view J f" by fastforce
    with all [OF this] f show ?thesis
      by (cases q) (simp_all add: ce_on_download_outcome_def DD_FinalizedBlock)
  next
    case (DD_FullBlock block)
    obtain q f where f: "ce_on_full_block E block e = (q, f)" by (cases "ce_on_full_block E block e")
    with full_block_inv [OF E inv] data DD_FullBlock have "ce_inv hdr rank E keys view J f" by fastforce
    with all [OF this] f show ?thesis by (cases q) (simp_all add: ce_on_download_outcome_def DD_FullBlock)
  next
    case (DD_Witness h w)
    obtain q f where f: "ce_on_witness E h w e = (q, f)" by (cases "ce_on_witness E h w e")
    with witness_inv [OF E(1,2) inv, of h w] have "ce_inv hdr rank E keys view J f" by simp
    with all [OF this] f show ?thesis by (cases q) (simp_all add: ce_on_download_outcome_def DD_Witness)
  next
    case (DD_Bytecode h code)
    obtain q f where f: "ce_on_bytecode E h code e = (q, f)" by (cases "ce_on_bytecode E h code e")
    with bytecode_inv [OF E(1,2) inv, of h code] have "ce_inv hdr rank E keys view J f" by simp
    with all [OF this] f show ?thesis by (simp add: ce_on_download_outcome_def DD_Bytecode)
  qed
qed

text \<open>Messages.\<close>

lemma new_payload_engine:
  assumes E: "tree_deps_spec D keys view" "tree_of E = D" "authentic_payloads hdr rank D"
    and inv: "ce_inv hdr rank E keys view J e"
  shows "\<exists>e'. ce_on_new_payload E payload tx e = Some e' \<and> ce_inv hdr rank E keys view J e'"
proof -
  let ?h = "payload_block_hash E payload"
  obtain w s where w: "bb_remove_witness ?h (et_buffer (ce_tree e)) = (w, s)"
    by (cases "bb_remove_witness ?h (et_buffer (ce_tree e))")
  have t: "et_inv hdr rank D keys view J (ce_tree e)" using inv E(2) by (simp add: ce_inv_def)
  have "et_inv hdr rank D keys view J ((ce_tree e)\<lparr>et_buffer := s\<rparr>)"
    using inv_buffer [OF t buffer_ok_take_witness [OF et_invD(2) [OF t], of ?h]] w by simp
  from new_payload_total [OF E(1) this, of payload w] E(3) obtain r t' where
    r: "et_on_new_payload D payload w ((ce_tree e)\<lparr>et_buffer := s\<rparr>) = Some (r, t')"
    and t': "et_inv hdr rank D keys view J t'" unfolding authentic_payloads_def by blast
  have inv': "ce_inv hdr rank E keys view J (e\<lparr>ce_tree := t'\<rparr>)" using ce_inv_tree [OF inv] t' E(2) by simp
  show ?thesis
  proof (cases "\<exists>out ev. r = Inr out \<and> event out = Some ev")
    case False
    with w r E(2) inv' show ?thesis
      by (cases r) (auto simp: ce_on_new_payload_def with_tree_def Let_def split: option.split)
  next
    case True
    then obtain out ev where out: "r = Inr out" "event out = Some ev" by blast
    obtain f where f: "ce_on_tree_event E ev (e\<lparr>ce_tree := t'\<rparr>) = Some f" "ce_inv hdr rank E keys view J f"
      using tree_event_total [OF E(1,2) inv'] by blast
    obtain g where g: "ce_on_tree_event E (te_download_witness ?h) f = Some g" "ce_inv hdr rank E keys view J g"
      using tree_event_total [OF E(1,2) f(2)] by blast
    from w r out f g E(2) show ?thesis
      by (auto simp: ce_on_new_payload_def with_tree_def Let_def split: option.split)
  qed
qed

lemma forkchoice_engine:
  assumes E: "tree_deps_spec D keys view" "tree_of E = D"
    and inv: "ce_inv hdr rank E keys view J e"
  shows "\<exists>e'. ce_on_forkchoice_updated E state attrs tx version e = Some e' \<and> ce_inv hdr rank E keys view J e'"
proof -
  have t: "et_inv hdr rank D keys view J (ce_tree e)" using inv E(2) by (simp add: ce_inv_def)
  from forkchoice_total [OF E(1) t, of state attrs version] obtain r t' where
    r: "et_on_forkchoice_updated D state attrs version (ce_tree e) = Some (r, t')"
    and t': "et_inv hdr rank D keys view J t'" by blast
  have track: "et_inv hdr rank D keys view J (et_emit_event ev (t'\<lparr>et_tracker := f\<rparr>))" for ev f
    by (rule inv_emit, rule inv_cong [OF t']) (use et_invD [OF t'] in simp_all)
  obtain g where "(case r of Inl _ \<Rightarrow> Some (e\<lparr>ce_tree := t'\<rparr>)
        | Inr out \<Rightarrow> ce_on_maybe_tree_event E (event out)
            (e\<lparr>ce_tree := et_emit_event (ForkchoiceUpdatedEvent state (status_of_forkchoice E (outcome out)))
               (t'\<lparr>et_tracker := set_latest E state (status_of_forkchoice E (outcome out)) (et_tracker t')\<rparr>)\<rparr>)) = Some g"
      "ce_inv hdr rank E keys view J g"
    using maybe_tree_event_total [OF E ce_inv_tree [OF inv], unfolded E(2), OF track] ce_inv_tree [OF inv, unfolded E(2), OF t']
    by (cases r) (auto, metis)
  with r E(2) show ?thesis
    by (cases r) (auto simp: ce_on_forkchoice_updated_def with_tree_def Let_def)
qed

lemma next_message_total:
  assumes E: "tree_deps_spec D keys view" "tree_of E = D" "authentic_payloads hdr rank D"
    and inv: "ce_inv hdr rank E keys view J e"
  shows "\<exists>r e'. ce_next_message E e = Some (r, e') \<and> ce_inv hdr rank E keys view J e'"
proof (cases "ce_from_beacon_engine e")
  case Nil
  with inv show ?thesis by (simp add: ce_next_message_def)
next
  case (Cons m ms)
  have inv': "ce_inv hdr rank E keys view J (e\<lparr>ce_from_beacon_engine := ms\<rparr>)" using inv by simp
  have "\<exists>e'. ce_on_engine_message E m (e\<lparr>ce_from_beacon_engine := ms\<rparr>) = Some e' \<and> ce_inv hdr rank E keys view J e'"
    using new_payload_engine [OF E inv'] forkchoice_engine [OF E(1,2) inv'] inv by (cases m) auto
  with Cons show ?thesis by (auto simp: ce_next_message_def)
qed

lemma round_total:
  assumes E: "tree_deps_spec D keys view" "tree_of E = D" "authentic_payloads hdr rank D" "engine_deps_spec E"
    and inv: "ce_inv hdr rank E keys view J e"
    and gen: "\<And>x d. dl_poll (fetch_of E) arr (ce_downloader e) = Some (Some x, d)
      \<Longrightarrow> data_genuine hdr rank (codec_of D) anchors x"
  shows "\<exists>r e'. ce_round E arr expired e = Some (r, e') \<and> ce_inv hdr rank E keys view J e'"
proof -
  from inv have "dl_ok (fetch_of E) (ce_downloader e)" by (simp add: ce_inv_def)
  then obtain polled d where d: "dl_poll (fetch_of E) arr (ce_downloader e) = Some (polled, d)"
    "dl_ok (fetch_of E) d" "pred_option (data_ok (fetch_of E)) polled"
    using dl_poll_step [OF engine_deps_specD(1) [OF E(4)]] by metis
  have inv': "ce_inv hdr rank E keys view J (e\<lparr>ce_downloader := d\<rparr>)" using inv d(2) by (simp add: ce_inv_def)
  show ?thesis
  proof (cases polled)
    case (Some x)
    with download_outcome_total [OF E(1,2,4) inv', of x] d gen show ?thesis
      by (auto simp: ce_round_def Let_def)
  next
    case None
    have "ce_inv hdr rank E keys view J (ce_send tx q (e\<lparr>ce_downloader := d, ce_parked_payload := None\<rparr>))" for tx q
      using inv' by simp
    with None d(1) inv' next_message_total [OF E(1-3)] show ?thesis
      by (auto simp: ce_round_def Let_def split: option.split)
  qed
qed

end

interpretation engine_exec: engine_view hdr rank D "blocks_executed hdr D anchors" anchors
  for hdr rank and D :: "('d, 'u, 't, 's, 'l, 'c, 'f, 'x) tree_deps" and anchors
  by unfold_locales (auto simp: blocks_executed_def split: if_splits)

section \<open>The engine as a machine\<close>

text \<open>A step is one round of the loop, with any answers of the peers and the timer expired or not, or
  the arrival of a message. What a download brings is genuine.\<close>

inductive ce_step ::
  "header_of \<Rightarrow> hash_rank \<Rightarrow> ('d, 'u, 't, 's, 'l, 'c, 'f, 'x) engine_deps \<Rightarrow> b256 set
     \<Rightarrow> ('d, 'l, 'c, 'f) consensus_engine \<Rightarrow> ('d, 'l, 'c, 'f) consensus_engine \<Rightarrow> bool"
  for hdr rank E anchors where
  ce_step_round: "ce_round E arr expired e = Some (r, e') \<Longrightarrow>
     (\<And>x d. dl_poll (fetch_of E) arr (ce_downloader e) = Some (Some x, d) \<Longrightarrow>
        data_genuine hdr rank (codec_of (tree_of E)) anchors x) \<Longrightarrow>
     ce_step hdr rank E anchors e e'"
| ce_step_message:
    "ce_step hdr rank E anchors e (e\<lparr>ce_from_beacon_engine := ce_from_beacon_engine e @ [m]\<rparr>)"

definition launch_engine ::
  "('d, 'u, 't, 's, 'l, 'c, 'f, 'x) engine_deps \<Rightarrow> chain_spec \<Rightarrow> 'd \<Rightarrow> ('d, 'l, 'c, 'f) consensus_engine" where
  "launch_engine E spec d = ce_new E (snd (launch_provider (codec_of (tree_of E)) (db (tree_of E)) spec d))"

definition engine_world ::
  "header_of \<Rightarrow> hash_rank \<Rightarrow> ('d, 'u, 't, 's, 'l, 'c, 'f, 'x) engine_deps \<Rightarrow> ('l \<Rightarrow> b256 list)
     \<Rightarrow> ('c \<Rightarrow> b256 \<rightharpoonup> block_with_parent) \<Rightarrow> chain_spec \<Rightarrow> b256 set \<Rightarrow> bool" where
  "engine_world hdr rank E keys view spec anchors \<longleftrightarrow>
     tree_world hdr rank (tree_of E) keys view spec \<and> engine_deps_spec E \<and> genesis_hash spec \<in> anchors"

lemma engine_worldD:
  assumes "engine_world hdr rank E keys view spec anchors"
  shows "tree_deps_spec (tree_of E) keys view" "authentic_payloads hdr rank (tree_of E)" "engine_deps_spec E"
    and "genesis_ok hdr rank (codec_of (tree_of E)) spec" "genesis_hash spec \<in> anchors"
  using assms by (auto simp: engine_world_def tree_world_def)

lemma launch_engine_inv:
  assumes "engine_world hdr rank E keys view spec anchors"
  shows "ce_inv hdr rank E keys view (blocks_executed hdr (tree_of E) anchors) (launch_engine E spec d)"
proof -
  note w = engine_worldD [OF assms]
  have tree: "ce_tree (launch_engine E spec d) = launch_tree (tree_of E) spec d"
    by (simp add: launch_engine_def ce_new_def launch_tree_def)
  have "blocks_executed hdr (tree_of E) anchors (launch_tree (tree_of E) spec d)"
    using w(5) by (rule launch_executed)
  from launch_inv [where J = "blocks_executed hdr (tree_of E) anchors", OF w(1,4) this] show ?thesis
    by (simp add: ce_inv_def tree) (simp add: launch_engine_def ce_new_def dl_new_ok)
qed

interpretation engine_machine: invariant_system "\<lambda>e. e = launch_engine E spec d" "ce_step hdr rank E anchors"
    "\<lambda>e. engine_world hdr rank E keys view spec anchors \<longrightarrow>
       ce_inv hdr rank E keys view (blocks_executed hdr (tree_of E) anchors) e"
  for hdr rank E anchors keys view spec d
proof
  fix e e'
  assume inv: "engine_world hdr rank E keys view spec anchors \<longrightarrow>
       ce_inv hdr rank E keys view (blocks_executed hdr (tree_of E) anchors) e"
    and step: "ce_step hdr rank E anchors e e'"
  show "engine_world hdr rank E keys view spec anchors \<longrightarrow>
       ce_inv hdr rank E keys view (blocks_executed hdr (tree_of E) anchors) e'"
  proof
    assume w: "engine_world hdr rank E keys view spec anchors"
    note W = engine_worldD [OF w] and i = inv [rule_format, OF w]
    from step show "ce_inv hdr rank E keys view (blocks_executed hdr (tree_of E) anchors) e'"
    proof cases
      case (ce_step_round arr expired r)
      from engine_exec.round_total [where arr = arr and expired = expired, OF W(1) refl W(2,3) i ce_step_round(2)] ce_step_round(1)
      show ?thesis by auto
    next
      case (ce_step_message m)
      with i show ?thesis by simp
    qed
  qed
qed (simp add: launch_engine_inv)

text \<open>(C1) The whole engine, with its downloads: from the launch of the node on, in any interleaving of
  messages, answers of peers and timeouts, every stored block is a trusted one, the genesis or a
  finalized block the consensus layer named, or it was executed over the state of its parent with
  the state root its header claims. The buffer stays well-formed, the downloads stay authentic, and
  the next round of the loop returns: neither a panic nor an endless walk stops the engine.\<close>

theorem engine_reachable_safe:
  assumes "engine_world hdr rank E keys view spec anchors"
    and "reachable (\<lambda>e. e = launch_engine E spec d) (ce_step hdr rank E anchors) e"
  shows "(\<forall>h b. fmlookup (executed_blocks (et_provider (ce_tree e))) h = Some b \<longrightarrow>
       h \<in> anchors \<or> executed hdr (tree_of E) b)
    \<and> et_linked (ce_tree e) \<and> bb_wf (lru_of (tree_of E)) keys (et_buffer (ce_tree e))
    \<and> dl_ok (fetch_of E) (ce_downloader e)
    \<and> (\<forall>arr expired. (\<forall>x d. dl_poll (fetch_of E) arr (ce_downloader e) = Some (Some x, d) \<longrightarrow>
         data_genuine hdr rank (codec_of (tree_of E)) anchors x) \<longrightarrow>
       (\<exists>r e'. ce_round E arr expired e = Some (r, e')))"
proof -
  note W = engine_worldD [OF assms(1)]
  have inv: "ce_inv hdr rank E keys view (blocks_executed hdr (tree_of E) anchors) e"
    using engine_machine.reachable_inv [OF assms(2)] assms(1) by blast
  then have t: "et_inv hdr rank (tree_of E) keys view (blocks_executed hdr (tree_of E) anchors) (ce_tree e)"
    and d: "dl_ok (fetch_of E) (ce_downloader e)" by (simp_all add: ce_inv_def)
  have "\<exists>r e'. ce_round E arr expired e = Some (r, e')"
    if "\<forall>x d. dl_poll (fetch_of E) arr (ce_downloader e) = Some (Some x, d) \<longrightarrow>
         data_genuine hdr rank (codec_of (tree_of E)) anchors x" for arr expired
    using engine_exec.round_total [OF W(1) refl W(2,3) inv, of arr expired] that by blast
  then show ?thesis
    using et_invD(6) [OF t] stored_ok_linked [OF et_invD(1) [OF t]] buffer_okD(1) [OF et_invD(2) [OF t]] d
    unfolding blocks_executed_def by blast
qed

section \<open>Witnesses\<close>

definition sample_engine ::
  "((b256 \<times> bytecode) list, (b256 \<times> bytecode) list, leaf_map \<times> (b256, leaf_map) fmap, leaf_map,
    u32 \<times> b256 list, sample_cache, forkchoice_state option, unit) engine_deps" where
  "sample_engine = \<lparr>tree_of = world_deps, fetch_of = sample_fetch,
     try_recover = \<lambda>b. Some (sealed_block.extend b (recovered_block.fields [])),
     set_latest = \<lambda>state _ _. Some state, status_of_forkchoice = \<lambda>_. Fcs_Invalid,
     payload_block_hash = \<lambda>_. 3\<rparr>"

lemma sample_engine_world: "engine_world sample_hdr unat sample_engine snd map_of sample_spec {1}"
  using sample_world sample_fetch_spec
  by (simp add: engine_world_def engine_deps_spec_def sample_engine_def)
    (simp add: sample_fetch_def sealed_block.defs recovered_block.defs)

definition sample_call :: beacon_message where
  "sample_call = ForkchoiceUpdated \<lparr>head_block_hash = 0, safe_block_hash = 0, finalized_block_hash = 0\<rparr> None 7 3"

definition engine_called ::
  "((b256 \<times> bytecode) list, u32 \<times> b256 list, sample_cache, forkchoice_state option) consensus_engine" where
  "engine_called = (launch_engine sample_engine sample_spec [])\<lparr>ce_from_beacon_engine := [sample_call]\<rparr>"

lemma engine_called_reachable:
  "reachable (\<lambda>e. e = launch_engine sample_engine sample_spec []) (ce_step sample_hdr unat sample_engine {1}) engine_called"
proof -
  have "reachable (\<lambda>e. e = launch_engine sample_engine sample_spec [])
      (ce_step sample_hdr unat sample_engine {1}) (launch_engine sample_engine sample_spec [])"
    by (rule reachable.intros) (rule refl)
  moreover have "ce_step sample_hdr unat sample_engine {1} (launch_engine sample_engine sample_spec []) engine_called"
    using ce_step_message [of sample_hdr unat sample_engine "{1}" "launch_engine sample_engine sample_spec []" sample_call]
    by (simp add: engine_called_def) (simp add: launch_engine_def ce_new_def)
  ultimately show ?thesis by (rule reachable_step)
qed

lemma quiet_poll:
  "dl_poll D quiet dl_new = Some (None, dl_new\<lparr>dl_metrics := dl_metrics dl_new\<rparr>)"
  by (simp add: dl_poll_def dl_new_def dl_advance_finalized_def dl_advance_full_blocks_def
    dl_advance_witnesses_def dl_advance_bytecodes_def dl_pop_def set_inflight_def fun_eq_iff)

lemma engine_called_downloader [simp]: "ce_downloader engine_called = dl_new"
  by (simp add: engine_called_def launch_engine_def ce_new_def)

theorem engine_reachable_safe_witness:
  "et_linked (ce_tree engine_called) \<and> dl_ok sample_fetch (ce_downloader engine_called) \<and>
   (\<exists>r e'. ce_round sample_engine quiet False engine_called = Some (r, e'))"
  using engine_reachable_safe [OF sample_engine_world engine_called_reachable] quiet_poll [of sample_fetch]
  by (simp add: sample_engine_def)

lemma engine_called_poll:
  "\<exists>e'. ce_poll sample_engine [(quiet, False), (quiet, False)] engine_called = Some (Return_pending, e') \<and>
     ce_parked_payload e' = None"
proof -
  have fcu: "et_on_forkchoice_updated world_deps state None version t =
      Some (Inr (to_new Fcu_invalid_state), t)" if "head_block_hash state = 0" for state version and t :: sample_tree_type
    using that by (simp add: et_on_forkchoice_updated_def et_pre_validate_forkchoice_update_def)
  have new: "dl_new\<lparr>dl_metrics := dl_metrics dl_new\<rparr> = dl_new" by (simp add: dl_new_def)
  show ?thesis
    by (simp add: engine_called_def launch_engine_def ce_new_def ce_round_def ce_next_message_def Let_def
      sample_call_def ce_on_forkchoice_updated_def sample_engine_def fcu quiet_poll new
      ce_on_maybe_tree_event_def ce_send_def with_tree_def)
qed

theorem engine_answers_once_witness:
  "\<exists>e'. ce_poll sample_engine [(quiet, False), (quiet, False)] engine_called = Some (Return_pending, e') \<and>
     mset (map fst (ce_sent e')) = {#7#}"
proof -
  from engine_called_poll obtain e' where
    e': "ce_poll sample_engine [(quiet, False), (quiet, False)] engine_called = Some (Return_pending, e')"
      "ce_parked_payload e' = None" by blast
  have "ce_open engine_called = {#7#}" "ce_sent engine_called = []"
    by (simp_all add: engine_called_def ce_open_def parked_tx_def sample_call_def launch_engine_def ce_new_def)
  with engine_answers_once [OF e'(1)] e' show ?thesis by auto
qed

end
