(* ===== verification/Engine_Sync.thy ===== *)
theory Engine_Sync
  imports Engine_Correct
begin

text \<open>
  What the node can answer right after it synced to a finalized block. The finalized block and its
  ancestors are the only blocks that are stored without being executed; what they are for is the
  opcode \<open>BLOCKHASH\<close>: the blocks executed on top may ask for the hashes of the last 256 ancestors.
  The walk of \<open>ChainState::block_hash\<close> along an authenticated header chain finds each of them,
  whichever of the headers happen to be stored as executed blocks.
\<close>

section \<open>Walking along a header chain\<close>

lemma cs_block_hash_step:
  "cs_block_hash up cs anc n =
     (case fmlookup (blocks_by_hash cs) (bnh_hash anc) of
        None \<Rightarrow> Some (cs_canonical_fallback cs anc n)
      | Some block \<Rightarrow> if number block = n then Some (Some (hash block))
                     else cs_block_hash up cs (up (header.truncate block)) n)"
  unfolding cs_block_hash_def by (subst cs_walk_ancestors.simps) (simp split: option.split)

lemma header_chain_falls:
  "header_chain c want (y # ys) \<Longrightarrow> x \<in> set ys \<Longrightarrow> unat (number x) < unat (number y)"
proof (induction ys arbitrary: want y)
  case (Cons z zs)
  show ?case
  proof (cases "x = z")
    case False
    with Cons.prems(2) have "x \<in> set zs" by simp
    moreover have "header_chain c (parent_hash y) (z # zs)" using Cons.prems(1) by simp
    ultimately have "unat (number x) < unat (number z)" by (rule Cons.IH [rotated])
    with Cons.prems(1) show ?thesis by simp
  qed (use Cons.prems in simp)
qed simp

lemma header_chain_distinct: "header_chain c want hs \<Longrightarrow> distinct (map number hs)"
proof (induction hs arbitrary: want)
  case (Cons h hs)
  have "number h \<noteq> number x" if "x \<in> set hs" for x
    using header_chain_falls [OF Cons.prems that] by auto
  with Cons show ?case by auto
qed simp

text \<open>A chain is filed when each of its headers is canonical under its number; a stored block agrees
  with a chain when it is the block the header of the chain with its hash belongs to.\<close>

definition chain_filed :: "chain_state \<Rightarrow> sealed_header list \<Rightarrow> bool" where
  "chain_filed cs hs \<longleftrightarrow> (\<forall>y\<in>set hs.
     fmlookup (canonical_hashes_by_number cs) (number y) = Some (hash y) \<and>
     (\<forall>b. fmlookup (blocks_by_hash cs) (hash y) = Some b \<longrightarrow>
        hash b = hash y \<and> number b = number y \<and> parent_hash b = parent_hash y))"

lemma block_hash_along_chain:
  assumes up: "parent_num_hash_spec up"
  shows "header_chain c want hs \<Longrightarrow> chain_filed cs hs \<Longrightarrow> x \<in> set hs \<Longrightarrow>
    cs_block_hash up cs \<lparr>bnh_number = number (List.hd hs), bnh_hash = want\<rparr> (number x) = Some (Some (hash x))"
proof (induction hs arbitrary: want)
  case (Cons y ys)
  have le: "number x \<le> number y"
    using header_chain_falls [OF Cons.prems(1), of x] Cons.prems(3) by (auto simp: word_le_nat_alt)
  have y: "hash y = want" "fmlookup (canonical_hashes_by_number cs) (number y) = Some want"
    using Cons.prems(1,2) by (auto simp: chain_filed_def)
  show ?case
  proof (cases "fmlookup (blocks_by_hash cs) want")
    case None
    with le y Cons.prems(2,3) show ?thesis
      by (subst cs_block_hash_step) (auto simp: cs_canonical_fallback_def chain_filed_def)
  next
    case (Some b)
    with Cons.prems(2) y have b: "hash b = want" "number b = number y" "parent_hash b = parent_hash y"
      by (auto simp: chain_filed_def)
    show ?thesis
    proof (cases "number x = number y")
      case True
      then have "x = y" using header_chain_falls [OF Cons.prems(1), of x] Cons.prems(3) by auto
      with Some b y(1) show ?thesis by (subst cs_block_hash_step) simp
    next
      case False
      with Cons.prems(3) have x: "x \<in> set ys" by auto
      with Cons.prems(1) have rest: "header_chain c (parent_hash y) ys"
        and "unat (number y) = unat (number (List.hd ys)) + 1" by (auto split: if_splits)
      then have "number y \<noteq> 0" "number y - 1 = number (List.hd ys)"
        by (auto simp: unat_eq_zero unat_minus_one word_unat_eq_iff)
      with up b have "up (header.truncate b) = \<lparr>bnh_number = number (List.hd ys), bnh_hash = parent_hash y\<rparr>"
        by (intro block_num_hash.equality) (simp_all add: parent_num_hash_spec_def)
      with Cons.IH [OF rest _ x] Cons.prems(2) Some b(2) False show ?thesis
        by (subst cs_block_hash_step) (simp add: chain_filed_def)
    qed
  qed
qed simp

section \<open>The finalized download\<close>

lemma map_of_rev_numbers:
  "distinct (map number xs) \<Longrightarrow> x \<in> set xs \<Longrightarrow> map_of (rev (map (\<lambda>x. (number x, hash x)) xs)) (number x) = Some (hash x)"
  for xs :: "sealed_header list"
  by (rule map_of_is_SomeI) (auto simp: comp_def simp flip: rev_map)

text \<open>What \<open>on_download_outcome\<close> leaves behind, with the index read through the chain itself.\<close>

lemma finalized_block_state:
  fixes block :: sealed_block
  assumes b: "try_recover E block = Some b" "hash b = hash block" "number b = number block"
    and e': "e' = snd (ce_on_finalized_block E block ancestors e)"
  shows "et_canonical_head (ce_tree e') = num_hash block"
    and "fmlookup (executed_blocks (et_provider (ce_tree e'))) (hash block) = Some b"
    and "distinct (map number (sealed_header.truncate block # ancestors)) \<Longrightarrow>
      x \<in> set (sealed_header.truncate block # ancestors) \<Longrightarrow>
      canonical (et_provider (ce_tree e')) (number x) = Some (hash x)"
proof -
  let ?p = "rp_insert_block b None (rp_insert_canonical_hash (number b) (hash b) (et_provider (ce_tree e)))"
  have provider: "rp_chain_state (et_provider (ce_tree e')) =
      fold (\<lambda>h. cs_insert_canonical_hash (number h) (hash h)) ancestors (rp_chain_state ?p)"
    using b(1) e' by (simp add: ce_on_finalized_block_def with_tree_def Let_def rp_insert_canonicals)
  show "et_canonical_head (ce_tree e') = num_hash block"
    using b e' by (simp add: ce_on_finalized_block_def with_tree_def et_set_canonical_head_def Let_def)
  show "fmlookup (executed_blocks (et_provider (ce_tree e'))) (hash block) = Some b"
    using b(2) by (simp add: provider fold_canonical_blocks rp_insert_block_def view_simps)
  assume d: "distinct (map number (sealed_header.truncate block # ancestors))"
    and x: "x \<in> set (sealed_header.truncate block # ancestors)"
  have "canonical ?p (number block) = Some (hash block)"
    using b(2,3) by (simp add: rp_insert_block_def rp_insert_canonical_hash_def view_simps)
  moreover have "number block \<notin> number ` set ancestors" using d by simp
  ultimately show "canonical (et_provider (ce_tree e')) (number x) = Some (hash x)"
    using d x map_of_rev_numbers [of ancestors x]
    by (auto simp: provider fold_insert_canonical image_iff split: option.split dest: map_of_SomeD)
qed

lemma truncate_truncate [simp]: "header.truncate (sealed_header.truncate b) = header.truncate b"
  by (simp add: header.defs sealed_header.defs)

text \<open>The block with its ancestors is a header chain, of headers the world knows.\<close>

lemma finalized_chain:
  assumes "hash_slow c (header.truncate block) = hash block" "header_chain c (parent_hash block) ancestors"
    and "data_genuine hdr rank c anchors (DD_FinalizedBlock block ancestors)"
    and "\<forall>x\<in>set ancestors. genuine hdr rank c (header.truncate x)"
  shows "header_chain c (hash block) (sealed_header.truncate block # ancestors)"
proof (cases ancestors)
  case (Cons y ys)
  with assms(2,4) have "hdr (parent_hash block) = header.truncate y" "parent_hash block \<noteq> 0"
    by (auto simp: genuine_def)
  then have "unat (number block) = unat (number y) + 1"
    using assms(3) by (auto simp: validated_def dest: next_number_unat)
  with Cons assms(1,2) show ?thesis by simp
qed (use assms(1) in simp)

lemma finalized_genuine:
  assumes "header_chain c (hash block) (sealed_header.truncate block # ancestors)"
    and "data_genuine hdr rank c anchors (DD_FinalizedBlock block ancestors)"
    and "\<forall>x\<in>set ancestors. genuine hdr rank c (header.truncate x)"
    and "y \<in> set (sealed_header.truncate block # ancestors)"
  shows "header.truncate y = hdr (hash y)"
proof -
  have sealed: "header_chain c want hs \<Longrightarrow> y \<in> set hs \<Longrightarrow> hash_slow c (header.truncate y) = hash y" for want hs
    by (induction hs arbitrary: want) auto
  have "genuine hdr rank c (header.truncate y)"
    using assms(2-4) by auto
  with sealed [OF assms(1,4)] show ?thesis by (simp add: genuine_def)
qed

text \<open>(C13) The sync to a finalized block in any state of the node: afterwards the block is stored and is
  the canonical head, and the block executed on top of it can read the hash of the finalized block
  and of every downloaded ancestor, at least 256 by \<open>downloader_answers\<close>, through the opcode
  \<open>BLOCKHASH\<close>; the lookup returns, and the hash is the one that authenticates the ancestor, whatever
  else is stored.\<close>

theorem finalized_sync_block_hashes:
  assumes w: "engine_world hdr rank E keys view spec anchors"
    and reach: "reachable (\<lambda>e. e = launch_engine E spec d) (ce_step hdr rank E anchors) e"
    and checked: "block_checked (fetch_of E) (hash block) block"
      "header_chain (codec_of (tree_of E)) (parent_hash block) ancestors"
    and genuine: "data_genuine hdr rank (codec_of (tree_of E)) anchors (DD_FinalizedBlock block ancestors)"
      "\<forall>x\<in>set ancestors. genuine hdr rank (codec_of (tree_of E)) (header.truncate x)"
    and synced: "ce_on_finalized_block E block ancestors e = (Inr unlocked, e')"
  shows "et_canonical_head (ce_tree e') = num_hash block
    \<and> fmlookup (executed_blocks (et_provider (ce_tree e'))) (hash block) \<noteq> None
    \<and> (\<forall>x\<in>set (sealed_header.truncate block # ancestors).
        wd_block_hash (pnh (tree_of E)) (wd_new (et_provider (ce_tree e')) (num_hash block) trie) (number x) =
          Some (Inr (hash x)))"
proof -
  let ?c = "codec_of (tree_of E)" and ?hs = "sealed_header.truncate block # ancestors"
    and ?p = "et_provider (ce_tree e')"
  note W = engine_worldD [OF w] and E = engine_deps_specD [OF engine_worldD(3) [OF w]]
  have inv: "ce_inv hdr rank E keys view (blocks_executed hdr (tree_of E) anchors) e"
    using engine_machine.reachable_inv [OF reach] w by blast
  obtain b where b: "try_recover E block = Some b"
    using synced by (cases "try_recover E block") (simp_all add: ce_on_finalized_block_def)
  note parts = recovered_parts [OF E(3) [OF b]]
  have e': "e' = snd (ce_on_finalized_block E block ancestors e)" by (simp add: synced)
  note state = finalized_block_state [OF b parts(1,3) e']
  have stored: "stored_ok hdr rank ?p"
    using et_invD(1) [OF conjunct1 [OF iffD1 [OF ce_inv_def
        engine_exec.finalized_block_inv [OF W(1) refl W(3) inv checked(1) genuine(1)]]]] e' by simp
  have chain: "header_chain ?c (hash block) ?hs"
    using finalized_chain [OF _ checked(2) genuine] checked(1) E(2) by (simp add: block_checked_def)
  have "chain_filed (rp_chain_state ?p) ?hs"
    unfolding chain_filed_def
  proof (intro ballI conjI allI impI)
    fix y b' assume y: "y \<in> set ?hs"
    show "canonical ?p (number y) = Some (hash y)" by (rule state(3) [OF header_chain_distinct [OF chain] y])
    assume b': "fmlookup (executed_blocks ?p) (hash y) = Some b'"
    have "header.truncate y = hdr (hash y)" using finalized_genuine [OF chain genuine y] .
    moreover have "hash b' = hash y" by (rule keyed_by_hashD [OF cs_wfD(1) [OF stored_okD(1) [OF stored]] b'])
    moreover have "header.truncate b' = hdr (hash b')" using stored_okD(2) [OF stored b'] by (simp add: authentic_def)
    ultimately show "hash b' = hash y" "number b' = number y" "parent_hash b' = parent_hash y"
      by (metis truncate_sel)+
  qed
  from block_hash_along_chain [OF tree_deps_specD(3) [OF W(1)] chain this] state(1,2) show ?thesis
    by (simp add: wd_block_hash_def wd_new_def rp_block_hash_def num_hash_def)
qed

lemma sample_engine_world_3: "engine_world sample_hdr unat sample_engine snd map_of sample_spec {1, 3}"
  using sample_engine_world by (simp add: engine_world_def)

theorem finalized_sync_block_hashes_witness:
  "\<exists>e'. ce_on_finalized_block sample_engine (sealed_block.truncate (sample_block 3 1 1))
       [sealed_header.truncate (sample_block 1 0 0)] (launch_engine sample_engine sample_spec []) = (Inr {|3|}, e') \<and>
     wd_block_hash plain_parent_num_hash (wd_new (et_provider (ce_tree e')) \<lparr>bnh_number = 1, bnh_hash = 3\<rparr> ()) 0 =
       Some (Inr 1)"
proof -
  let ?e = "launch_engine sample_engine sample_spec []" and ?b = "sealed_block.truncate (sample_block 3 1 1)"
    and ?as = "[sealed_header.truncate (sample_block 1 0 0)]"
  have deps: "tree_of sample_engine = world_deps" "fetch_of sample_engine = sample_fetch"
    by (simp_all add: sample_engine_def)
  have reach: "reachable (\<lambda>e. e = ?e) (ce_step sample_hdr unat sample_engine {1, 3}) ?e"
    by (rule reachable.intros) (rule refl)
  obtain e' where e': "ce_on_finalized_block sample_engine ?b ?as ?e = (Inr {|3|}, e')"
    by (simp add: ce_on_finalized_block_def sample_engine_def Let_def sample_block_def sealed_block.defs)
  have "block_checked sample_fetch (hash ?b) ?b"
    by (simp add: block_checked_def sample_fetch_def sample_block_def plain_codec_def sealed_block.defs
      sealed_header.defs header.defs)
  moreover have "header_chain plain_codec (parent_hash ?b) ?as"
    by (simp add: sample_block_def plain_codec_def sealed_block.defs sealed_header.defs header.defs)
  moreover have "data_genuine sample_hdr unat plain_codec {1, 3} (DD_FinalizedBlock ?b ?as)"
      "\<forall>x\<in>set ?as. genuine sample_hdr unat plain_codec (header.truncate x)"
    by (simp_all add: genuine_def validated_def sample_hdr_def sample_block_def plain_codec_def next_number_def
      sealed_block.defs sealed_header.defs header.defs)
  ultimately have "\<forall>x\<in>set (sealed_header.truncate ?b # ?as).
      wd_block_hash plain_parent_num_hash (wd_new (et_provider (ce_tree e')) (num_hash ?b) ()) (number x) = Some (Inr (hash x))"
    using finalized_sync_block_hashes [OF sample_engine_world_3 reach _ _ _ _ e', of "()"] by (simp add: deps)
  with e' show ?thesis by (auto simp: num_hash_def sample_block_def sealed_block.defs sealed_header.defs)
qed

end
