(* ===== verification/Engine_Refines.thy ===== *)
theory Engine_Refines
  imports Engine_Sync
begin

text \<open>
  The engine refines the tree machine: what a round of the consensus engine does to its tree is a
  sequence of steps of \<open>et_step\<close>, the sync to a finalized block included. What holds of every tree that
  machine reaches holds of the tree inside every engine that runs.
\<close>

section \<open>The engine with named finalized blocks\<close>

text \<open>What a download brings: headers that do not collide, and for a finalized block one that \<open>trust\<close>
  lets the consensus layer name in this state.\<close>

fun data_trusted ::
  "header_of \<Rightarrow> hash_rank \<Rightarrow> codec \<Rightarrow> (('d, 'l, 'c, 'f) engine_tree \<Rightarrow> b256 \<Rightarrow> bool)
     \<Rightarrow> ('d, 'l, 'c, 'f) engine_tree \<Rightarrow> download_data \<Rightarrow> bool" where
  "data_trusted hdr rank c trust t (DD_FullBlock block) = genuine hdr rank c (header.truncate block)"
| "data_trusted hdr rank c trust t (DD_FinalizedBlock block ancestors) \<longleftrightarrow>
     genuine hdr rank c (header.truncate block) \<and> validated hdr block \<and>
     (\<forall>x\<in>set ancestors. genuine hdr rank c (header.truncate x)) \<and> trust t (hash block)"
| "data_trusted hdr rank c trust t (DD_Bytecode h code) = True"
| "data_trusted hdr rank c trust t (DD_Witness h w) = True"

inductive ce_trusted_step ::
  "header_of \<Rightarrow> hash_rank \<Rightarrow> ('d, 'u, 't, 's, 'l, 'c, 'f, 'x) engine_deps
     \<Rightarrow> (('d, 'l, 'c, 'f) engine_tree \<Rightarrow> b256 \<Rightarrow> bool)
     \<Rightarrow> ('d, 'l, 'c, 'f) consensus_engine \<Rightarrow> ('d, 'l, 'c, 'f) consensus_engine \<Rightarrow> bool"
  for hdr rank E trust where
  ce_trusted_round: "ce_round E arr expired e = Some (r, e') \<Longrightarrow>
     (\<And>x d. dl_poll (fetch_of E) arr (ce_downloader e) = Some (Some x, d) \<Longrightarrow>
        data_trusted hdr rank (codec_of (tree_of E)) trust (ce_tree e) x) \<Longrightarrow>
     ce_trusted_step hdr rank E trust e e'"
| ce_trusted_message:
    "ce_trusted_step hdr rank E trust e (e\<lparr>ce_from_beacon_engine := ce_from_beacon_engine e @ [m]\<rparr>)"

lemma data_trusted_genuine: "data_trusted hdr rank c trust t x \<Longrightarrow> data_genuine hdr rank c UNIV x"
  by (cases x) simp_all

section \<open>Sequences of tree steps\<close>

abbreviation et_steps ::
  "header_of \<Rightarrow> hash_rank \<Rightarrow> ('d, 'u, 't, 's, 'l, 'c, 'f, 'x) tree_deps
     \<Rightarrow> (('d, 'l, 'c, 'f) engine_tree \<Rightarrow> b256 \<Rightarrow> bool)
     \<Rightarrow> ('d, 'l, 'c, 'f) engine_tree \<Rightarrow> ('d, 'l, 'c, 'f) engine_tree \<Rightarrow> bool" where
  "et_steps hdr rank D trust \<equiv> (et_step hdr rank D trust)\<^sup>*\<^sup>*"

lemmas one_step = r_into_rtranclp [where r = "et_step hdr rank D trust" for hdr rank D trust]

lemma steps_inv:
  assumes "et_steps hdr rank D trust t t'" "tree_deps_spec D keys view" "authentic_payloads hdr rank D"
    and "et_inv hdr rank D keys view (canonical_filed hdr) t"
  shows "et_inv hdr rank D keys view (canonical_filed hdr) t'"
  using assms(1,4) by (induction rule: rtranclp_induct) (auto intro: filed_sync.step_inv [OF assms(2,3)])

lemma steps_reachable:
  "et_steps hdr rank D trust t t' \<Longrightarrow> reachable init (et_step hdr rank D trust) t
   \<Longrightarrow> reachable init (et_step hdr rank D trust) t'"
  by (induction rule: rtranclp_induct) (auto intro: reachable_step)

section \<open>The parts of a round\<close>

lemma engine_tree_frame [simp]:
  "ce_tree (with_downloader f e) = ce_tree e" "ce_tree (ce_send tx r e) = ce_tree e"
  "ce_tree (ce_record_witness_metrics w e) = ce_tree e" "ce_tree (ce_answer_parked h q e) = ce_tree e"
  by (simp_all add: with_downloader_def ce_send_def ce_record_witness_metrics_def ce_answer_parked_def
      split: option.split)

lemma engine_tree_downloads [simp]:
  "ce_tree (fold (\<lambda>h. with_downloader (download_bytecode h)) hs e) = ce_tree e"
  by (induction hs arbitrary: e) simp_all

lemma tree_event_steps:
  assumes "ce_on_tree_event E ev e = Some e'"
  shows "et_steps hdr rank (tree_of E) trust (ce_tree e) (ce_tree e')"
proof (cases ev)
  case (TreeAction a)
  with assms obtain h t where "et_make_canonical (tree_of E) h (ce_tree e) = Some t" "ce_tree e' = t"
    by (cases a) (auto simp: bind_eq_Some_conv)
  then show ?thesis by (auto intro: one_step [OF et_step_canonical])
next
  case (Download r)
  with assms show ?thesis by (cases r) (auto simp: Let_def)
qed

lemma maybe_tree_event_steps:
  assumes "ce_on_maybe_tree_event E ev e = Some e'"
  shows "et_steps hdr rank (tree_of E) trust (ce_tree e) (ce_tree e')"
  using assms tree_event_steps by (auto simp: ce_on_maybe_tree_event_def split: option.splits)

lemma insert_unlocked_steps:
  assumes D: "tree_deps_spec (tree_of E) keys view"
    and inv: "et_inv hdr rank (tree_of E) keys view (canonical_filed hdr) (ce_tree e)"
    and ins: "ce_insert_unlocked E h e = Some e'"
  shows "et_steps hdr rank (tree_of E) trust (ce_tree e) (ce_tree e')"
proof -
  let ?r = "bb_remove_block (lru_of (tree_of E)) h (et_buffer (ce_tree e))"
  let ?t = "(ce_tree e)\<lparr>et_buffer := snd ?r\<rparr>"
  have take: "et_steps hdr rank (tree_of E) trust (ce_tree e) ?t" by (intro one_step et_step_take_block)
  show ?thesis
  proof (cases "fst ?r")
    case None
    with ins have "ce_tree e' = ?t" by (auto simp: ce_insert_unlocked_def with_tree_def Let_def case_prod_beta)
    with take show ?thesis by simp
  next
    case (Some bw)
    obtain b w where bw: "bw = (b, w)" by (cases bw)
    have "authentic hdr rank b"
      using buffer_ok_take_block(2) [OF tree_deps_specD(2) [OF D] et_invD(2) [OF inv]] Some bw by blast
    moreover obtain r t2 where r: "et_on_downloaded_block (tree_of E) b w ?t = Some (r, t2)"
      using ins Some bw
      by (auto simp: ce_insert_unlocked_def with_tree_def Let_def case_prod_beta bind_eq_Some_conv)
    ultimately have "et_steps hdr rank (tree_of E) trust ?t t2" by (intro one_step et_step_downloaded)
    moreover have "et_steps hdr rank (tree_of E) trust (ce_tree (e\<lparr>ce_tree := t2\<rparr>)) (ce_tree e')"
    proof (cases r)
      case (Inr out)
      with ins Some bw r obtain f where "ce_on_maybe_tree_event E (event out) (e\<lparr>ce_tree := t2\<rparr>) = Some f"
        "ce_tree e' = ce_tree f"
        by (auto simp: ce_insert_unlocked_def with_tree_def Let_def case_prod_beta bind_eq_Some_conv)
      with maybe_tree_event_steps show ?thesis by metis
    qed (use ins Some bw r in \<open>auto simp: ce_insert_unlocked_def with_tree_def Let_def case_prod_beta\<close>)
    ultimately show ?thesis using take by auto
  qed
qed

lemma insert_each_steps:
  assumes "tree_deps_spec (tree_of E) keys view" "authentic_payloads hdr rank (tree_of E)"
    and "et_inv hdr rank (tree_of E) keys view (canonical_filed hdr) (ce_tree e)" "ce_insert_each E hs e = Some e'"
  shows "et_steps hdr rank (tree_of E) trust (ce_tree e) (ce_tree e')"
  using assms(3,4)
proof (induction hs arbitrary: e)
  case (Cons h hs)
  then obtain f where f: "ce_insert_unlocked E h e = Some f" "ce_insert_each E hs f = Some e'"
    by (auto simp: bind_eq_Some_conv)
  have "et_steps hdr rank (tree_of E) trust (ce_tree e) (ce_tree f)"
    using assms(1) Cons.prems(1) f(1) by (rule insert_unlocked_steps)
  moreover from steps_inv [OF this assms(1,2) Cons.prems(1)] f(2)
  have "et_steps hdr rank (tree_of E) trust (ce_tree f) (ce_tree e')" by (rule Cons.IH)
  ultimately show ?case by auto
qed simp

text \<open>The sync of the engine is the one of the tree machine.\<close>

lemma header_chain_ancestors:
  assumes "header_chain c (parent_hash (hdr h)) xs" "\<forall>x\<in>set xs. header.truncate x = hdr (hash x)"
    and "xs \<noteq> [] \<Longrightarrow> unat (number (hdr h)) = unat (number (List.hd xs)) + 1"
  shows "header_ancestors hdr h xs"
  using assms
proof (induction xs arbitrary: h)
  case (Cons x xs)
  have x: "hash x = parent_hash (hdr h)" "header.truncate x = hdr (hash x)" using Cons.prems by simp_all
  have num: "number (hdr (hash x)) = number x" "parent_hash (hdr (hash x)) = parent_hash x"
    using x(2) by (metis truncate_sel)+
  have up: "unat (number (hdr h)) = unat (number x) + 1" using Cons.prems(3) by simp
  have "header_ancestors hdr (hash x) xs"
    using Cons.prems num by (intro Cons.IH) (auto split: if_splits)
  with x num up show ?case
    by (auto simp: header_ancestors_def hash_back_Suc nth_Cons split: nat.split)
qed (simp add: header_ancestors_def)

lemma finalized_block_steps:
  assumes E: "engine_deps_spec E" and data: "data_ok (fetch_of E) (DD_FinalizedBlock block ancestors)"
      "data_trusted hdr rank (codec_of (tree_of E)) trust (ce_tree e) (DD_FinalizedBlock block ancestors)"
  shows "et_steps hdr rank (tree_of E) trust (ce_tree e) (ce_tree (snd (ce_on_finalized_block E block ancestors e)))"
proof (cases "try_recover E block")
  case None
  then show ?thesis by (simp add: ce_on_finalized_block_def)
next
  case (Some b)
  let ?c = "codec_of (tree_of E)"
  note r = engine_deps_specD(3) [OF E Some] note b = recovered_parts [OF r]
  have gen: "data_genuine hdr rank ?c UNIV (DD_FinalizedBlock block ancestors)"
      "\<forall>x\<in>set ancestors. genuine hdr rank ?c (header.truncate x)" using data(2) by simp_all
  have auth: "authentic hdr rank b"
    using checked_authentic [OF _ _ _ r] data engine_deps_specD(2) [OF E] by auto
  have chain: "header_chain ?c (hash block) (sealed_header.truncate block # ancestors)"
    using finalized_chain [OF _ _ gen] data(1) engine_deps_specD(2) [OF E] by (auto simp: block_checked_def)
  have "header_ancestors hdr (hash b) ancestors"
    using chain finalized_genuine [OF chain gen] authenticD(1,2) [OF auth] b
    by (intro header_chain_ancestors) (auto split: if_splits)
  moreover have "validated hdr b" "trust (ce_tree e) (hash b)" using data(2) b by (simp_all add: validated_def)
  ultimately have "et_steps hdr rank (tree_of E) trust (ce_tree e) (et_sync_finalized b ancestors (ce_tree e))"
    using auth by (intro one_step et_step_sync)
  moreover have "ce_tree (snd (ce_on_finalized_block E block ancestors e)) = et_sync_finalized b ancestors (ce_tree e)"
    using Some b by (simp add: ce_on_finalized_block_def et_sync_finalized_def with_tree_def
      et_set_canonical_head_def num_hash_def Let_def)
  ultimately show ?thesis by simp
qed

lemma full_block_steps:
  assumes E: "engine_deps_spec E" and data: "data_ok (fetch_of E) (DD_FullBlock block)"
      "data_trusted hdr rank (codec_of (tree_of E)) trust (ce_tree e) (DD_FullBlock block)"
  shows "et_steps hdr rank (tree_of E) trust (ce_tree e) (ce_tree (snd (ce_on_full_block E block e)))"
proof (cases "try_recover E block")
  case (Some b)
  have "authentic hdr rank b"
    using checked_authentic [OF _ _ _ engine_deps_specD(3) [OF E Some]] data engine_deps_specD(2) [OF E] by auto
  with Some show ?thesis
    by (auto simp: ce_on_full_block_def with_tree_def intro: one_step [OF et_step_buffer_block])
qed (simp add: ce_on_full_block_def)

lemma witness_steps: "et_steps hdr rank (tree_of E) trust (ce_tree e) (ce_tree (snd (ce_on_witness E h w e)))"
  by (auto simp: ce_on_witness_def Let_def with_tree_def intro: one_step [OF et_step_buffer_witness]
      split: sum.split prod.split)

lemma bytecode_steps: "et_steps hdr rank (tree_of E) trust (ce_tree e) (ce_tree (snd (ce_on_bytecode E h code e)))"
proof -
  let ?p = "snd (rp_insert_bytecode (db (tree_of E)) h code (et_provider (ce_tree e)))"
  have store: "et_steps hdr rank (tree_of E) trust (ce_tree e) ((ce_tree e)\<lparr>et_provider := ?p\<rparr>)"
    by (intro one_step et_step_database)
  moreover have "et_steps hdr rank (tree_of E) trust ((ce_tree e)\<lparr>et_provider := ?p\<rparr>)
      ((ce_tree e)\<lparr>et_provider := ?p, et_buffer := snd (bb_on_bytecode_received h (et_buffer (ce_tree e)))\<rparr>)"
    using one_step [OF et_step_bytecode [where t = "(ce_tree e)\<lparr>et_provider := ?p\<rparr>"]] by simp
  ultimately show ?thesis
    by (auto simp: ce_on_bytecode_def with_tree_def Let_def case_prod_beta split: sum.split)
qed

lemma download_outcome_steps:
  assumes E: "tree_deps_spec (tree_of E) keys view" "authentic_payloads hdr rank (tree_of E)" "engine_deps_spec E"
    and inv: "et_inv hdr rank (tree_of E) keys view (canonical_filed hdr) (ce_tree e)"
    and data: "data_ok (fetch_of E) data"
      "data_trusted hdr rank (codec_of (tree_of E)) trust (ce_tree e) data"
    and run: "ce_on_download_outcome E data e = Some (r, e')"
  shows "et_steps hdr rank (tree_of E) trust (ce_tree e) (ce_tree e')"
proof -
  obtain f where f: "et_steps hdr rank (tree_of E) trust (ce_tree e) (ce_tree f)"
    and rest: "e' = f \<or> (\<exists>hs. ce_insert_each E hs f = Some e')"
  proof (cases data)
    case (DD_FinalizedBlock block ancestors)
    with run that [OF finalized_block_steps [OF E(3), of block ancestors hdr rank trust e]] data show thesis
      by (cases "ce_on_finalized_block E block ancestors e")
        (auto simp: ce_on_download_outcome_def bind_eq_Some_conv split: sum.splits)
  next
    case (DD_FullBlock block)
    with run that [OF full_block_steps [OF E(3), of block hdr rank trust e]] data show thesis
      by (cases "ce_on_full_block E block e")
        (auto simp: ce_on_download_outcome_def bind_eq_Some_conv split: option.splits)
  next
    case (DD_Witness h w)
    with run that [OF witness_steps [of hdr rank E trust e h w]] show thesis
      by (cases "ce_on_witness E h w e")
        (auto simp: ce_on_download_outcome_def bind_eq_Some_conv split: sum.splits)
  next
    case (DD_Bytecode h code)
    with run that [OF bytecode_steps [of hdr rank E trust e h code]] show thesis
      by (cases "ce_on_bytecode E h code e") (auto simp: ce_on_download_outcome_def bind_eq_Some_conv)
  qed
  with insert_each_steps [OF E(1,2) steps_inv [OF f E(1,2) inv]] show ?thesis
    by (metis rtranclp_trans)
qed

section \<open>Messages\<close>

lemma new_payload_steps:
  assumes "ce_on_new_payload E payload tx e = Some e'"
  shows "et_steps hdr rank (tree_of E) trust (ce_tree e) (ce_tree e')"
proof -
  let ?r = "bb_remove_witness (payload_block_hash E payload) (et_buffer (ce_tree e))"
  let ?t = "(ce_tree e)\<lparr>et_buffer := snd ?r\<rparr>"
  obtain r t where r: "et_on_new_payload (tree_of E) payload (fst ?r) ?t = Some (r, t)"
    using assms by (auto simp: ce_on_new_payload_def with_tree_def Let_def case_prod_beta bind_eq_Some_conv)
  have "et_steps hdr rank (tree_of E) trust (ce_tree e) ?t" by (intro one_step et_step_take_witness)
  moreover have "et_steps hdr rank (tree_of E) trust ?t t" using r by (intro one_step et_step_payload)
  moreover have "et_steps hdr rank (tree_of E) trust (ce_tree (e\<lparr>ce_tree := t\<rparr>)) (ce_tree e')"
  proof (cases "\<exists>out ev. r = Inr out \<and> event out = Some ev")
    case True
    then obtain out ev where out: "r = Inr out" "event out = Some ev" by blast
    note run = assms [unfolded ce_on_new_payload_def with_tree_def Let_def case_prod_beta]
    from run r out obtain f where f: "ce_on_tree_event E ev (e\<lparr>ce_tree := t\<rparr>) = Some f"
      by (auto simp: bind_eq_Some_conv)
    with run r out have e': "ce_tree e' = ce_tree f \<or>
        (\<exists>g. ce_on_tree_event E (te_download_witness (payload_block_hash E payload)) f = Some g \<and> ce_tree e' = ce_tree g)"
      by (auto split: option.splits if_splits)
    note first = tree_event_steps [OF f, of hdr rank trust]
    from e' show ?thesis
    proof (elim disjE exE conjE)
      fix g assume "ce_on_tree_event E (te_download_witness (payload_block_hash E payload)) f = Some g" "ce_tree e' = ce_tree g"
      with first tree_event_steps [OF this(1), of hdr rank trust] show ?thesis by auto
    qed (use first in simp)
  next
    case False
    with assms r have "ce_tree e' = t"
      by (cases r) (auto simp: ce_on_new_payload_def with_tree_def Let_def case_prod_beta split: option.splits)
    then show ?thesis by simp
  qed
  ultimately show ?thesis by auto
qed

lemma forkchoice_steps:
  assumes "ce_on_forkchoice_updated E state attrs tx version e = Some e'"
  shows "et_steps hdr rank (tree_of E) trust (ce_tree e) (ce_tree e')"
proof -
  obtain r t where r: "et_on_forkchoice_updated (tree_of E) state attrs version (ce_tree e) = Some (r, t)"
    using assms by (auto simp: ce_on_forkchoice_updated_def bind_eq_Some_conv)
  then have t: "et_steps hdr rank (tree_of E) trust (ce_tree e) t" by (intro one_step et_step_forkchoice)
  show ?thesis
  proof (cases r)
    case (Inl error)
    with assms r t show ?thesis by (auto simp: ce_on_forkchoice_updated_def)
  next
    case (Inr out)
    let ?status = "status_of_forkchoice E (outcome out)"
    let ?t1 = "t\<lparr>et_tracker := set_latest E state ?status (et_tracker t)\<rparr>"
    let ?t2 = "et_emit_event (ForkchoiceUpdatedEvent state ?status) ?t1"
    have "et_steps hdr rank (tree_of E) trust t ?t1" by (intro one_step et_step_track)
    moreover have "et_steps hdr rank (tree_of E) trust ?t1 ?t2" by (intro one_step et_step_event)
    moreover obtain f where "ce_on_maybe_tree_event E (event out) (e\<lparr>ce_tree := ?t2\<rparr>) = Some f" "ce_tree e' = ce_tree f"
      using assms r Inr by (auto simp: ce_on_forkchoice_updated_def with_tree_def Let_def bind_eq_Some_conv)
    with maybe_tree_event_steps have "et_steps hdr rank (tree_of E) trust ?t2 (ce_tree e')" by fastforce
    ultimately show ?thesis using t by auto
  qed
qed

lemma next_message_steps:
  assumes "ce_next_message E e = Some (r, e')"
  shows "et_steps hdr rank (tree_of E) trust (ce_tree e) (ce_tree e')"
proof (cases "ce_from_beacon_engine e")
  case (Cons m ms)
  with assms have "ce_on_engine_message E m (e\<lparr>ce_from_beacon_engine := ms\<rparr>) = Some e'"
    by (auto simp: ce_next_message_def bind_eq_Some_conv)
  then show ?thesis
    using new_payload_steps [of E _ _ "e\<lparr>ce_from_beacon_engine := ms\<rparr>"]
      forkchoice_steps [of E _ _ _ _ "e\<lparr>ce_from_beacon_engine := ms\<rparr>"] by (cases m) auto
qed (use assms in \<open>simp add: ce_next_message_def\<close>)

section \<open>The refinement\<close>

lemma trusted_round_steps:
  assumes E: "tree_deps_spec (tree_of E) keys view" "authentic_payloads hdr rank (tree_of E)" "engine_deps_spec E"
    and inv: "ce_inv hdr rank E keys view (canonical_filed hdr) e"
    and run: "ce_round E arr expired e = Some (r, e')"
    and gen: "\<And>x d. dl_poll (fetch_of E) arr (ce_downloader e) = Some (Some x, d) \<Longrightarrow>
        data_trusted hdr rank (codec_of (tree_of E)) trust (ce_tree e) x"
  shows "et_steps hdr rank (tree_of E) trust (ce_tree e) (ce_tree e')"
proof -
  have t: "et_inv hdr rank (tree_of E) keys view (canonical_filed hdr) (ce_tree e)"
    and "dl_ok (fetch_of E) (ce_downloader e)" using inv by (simp_all add: ce_inv_def)
  then obtain polled d where d: "dl_poll (fetch_of E) arr (ce_downloader e) = Some (polled, d)"
    "pred_option (data_ok (fetch_of E)) polled"
    using dl_poll_step [OF engine_deps_specD(1) [OF E(3)]] by metis
  let ?e = "e\<lparr>ce_downloader := d\<rparr>"
  show ?thesis
  proof (cases polled)
    case (Some x)
    with run d(1) obtain q where q: "ce_on_download_outcome E x ?e = Some (q, e')"
      by (auto simp: ce_round_def Let_def bind_eq_Some_conv)
    have "et_inv hdr rank (tree_of E) keys view (canonical_filed hdr) (ce_tree ?e)" using t by simp
    moreover have "data_ok (fetch_of E) x" using d(2) Some by simp
    moreover have "data_trusted hdr rank (codec_of (tree_of E)) trust (ce_tree ?e) x" using gen d(1) Some by simp
    ultimately have "et_steps hdr rank (tree_of E) trust (ce_tree ?e) (ce_tree e')"
      using q by (rule download_outcome_steps [OF E])
    then show ?thesis by simp
  next
    case None
    note run = run [unfolded ce_round_def Let_def d(1) None]
    show ?thesis
    proof (cases "ce_parked_payload e")
      case None
      with run have "ce_next_message E ?e = Some (r, e')" by simp
      from next_message_steps [OF this, of hdr rank trust] show ?thesis by simp
    next
      case (Some parked)
      let ?f = "ce_send (pp_tx parked) (PayloadResponse (Inr (ps_new Syncing None))) (?e\<lparr>ce_parked_payload := None\<rparr>)"
      show ?thesis
      proof (cases expired)
        case True
        with run Some have "ce_next_message E ?f = Some (r, e')" by simp
        from next_message_steps [OF this, of hdr rank trust] show ?thesis by simp
      qed (use run Some in auto)
    qed
  qed
qed

lemma trusted_step_inv:
  assumes E: "tree_deps_spec (tree_of E) keys view" "authentic_payloads hdr rank (tree_of E)" "engine_deps_spec E"
    and inv: "ce_inv hdr rank E keys view (canonical_filed hdr) e" and step: "ce_trusted_step hdr rank E trust e e'"
  shows "et_steps hdr rank (tree_of E) trust (ce_tree e) (ce_tree e')"
    and "ce_inv hdr rank E keys view (canonical_filed hdr) e'"
proof -
  have "et_steps hdr rank (tree_of E) trust (ce_tree e) (ce_tree e') \<and> dl_ok (fetch_of E) (ce_downloader e')"
    using step
  proof cases
    case (ce_trusted_round arr expired r)
    have "ce_inv hdr rank E keys view (blocks_executed hdr (tree_of E) UNIV) e"
      using inv by (simp add: ce_inv_def et_inv_def blocks_executed_def)
    from engine_exec.round_total [OF E(1) refl E(2,3) this, of arr expired]
      data_trusted_genuine [OF ce_trusted_round(2)] ce_trusted_round(1)
    have "dl_ok (fetch_of E) (ce_downloader e')" by (auto simp: ce_inv_def)
    with trusted_round_steps [OF E inv ce_trusted_round] show ?thesis by simp
  qed (use inv in \<open>simp add: ce_inv_def\<close>)
  with steps_inv [OF _ E(1,2)] inv show "et_steps hdr rank (tree_of E) trust (ce_tree e) (ce_tree e')"
    "ce_inv hdr rank E keys view (canonical_filed hdr) e'" by (auto simp: ce_inv_def)
qed

lemma launch_engine_tree: "ce_tree (launch_engine E spec d) = launch_tree (tree_of E) spec d"
  by (simp add: launch_engine_def ce_new_def launch_tree_def)

interpretation trusted_machine: invariant_system "\<lambda>e. e = launch_engine E spec d" "ce_trusted_step hdr rank E trust"
    "\<lambda>e. tree_world hdr rank (tree_of E) keys view spec \<longrightarrow> engine_deps_spec E \<longrightarrow>
       ce_inv hdr rank E keys view (canonical_filed hdr) e \<and>
       reachable (\<lambda>t. t = launch_tree (tree_of E) spec d) (et_step hdr rank (tree_of E) trust) (ce_tree e)"
  for hdr rank E trust keys view spec d
proof (unfold_locales, goal_cases)
  case (1 e)
  have "dl_ok (fetch_of E) (ce_downloader (launch_engine E spec d))"
    by (simp add: launch_engine_def ce_new_def dl_new_ok)
  with 1 world_reachable show ?case
    by (auto simp: ce_inv_def launch_engine_tree tree_world_def intro: launch_inv launch_filed)
next
  case (2 e e')
  then show ?case using trusted_step_inv steps_reachable by (fastforce simp: tree_world_def)
qed

text \<open>(C6) The whole engine refines the tree machine: in every state of the engine, in any interleaving of
  messages, answers of peers, timeouts and syncs to finalized blocks, the tree is one the tree machine
  reaches, and whatever the engine does next to its tree is a sequence of steps of that machine. So
  the index of canonical hashes of a running engine files every hash under the number of its header;
  and as long as each finalized block synced to descends from the head at the time, every canonical
  hash is the ancestor of the head at its height.\<close>

theorem engine_refines_tree:
  assumes "tree_world hdr rank (tree_of E) keys view spec" "engine_deps_spec E"
    and "reachable (\<lambda>e. e = launch_engine E spec d) (ce_trusted_step hdr rank E trust) e"
  shows "reachable (\<lambda>t. t = launch_tree (tree_of E) spec d) (et_step hdr rank (tree_of E) trust) (ce_tree e)
    \<and> (\<forall>e'. ce_trusted_step hdr rank E trust e e' \<longrightarrow>
         (et_step hdr rank (tree_of E) trust)\<^sup>*\<^sup>* (ce_tree e) (ce_tree e'))
    \<and> (\<forall>n h. canonical (et_provider (ce_tree e)) n = Some h \<longrightarrow> n = number (hdr h))
    \<and> ((\<forall>t h. trust t h \<longrightarrow> extends_head hdr t h) \<longrightarrow> canonical_sound hdr (ce_tree e))"
proof -
  have i: "ce_inv hdr rank E keys view (canonical_filed hdr) e"
    and r: "reachable (\<lambda>t. t = launch_tree (tree_of E) spec d) (et_step hdr rank (tree_of E) trust) (ce_tree e)"
    using trusted_machine.reachable_inv [OF assms(3)] assms(1,2) by blast+
  note inv = reachable_tree [OF assms(1) r]
  show ?thesis
    using r trusted_step_inv(1) [OF inv(1,2) assms(2) i] canonical_filedD [OF et_invD(6) [OF inv(3)]]
      et_invD(6) [OF inv(5)] by blast
qed

text \<open>The witness: the sample engine with a forkchoice update in its queue, and the round that reads it.\<close>

lemma engine_called_trusted:
  "reachable (\<lambda>e. e = launch_engine sample_engine sample_spec []) (ce_trusted_step sample_hdr unat sample_engine trust) engine_called"
proof -
  let ?e = "launch_engine sample_engine sample_spec []"
  have "reachable (\<lambda>e. e = ?e) (ce_trusted_step sample_hdr unat sample_engine trust) ?e"
    by (rule reachable.intros) (rule refl)
  moreover have "ce_trusted_step sample_hdr unat sample_engine trust ?e engine_called"
    using ce_trusted_message [of sample_hdr unat sample_engine trust ?e sample_call]
    by (simp add: engine_called_def) (simp add: launch_engine_def ce_new_def)
  ultimately show ?thesis by (rule reachable_step)
qed

theorem engine_refines_tree_witness:
  "\<exists>r e'. ce_round sample_engine quiet False engine_called = Some (r, e') \<and>
     (et_step sample_hdr unat world_deps (extends_head sample_hdr))\<^sup>*\<^sup>* (ce_tree engine_called) (ce_tree e') \<and>
     canonical_sound sample_hdr (ce_tree engine_called)"
proof -
  have E: "tree_of sample_engine = world_deps" "fetch_of sample_engine = sample_fetch" "engine_deps_spec sample_engine"
    using sample_engine_world by (simp_all add: engine_world_def) (simp_all add: sample_engine_def)
  have w: "tree_world sample_hdr unat (tree_of sample_engine) snd map_of sample_spec"
    using sample_world E(1) by simp
  obtain r e' where round: "ce_round sample_engine quiet False engine_called = Some (r, e')"
    using engine_called_poll by (auto simp: bind_eq_Some_conv)
  moreover have "ce_trusted_step sample_hdr unat sample_engine (extends_head sample_hdr) engine_called e'"
    using round by (rule ce_trusted_round) (simp add: E(2) quiet_poll)
  ultimately show ?thesis
    using engine_refines_tree [OF w E(3) engine_called_trusted, of "extends_head sample_hdr"] unfolding E(1) by blast
qed

end
