(* ===== verification/Tree_Errors.thy ===== *)
theory Tree_Errors
  imports Tree_Answers
begin

text \<open>
  The error paths of the engine tree: what an INVALID answer to a payload changes, and that the tree
  remembers it. The memory is the invalid-header cache of reth; \<open>cache_keeps\<close> states what its
  documentation promises of a new entry.
\<close>

section \<open>The cache\<close>

text \<open>An entry for a hash that has none is found by the next lookup.\<close>

definition cache_keeps ::
  "('d, 'u, 't, 's, 'l, 'c, 'f, 'x) tree_deps \<Rightarrow> ('c \<Rightarrow> b256 \<rightharpoonup> block_with_parent) \<Rightarrow> bool" where
  "cache_keeps D view \<longleftrightarrow>
     (\<forall>b c. view c (bnh_hash (bwp_block b)) = None \<longrightarrow>
        fst (ihc_get D (bnh_hash (bwp_block b)) (ihc_insert D b c)) = Some b) \<and>
     (\<forall>h b c. view c h = None \<longrightarrow>
        fst (ihc_get D h (ihc_insert_with_invalid_ancestor D h b c)) = Some b)"

definition remembered ::
  "('d, 'u, 't, 's, 'l, 'c, 'f, 'x) tree_deps \<Rightarrow> b256 \<Rightarrow> ('d, 'l, 'c, 'f) engine_tree \<Rightarrow> bool" where
  "remembered D h t \<longleftrightarrow> fst (ihc_get D h (et_invalid t)) \<noteq> None"

text \<open>The two trees differ in the cache at most.\<close>

definition same_but_cache :: "('d, 'l, 'c, 'f) engine_tree \<Rightarrow> ('d, 'l, 'c, 'f) engine_tree \<Rightarrow> bool" where
  "same_but_cache t t' \<longleftrightarrow> t' = t\<lparr>et_invalid := et_invalid t'\<rparr>"

lemma same_but_cacheI [simp]: "same_but_cache t (t\<lparr>et_invalid := c\<rparr>)"
  by (simp add: same_but_cache_def)

lemma same_but_cache_trans: "same_but_cache t t' \<Longrightarrow> same_but_cache t' t'' \<Longrightarrow> same_but_cache t t''"
  by (cases t; cases t'; cases t'') (simp add: same_but_cache_def)

lemma same_but_cache_buffer: "same_but_cache t t' \<Longrightarrow> et_buffer t' = et_buffer t"
  by (cases t; cases t') (simp add: same_but_cache_def)

text \<open>Reading the cache may drop entries and adds none: the state in which only that has happened.\<close>

definition cache_read ::
  "('c \<Rightarrow> b256 \<rightharpoonup> block_with_parent) \<Rightarrow> ('d, 'l, 'c, 'f) engine_tree \<Rightarrow> ('d, 'l, 'c, 'f) engine_tree \<Rightarrow> bool" where
  "cache_read view t t' \<longleftrightarrow> same_but_cache t t' \<and> view (et_invalid t') \<subseteq>\<^sub>m view (et_invalid t)"

lemma cache_read_refl [simp]: "cache_read view t t"
  by (simp add: cache_read_def same_but_cache_def)

lemma cache_read_trans: "cache_read view t t' \<Longrightarrow> cache_read view t' t'' \<Longrightarrow> cache_read view t t''"
  by (auto simp: cache_read_def intro: same_but_cache_trans map_le_trans)

lemma cache_read_none: "cache_read view t t' \<Longrightarrow> view (et_invalid t) h = None \<Longrightarrow> view (et_invalid t') h = None"
  by (auto simp: cache_read_def map_le_def dom_def)

lemma cache_read_get:
  "tree_deps_spec D keys view \<Longrightarrow> ihc_get D h (et_invalid t) = (r, c) \<Longrightarrow> cache_read view t (t\<lparr>et_invalid := c\<rparr>)"
  using tree_deps_specD(6) [of D keys view h "et_invalid t"] by (simp add: cache_read_def)

lemma walk_invalid_reads:
  assumes D: "tree_deps_spec D keys view" and walk: "et_walk_invalid (ihc_get D) kn cur c = Some (r, c')"
  shows "view c' \<subseteq>\<^sub>m view c"
proof -
  have "ihc_get D = ihc_get D \<longrightarrow> view (snd (r, c')) \<subseteq>\<^sub>m view c"
    using walk
  proof (rule et_walk_invalid.raw_induct
      [where P = "\<lambda>get kn cur c y. get = ihc_get D \<longrightarrow> view (snd y) \<subseteq>\<^sub>m view c", rotated], goal_cases)
    case (1 walk get kn cur c y)
    show ?case
    proof
      assume get: "get = ihc_get D"
      have read: "view (snd (get h c)) \<subseteq>\<^sub>m view c" for h using tree_deps_specD(6) [OF D] get by simp
      have rec: "view (snd y) \<subseteq>\<^sub>m view c" if "walk get kn cur' (snd (get h c)) = Some y" for cur' h
        using 1(1) [OF that] get map_le_trans [OF _ read] by blast
      show "view (snd y) \<subseteq>\<^sub>m view c"
      proof (cases cur)
        case (Some b)
        with 1(2) read [of "bwp_parent b"] rec [of _ "bwp_parent b"] show ?thesis
          by (cases "get (bwp_parent b) c") (auto simp: Let_def split: if_splits)
      qed (use 1(2) in auto)
    qed
  qed
  then show ?thesis by simp
qed

lemma latest_valid_reads:
  assumes "tree_deps_spec D keys view" "et_latest_valid_hash_for_invalid_payload D h t = Some (r, t')"
  shows "cache_read view t t'"
proof (cases "known t h = None")
  case True
  obtain cur c where c: "ihc_get D h (et_invalid t) = (cur, c)" by (cases "ihc_get D h (et_invalid t)")
  with True assms(2) obtain kn c' where walk: "et_walk_invalid (ihc_get D) kn cur c = Some (r, c')"
    and t': "t' = t\<lparr>et_invalid := c'\<rparr>"
    by (auto simp: et_latest_valid_hash_for_invalid_payload_def Let_def bind_eq_Some_conv)
  have "view c' \<subseteq>\<^sub>m view (et_invalid t)"
    using map_le_trans [OF walk_invalid_reads [OF assms(1) walk]] tree_deps_specD(6) [OF assms(1), of h "et_invalid t"] c
    by simp
  with t' show ?thesis by (simp add: cache_read_def)
qed (use assms(2) in \<open>auto simp: et_latest_valid_hash_for_invalid_payload_def Let_def\<close>)

lemma prepare_invalid_reads:
  assumes "tree_deps_spec D keys view" "et_prepare_invalid_response D h t = Some (st, t')"
  shows "cache_read view t t'" "ps_status st = Invalid links_to_rejected"
  using assms(2) latest_valid_reads [OF assms(1)]
  by (auto simp: et_prepare_invalid_response_def Let_def bind_eq_Some_conv ps_new_def)

section \<open>Rejecting a payload\<close>

text \<open>The two places where a block is put into the cache.\<close>

lemma check_with_head_remembers:
  assumes D: "tree_deps_spec D keys view"
    and check: "et_check_invalid_ancestor_with_head D k h t = Some (r, t')"
  shows "case r of None \<Rightarrow> cache_read view t t'
    | Some st \<Rightarrow> same_but_cache t t' \<and> (cache_keeps D view \<longrightarrow> view (et_invalid t) h = None \<longrightarrow> remembered D h t')"
proof -
  obtain found c where c: "ihc_get D k (et_invalid t) = (found, c)" by (cases "ihc_get D k (et_invalid t)")
  let ?t = "t\<lparr>et_invalid := c\<rparr>"
  have read: "cache_read view t ?t" using D c by (rule cache_read_get)
  show ?thesis
  proof (cases found)
    case None
    with c check read show ?thesis by (auto simp: et_check_invalid_ancestor_with_head_def)
  next
    case (Some x)
    with c check obtain st t2 where t2: "et_prepare_invalid_response D (bwp_parent x) ?t = Some (st, t2)"
      and r: "r = Some st" "t' = t2\<lparr>et_invalid := ihc_insert_with_invalid_ancestor D h x (et_invalid t2)\<rparr>"
      by (auto simp: et_check_invalid_ancestor_with_head_def bind_eq_Some_conv)
    have "cache_read view t t2" using cache_read_trans [OF read prepare_invalid_reads(1) [OF D t2]] .
    moreover from cache_read_none [OF this] have "remembered D h t'"
      if "cache_keeps D view" "view (et_invalid t) h = None"
      using that by (simp add: r remembered_def cache_keeps_def)
    ultimately show ?thesis using r by (auto simp: cache_read_def intro: same_but_cache_trans)
  qed
qed

lemma insert_error_remembers:
  assumes D: "tree_deps_spec D keys view"
    and error: "et_on_insert_block_error D b kind t = Some (Inr st, t')"
  shows "same_but_cache t t'"
    and "cache_keeps D view \<Longrightarrow> view (et_invalid t) (hash b) = None \<Longrightarrow> remembered D (hash b) t'"
proof -
  let ?entry = "\<lparr>bwp_parent = parent_hash b, bwp_block = num_hash b\<rparr>"
  obtain r t2 where t2: "et_latest_valid_hash_for_invalid_payload D (parent_hash b) t = Some (r, t2)"
    and t': "t' = t2\<lparr>et_invalid := ihc_insert D ?entry (et_invalid t2)\<rparr>"
    using error by (auto simp: et_on_insert_block_error_def Let_def bind_eq_Some_conv split: sum.splits)
  note read = latest_valid_reads [OF D t2]
  then show "same_but_cache t t'" by (auto simp: t' cache_read_def intro: same_but_cache_trans)
  assume keeps: "cache_keeps D view" "view (et_invalid t) (hash b) = None"
  have "fst (ihc_get D (bnh_hash (bwp_block ?entry)) (ihc_insert D ?entry (et_invalid t2))) = Some ?entry"
    using cache_read_none [OF read keeps(2)] keeps(1) unfolding cache_keeps_def
    by (elim conjE) (erule allE [of _ ?entry], simp add: num_hash_def)
  then show "remembered D (hash b) t'" by (simp add: t' remembered_def num_hash_def)
qed

lemma sum_case_InrE:
  "(case x of Inl e \<Rightarrow> Inl e | Inr v \<Rightarrow> f v) = Inr y \<Longrightarrow> (\<And>v. x = Inr v \<Longrightarrow> f v = Inr y \<Longrightarrow> P) \<Longrightarrow> P"
  by (cases x) auto

text \<open>An INVALID answer comes from one of the two.\<close>

lemma invalid_answer_cases [consumes 3, case_names linked rejected]:
  assumes "ensure_well_formed_payload D payload = Inr b"
    and "et_on_new_payload D payload w t = Some (Inr out, t')" "ps_status (outcome out) = Invalid m"
  obtains k st where "et_check_invalid_ancestor_with_head D k (hash b) t = Some (Some st, t')" "out = to_new st"
  | k t1 kind st where "et_check_invalid_ancestor_with_head D k (hash b) t = Some (None, t1)"
      "et_on_insert_block_error D (sealed_block.truncate b) kind t1 = Some (Inr st, t')" "out = to_new st"
proof -
  note step = et_on_new_payload_def Let_def assms(1)
  obtain k where k: "et_lowest_buffered_ancestor_or t (hash b) = Some k"
    using assms(2) by (cases "et_lowest_buffered_ancestor_or t (hash b)") (simp_all add: step)
  let ?k = "if k = hash b then parent_hash b else k"
  obtain q t1 where q: "et_check_invalid_ancestor_with_head D ?k (hash b) t = Some (q, t1)"
    using assms(2) by (cases "et_check_invalid_ancestor_with_head D ?k (hash b) t") (auto simp: step k)
  show thesis
  proof (cases q)
    case (Some st)
    with assms(2) q show thesis by (intro that(1) [of ?k st]) (simp_all add: step k)
  next
    case None
    note q = q [unfolded None]
    obtain r t2 where ins: "et_insert_block D b w t1 = Some (r, t2)"
      using assms(2) by (cases "et_insert_block D b w t1") (auto simp: step k q)
    show thesis
    proof (cases r)
      case (Inl kind)
      from ins Inl have "t2 = t1" by (cases rule: et_insert_block_cases) auto
      with assms(2) obtain handled where h: "et_on_insert_block_error D (sealed_block.truncate b) kind t1 = Some (handled, t')"
        "map_sum id to_new handled = Inr out"
        by (cases "et_on_insert_block_error D (sealed_block.truncate b) kind t1") (auto simp: step k q ins Inl)
      with q show thesis by (cases handled) (auto intro: that(2))
    next
      case (Inr ok)
      have "ps_status (outcome out) \<noteq> Invalid m"
        using assms(2)
        by (cases ok) (auto simp: step k q ins Inr ps_new_def to_new_def with_event_def bind_eq_Some_conv
          split: block_status.splits if_splits elim!: sum_case_InrE)
      with assms(3) show thesis by contradiction
    qed
  qed
qed

lemma invalid_answer_remembers:
  assumes D: "tree_deps_spec D keys view"
    and wf: "ensure_well_formed_payload D payload = Inr b"
    and answer: "et_on_new_payload D payload w t = Some (Inr out, t')" "ps_status (outcome out) = Invalid m"
  shows "same_but_cache t t' \<and> event out = None \<and>
    (cache_keeps D view \<longrightarrow> view (et_invalid t) (hash b) = None \<longrightarrow> remembered D (hash b) t')"
  using wf answer
proof (cases rule: invalid_answer_cases)
  case (linked k st)
  then show ?thesis using check_with_head_remembers [OF D linked(1)] by (simp add: to_new_def)
next
  case (rejected k t1 kind st)
  have read: "cache_read view t t1" using check_with_head_remembers [OF D rejected(1)] by simp
  note error = insert_error_remembers [OF D rejected(2)]
  have "same_but_cache t t'" using read error(1) by (auto simp: cache_read_def intro: same_but_cache_trans)
  with error(2) cache_read_none [OF read, of "hash b"] rejected(3) show ?thesis by (simp add: to_new_def)
qed

text \<open>A malformed payload only reads the cache.\<close>

lemma malformed_payload_reads:
  assumes "tree_deps_spec D keys view" "ensure_well_formed_payload D payload = Inl e"
    and "et_on_new_payload D payload w t = Some (Inr out, t')"
  shows "cache_read view t t' \<and> event out = None"
  using assms(2,3) latest_valid_reads [OF assms(1)]
  by (auto simp: et_on_new_payload_def bind_eq_Some_conv to_new_def split: if_splits)

section \<open>What the tree answers afterwards\<close>

text \<open>A hash the tree rejects: a forkchoice update to it and a payload on top of it are INVALID, and
  change nothing but the cache.\<close>

definition rejects ::
  "('d, 'u, 't, 's, 'l, 'c, 'f, 'x) tree_deps \<Rightarrow> b256 \<Rightarrow> ('d, 'l, 'c, 'f) engine_tree \<Rightarrow> bool" where
  "rejects D h t \<longleftrightarrow>
     (\<forall>state attrs version. head_block_hash state = h \<longrightarrow>
        (\<exists>st t'. et_on_forkchoice_updated D state attrs version t = Some (Inr (to_new (Fcu_with_invalid st)), t') \<and>
           ps_status st = Invalid links_to_rejected \<and> same_but_cache t t')) \<and>
     (\<forall>payload b w. ensure_well_formed_payload D payload = Inr b \<longrightarrow> parent_hash b = h \<longrightarrow>
        fmlookup (blocks (et_buffer t)) (hash b) = None \<longrightarrow>
        (\<exists>st t'. et_on_new_payload D payload w t = Some (Inr (to_new st), t') \<and>
           ps_status st = Invalid links_to_rejected \<and> same_but_cache t t'))"

lemma unbuffered_lowest:
  "fmlookup (blocks (et_buffer t)) h = None \<Longrightarrow> et_lowest_buffered_ancestor_or t h = Some h"
  by (simp add: et_lowest_buffered_ancestor_or_def bb_lowest_ancestor_def)

text \<open>What is remembered is rejected, in every tree that satisfies the invariant.\<close>

lemma remembered_rejects:
  assumes D: "tree_deps_spec D keys view" "authentic_payloads hdr rank D"
    and inv: "et_inv hdr rank D keys view (canonical_filed hdr) t"
    and h: "remembered D h t" "h \<noteq> 0" "fmlookup (blocks (et_buffer t)) h = None"
  shows "rejects D h t"
  unfolding rejects_def
proof (intro conjI allI impI)
  fix state :: forkchoice_state and attrs version assume head: "head_block_hash state = h"
  obtain r c where r: "et_check_invalid_ancestor D h t = Some (r, t\<lparr>et_invalid := c\<rparr>)"
    "\<forall>st. r = Some st \<longrightarrow> ps_status st = Invalid links_to_rejected"
    using filed.check_invalid_total [OF D(1) inv, of h] by blast
  moreover have "r \<noteq> None"
    using r(1) h(1) by (auto simp: et_check_invalid_ancestor_def remembered_def Let_def bind_eq_Some_conv
      split: prod.splits)
  ultimately show "\<exists>st t'. et_on_forkchoice_updated D state attrs version t = Some (Inr (to_new (Fcu_with_invalid st)), t') \<and>
      ps_status st = Invalid links_to_rejected \<and> same_but_cache t t'"
    using head h(2) by (auto simp: et_on_forkchoice_updated_def et_pre_validate_forkchoice_update_def
      unbuffered_lowest [OF h(3)])
next
  fix payload b w
  assume wf: "ensure_well_formed_payload D payload = Inr b" and parent: "parent_hash b = h"
    and free: "fmlookup (blocks (et_buffer t)) (hash b) = None"
  have "authentic hdr rank b" using D(2) wf by (simp add: authentic_payloads_def)
  then have "rank h < rank (hash b)" using parent by (auto dest: authenticD(3))
  then obtain r c where r: "et_check_invalid_ancestor_with_head D h (hash b) t = Some (r, t\<lparr>et_invalid := c\<rparr>)"
    "\<forall>st. r = Some st \<longrightarrow> ps_status st = Invalid links_to_rejected"
    using filed.check_invalid_with_head_total [OF D(1) inv, of h "hash b"] by blast
  moreover have "r \<noteq> None"
    using r(1) h(1) by (auto simp: et_check_invalid_ancestor_with_head_def remembered_def Let_def bind_eq_Some_conv
      split: prod.splits)
  ultimately show "\<exists>st t'. et_on_new_payload D payload w t = Some (Inr (to_new st), t') \<and>
      ps_status st = Invalid links_to_rejected \<and> same_but_cache t t'"
    using wf parent by (auto simp: et_on_new_payload_def Let_def unbuffered_lowest [OF free])
qed

text \<open>(C12) The error path of a payload. Whenever the answer to a payload is INVALID, no stored block,
  canonical hash, buffered block or event changed and no download is asked for: only the
  invalid-header cache may have. A malformed payload adds nothing to it. A well-formed one, for a
  block that breaks a rule or is on top of a rejected block, is remembered when the block is new to
  the cache, which keeps new entries, and is not buffered: a forkchoice update to the block, and
  every well-formed payload on top of it for a block that is not buffered, are then answered INVALID
  as well, again without a change to the tree.\<close>

theorem et_invalid_payload_sticks:
  assumes "tree_world hdr rank D keys view spec"
    and "reachable (\<lambda>t. t = launch_tree D spec d) (et_step hdr rank D trust) t"
    and "et_on_new_payload D payload w t = Some (Inr out, t')" "ps_status (outcome out) = Invalid msg"
  shows "same_but_cache t t' \<and> event out = None \<and>
    (\<forall>e. ensure_well_formed_payload D payload = Inl e \<longrightarrow> view (et_invalid t') \<subseteq>\<^sub>m view (et_invalid t)) \<and>
    (\<forall>b. ensure_well_formed_payload D payload = Inr b \<longrightarrow> cache_keeps D view \<longrightarrow>
       view (et_invalid t) (hash b) = None \<longrightarrow> fmlookup (blocks (et_buffer t)) (hash b) = None \<longrightarrow>
       rejects D (hash b) t')"
proof -
  note inv = reachable_tree [OF assms(1,2)]
  show ?thesis
  proof (cases "ensure_well_formed_payload D payload")
    case (Inl e)
    from malformed_payload_reads [OF inv(1) Inl assms(3)] Inl show ?thesis by (simp add: cache_read_def)
  next
    case (Inr b)
    have t': "et_inv hdr rank D keys view (canonical_filed hdr) t'"
      using filed.new_payload_total [OF inv(1,3), of payload w] inv(2) assms(3) by (auto simp: authentic_payloads_def)
    have b: "hash b \<noteq> 0" using inv(2) Inr by (auto simp: authentic_payloads_def authentic_def)
    note answer = invalid_answer_remembers [OF inv(1) Inr assms(3,4)]
    then have "et_buffer t' = et_buffer t" by (auto dest: same_but_cache_buffer)
    with remembered_rejects [OF inv(1,2) t' _ b] answer Inr show ?thesis by simp
  qed
qed

text \<open>For the witness, rules that refuse every header.\<close>

definition strict_deps ::
  "((b256 \<times> bytecode) list, (b256 \<times> bytecode) list, leaf_map \<times> (b256, leaf_map) fmap, leaf_map,
    u32 \<times> b256 list, sample_cache, forkchoice_state option, unit) tree_deps" where
  "strict_deps = world_deps\<lparr>validate_header := \<lambda>_. Inl (Rule_violation ''gas'')\<rparr>"

lemma strict_world: "tree_world sample_hdr unat strict_deps snd map_of sample_spec"
  using sample_world by (simp add: strict_deps_def tree_world_def tree_deps_spec_def authentic_payloads_def)

theorem et_invalid_payload_sticks_witness:
  "\<exists>out t'. et_on_new_payload strict_deps [] None (launch_tree strict_deps sample_spec []) = Some (Inr out, t') \<and>
     ps_status (outcome out) = Invalid ''consensus'' \<and> rejects strict_deps 3 t'"
proof -
  let ?t = "launch_tree strict_deps sample_spec []"
  have t: "?t = world_tree"
    by (simp add: launch_tree_def et_new_def strict_deps_def)
  let ?b = "sample_block 3 1 1"
  have deps: "ensure_well_formed_payload strict_deps [] = Inr ?b" "ihc_get strict_deps h c = (map_of c h, c)"
    "validate_header_with_total_difficulty strict_deps hh td = Inr ()"
    "validate_header strict_deps sh = Inl (Rule_violation ''gas'')"
    "ensure_validation_error strict_deps (Consensus r) = Inr ''consensus''"
    "validation_error_to_string strict_deps = id" for h c hh td sh r
    by (simp_all add: strict_deps_def) (simp_all add: world_deps_def sample_deps_def)
  have low: "et_lowest_buffered_ancestor_or world_tree 3 = Some 3" by (rule unbuffered_lowest) (simp add: bb_new_def)
  have check: "et_check_invalid_ancestor_with_head strict_deps 1 3 world_tree = Some (None, world_tree\<lparr>et_invalid := []\<rparr>)"
    by (simp add: et_check_invalid_ancestor_with_head_def deps)
  have ins: "et_insert_block strict_deps ?b None (world_tree\<lparr>et_invalid := []\<rparr>) =
      Some (Inl (Consensus (Rule_violation ''gas'')), world_tree\<lparr>et_invalid := []\<rparr>)"
    by (simp add: et_insert_block_def et_validate_block_def deps)
  obtain out t' where a: "et_on_new_payload strict_deps [] None ?t = Some (Inr out, t')"
    "ps_status (outcome out) = Invalid ''consensus''"
    by (simp add: t et_on_new_payload_def deps low check ins et_on_insert_block_error_def
      et_latest_valid_hash_for_invalid_payload_def ps_new_def to_new_def Let_def)
  have "reachable (\<lambda>t. t = ?t) (et_step sample_hdr unat strict_deps (\<lambda>_ _. False)) ?t" by (rule reachable.intros) (rule refl)
  from et_invalid_payload_sticks [OF strict_world this a] deps(1)
  have "cache_keeps strict_deps map_of \<longrightarrow> rejects strict_deps 3 t'" by (simp add: t) (simp add: bb_new_def)
  with a show ?thesis by (auto simp: cache_keeps_def strict_deps_def world_deps_def sample_deps_def)
qed

end
