(* ===== verification/Buffer_Tests.thy ===== *)
theory Buffer_Tests
  imports Buffer_Correct
begin

text \<open>
  The unit tests of the block buffer, the module \<open>tests\<close> of
  \<open>src/crates/engine/src/tree/block_buffer.rs\<close>, as programs over the model. A test takes the random
  hashes it draws as arguments, in the order of the source, and returns
  whether all of its assertions hold. They are evaluated here on one choice of distinct hashes: what
  the authors expect of the buffer holds of the model.
\<close>

definition create_block :: "b256 \<Rightarrow> u64 \<Rightarrow> b256 \<Rightarrow> recovered_block" where
  "create_block h n parent = sample_block h parent n"

definition insert_block_with_witness :: "'l lru_ops \<Rightarrow> recovered_block \<Rightarrow> 'l block_buffer \<Rightarrow> 'l block_buffer" where
  "insert_block_with_witness ops block buffer =
     bb_insert_block ops block (bb_insert_witness (hash block) (ew_new [] 0) {||} buffer)"

definition index_length :: "('k::linorder, b256 fset) fmap \<Rightarrow> nat" where
  "index_length m = fold (\<lambda>k acc. acc + fcard (case fmlookup m k of None \<Rightarrow> {||} | Some hs \<Rightarrow> hs))
     (sorted_list_of_fset (fmdom m)) 0"

definition assert_buffer_lengths :: "'l lru_ops \<Rightarrow> 'l block_buffer \<Rightarrow> nat \<Rightarrow> bool" where
  "assert_buffer_lengths ops buffer expected \<longleftrightarrow>
     fcard (fmdom (blocks buffer)) = expected \<and> lru_len ops (lru buffer) = expected \<and>
     index_length (parent_to_child buffer) = expected \<and> index_length (earliest_blocks buffer) = expected"

definition assert_block_removal :: "'l block_buffer \<Rightarrow> recovered_block \<Rightarrow> bool" where
  "assert_block_removal buffer block \<longleftrightarrow>
     fmlookup (blocks buffer) (hash block) = None \<and>
     (case fmlookup (parent_to_child buffer) (parent_hash block) of None \<Rightarrow> True | Some p \<Rightarrow> hash block |\<notin>| p) \<and>
     (case fmlookup (earliest_blocks buffer) (number block) of None \<Rightarrow> True | Some hs \<Rightarrow> hash block |\<notin>| hs)"

definition simple_insertion :: "'l lru_ops \<Rightarrow> b256 \<Rightarrow> b256 \<Rightarrow> bool" where
  "simple_insertion ops parent h1 =
     (let block1 = create_block h1 10 parent;
          buffer = bb_insert_block ops block1 (bb_new ops 3)
      in assert_buffer_lengths ops buffer 1 \<and> fmlookup (blocks buffer) (hash block1) = Some block1)"

definition take_entire_chain_of_children ::
  "(b256 fset \<Rightarrow> b256 list) \<Rightarrow> 'l lru_ops \<Rightarrow> b256 \<Rightarrow> b256 \<Rightarrow> b256 \<Rightarrow> b256 \<Rightarrow> b256 \<Rightarrow> b256 \<Rightarrow> bool" where
  "take_entire_chain_of_children it ops main_parent_hash h1 h2 h3 parent4 h4 =
     (let block1 = create_block h1 10 main_parent_hash;
          block2 = create_block h2 11 (hash block1);
          block3 = create_block h3 12 (hash block2);
          block4 = create_block h4 14 parent4;
          buffer = bb_new ops 5;
          buffer = insert_block_with_witness ops block1 buffer;
          buffer = insert_block_with_witness ops block2 buffer;
          buffer = insert_block_with_witness ops block3 buffer;
          buffer = insert_block_with_witness ops block4 buffer;
          (removed, buffer') = bb_remove_block_with_children it ops main_parent_hash buffer
      in assert_buffer_lengths ops buffer 4 \<and>
         fmlookup (blocks buffer) (hash block4) = Some block4 \<and>
         fmlookup (blocks buffer) (hash block2) = Some block2 \<and>
         fmlookup (blocks buffer) main_parent_hash = None \<and>
         bb_lowest_ancestor buffer (hash block4) = Some (Some block4) \<and>
         bb_lowest_ancestor buffer (hash block3) = Some (Some block1) \<and>
         bb_lowest_ancestor buffer (hash block1) = Some (Some block1) \<and>
         removed = map (\<lambda>b. (b, ew_new [] 0)) [block1, block2, block3] \<and>
         assert_buffer_lengths ops buffer' 1)"

text \<open>The blocks of a drain as a map by hash, which forgets their order.\<close>

definition by_hash :: "(recovered_block \<times> execution_witness) list \<Rightarrow> (b256, recovered_block) fmap" where
  "by_hash removed = fmap_of_list (map (\<lambda>(b, _). (hash b, b)) removed)"

definition take_all_multi_level_children ::
  "(b256 fset \<Rightarrow> b256 list) \<Rightarrow> 'l lru_ops \<Rightarrow> b256 \<Rightarrow> b256 \<Rightarrow> b256 \<Rightarrow> b256 \<Rightarrow> b256 \<Rightarrow> bool" where
  "take_all_multi_level_children it ops main_parent_hash h1 h2 h3 h4 =
     (let block1 = create_block h1 10 main_parent_hash;
          block2 = create_block h2 11 (hash block1);
          block3 = create_block h3 11 (hash block1);
          block4 = create_block h4 12 (hash block2);
          buffer = bb_new ops 5;
          buffer = insert_block_with_witness ops block1 buffer;
          buffer = insert_block_with_witness ops block2 buffer;
          buffer = insert_block_with_witness ops block3 buffer;
          buffer = insert_block_with_witness ops block4 buffer;
          (removed, buffer') = bb_remove_block_with_children it ops main_parent_hash buffer
      in assert_buffer_lengths ops buffer 4 \<and>
         by_hash removed = fmap_of_list [(hash block1, block1), (hash block2, block2), (hash block3, block3), (hash block4, block4)] \<and>
         assert_buffer_lengths ops buffer' 0)"

definition take_block_with_children ::
  "(b256 fset \<Rightarrow> b256 list) \<Rightarrow> 'l lru_ops \<Rightarrow> b256 \<Rightarrow> b256 \<Rightarrow> b256 \<Rightarrow> b256 \<Rightarrow> b256 \<Rightarrow> bool" where
  "take_block_with_children it ops main_parent h1 h2 h3 h4 =
     (let block1 = create_block h1 10 main_parent;
          block2 = create_block h2 11 (hash block1);
          block3 = create_block h3 11 (hash block1);
          block4 = create_block h4 12 (hash block2);
          buffer = bb_new ops 5;
          buffer = insert_block_with_witness ops block1 buffer;
          buffer = insert_block_with_witness ops block2 buffer;
          buffer = insert_block_with_witness ops block3 buffer;
          buffer = insert_block_with_witness ops block4 buffer;
          (removed, buffer') = bb_remove_block_with_children it ops (hash block1) buffer
      in assert_buffer_lengths ops buffer 4 \<and>
         by_hash removed = fmap_of_list [(hash block1, block1), (hash block2, block2), (hash block3, block3), (hash block4, block4)] \<and>
         assert_buffer_lengths ops buffer' 0)"

definition remove_chain_of_children ::
  "(b256 fset \<Rightarrow> b256 list) \<Rightarrow> 'l lru_ops \<Rightarrow> b256 \<Rightarrow> b256 \<Rightarrow> b256 \<Rightarrow> b256 \<Rightarrow> b256 \<Rightarrow> b256 \<Rightarrow> bool" where
  "remove_chain_of_children it ops main_parent h1 h2 h3 parent4 h4 =
     (let block1 = create_block h1 10 main_parent;
          block2 = create_block h2 11 (hash block1);
          block3 = create_block h3 12 (hash block2);
          block4 = create_block h4 14 parent4;
          buffer = fold (bb_insert_block ops) [block1, block2, block3, block4] (bb_new ops 5)
      in assert_buffer_lengths ops buffer 4 \<and>
         assert_buffer_lengths ops (bb_evict_old_blocks it ops (number block1) buffer) 1)"

definition remove_all_multi_level_children ::
  "(b256 fset \<Rightarrow> b256 list) \<Rightarrow> 'l lru_ops \<Rightarrow> b256 \<Rightarrow> b256 \<Rightarrow> b256 \<Rightarrow> b256 \<Rightarrow> b256 \<Rightarrow> bool" where
  "remove_all_multi_level_children it ops main_parent h1 h2 h3 h4 =
     (let block1 = create_block h1 10 main_parent;
          block2 = create_block h2 11 (hash block1);
          block3 = create_block h3 11 (hash block1);
          block4 = create_block h4 12 (hash block2);
          buffer = fold (bb_insert_block ops) [block1, block2, block3, block4] (bb_new ops 5)
      in assert_buffer_lengths ops buffer 4 \<and>
         assert_buffer_lengths ops (bb_evict_old_blocks it ops (number block1) buffer) 0)"

definition remove_multi_chains ::
  "(b256 fset \<Rightarrow> b256 list) \<Rightarrow> 'l lru_ops \<Rightarrow> b256 \<Rightarrow> b256 \<Rightarrow> b256 \<Rightarrow> b256 \<Rightarrow> b256 \<Rightarrow> b256 \<Rightarrow> b256 \<Rightarrow> b256 \<Rightarrow> b256
     \<Rightarrow> b256 \<Rightarrow> b256 \<Rightarrow> bool" where
  "remove_multi_chains it ops main_parent h1 h1a h2 h2a random_parent1 r1 random_parent2 r2 random_parent3 r3 =
     (let block1 = create_block h1 10 main_parent;
          block1a = create_block h1a 10 main_parent;
          block2 = create_block h2 11 (hash block1);
          block2a = create_block h2a 11 (hash block1);
          random_block1 = create_block r1 10 random_parent1;
          random_block2 = create_block r2 11 random_parent2;
          random_block3 = create_block r3 12 random_parent3;
          buffer = fold (bb_insert_block ops)
            [block1, block1a, block2, block2a, random_block1, random_block2, random_block3] (bb_new ops 10)
      in bb_lowest_ancestor buffer (hash random_block1) = Some (Some random_block1) \<and>
         bb_lowest_ancestor buffer (hash random_block2) = Some (Some random_block2) \<and>
         bb_lowest_ancestor buffer (hash random_block3) = Some (Some random_block3) \<and>
         bb_lowest_ancestor buffer (hash block2a) = Some (Some block1) \<and>
         bb_lowest_ancestor buffer (hash block2) = Some (Some block1) \<and>
         bb_lowest_ancestor buffer (hash block1a) = Some (Some block1a) \<and>
         bb_lowest_ancestor buffer (hash block1) = Some (Some block1) \<and>
         assert_buffer_lengths ops buffer 7 \<and>
         assert_buffer_lengths ops (bb_evict_old_blocks it ops 10 buffer) 2)"

definition evict_with_gap ::
  "'l lru_ops \<Rightarrow> b256 \<Rightarrow> b256 \<Rightarrow> b256 \<Rightarrow> b256 \<Rightarrow> b256 \<Rightarrow> b256 \<Rightarrow> bool" where
  "evict_with_gap ops main_parent h1 h2 h3 parent4 h4 =
     (let block1 = create_block h1 10 main_parent;
          block2 = create_block h2 11 (hash block1);
          block3 = create_block h3 12 (hash block2);
          block4 = create_block h4 13 parent4;
          buffer = fold (bb_insert_block ops) [block1, block2, block3] (bb_new ops 3);
          buffer' = bb_insert_block ops block4 buffer
      in bb_lowest_ancestor buffer (hash block3) = Some (Some block1) \<and>
         bb_lowest_ancestor buffer (hash block2) = Some (Some block1) \<and>
         bb_lowest_ancestor buffer (hash block1) = Some (Some block1) \<and>
         bb_lowest_ancestor buffer' (hash block4) = Some (Some block4) \<and>
         assert_block_removal buffer' block1 \<and>
         bb_lowest_ancestor buffer' (hash block3) = Some (Some block2) \<and>
         bb_lowest_ancestor buffer' (hash block2) = Some (Some block2) \<and>
         bb_lowest_ancestor buffer' (hash block1) = Some None \<and>
         assert_buffer_lengths ops buffer' 3)"

definition simple_eviction :: "'l lru_ops \<Rightarrow> b256 \<Rightarrow> b256 \<Rightarrow> b256 \<Rightarrow> b256 \<Rightarrow> b256 \<Rightarrow> b256 \<Rightarrow> bool" where
  "simple_eviction ops main_parent h1 h2 h3 parent4 h4 =
     (let block1 = create_block h1 10 main_parent;
          block2 = create_block h2 11 (hash block1);
          block3 = create_block h3 12 (hash block2);
          block4 = create_block h4 13 parent4;
          buffer = fold (bb_insert_block ops) [block1, block2, block3, block4] (bb_new ops 3)
      in assert_block_removal buffer block1 \<and> assert_buffer_lengths ops buffer 3)"

section \<open>The tests pass\<close>

declare bb_walk_lowest.simps [code]

lemma test_simple_insertion: "simple_insertion list_lru 100 1"
  by code_simp

lemma test_take_entire_chain_of_children:
  "take_entire_chain_of_children sorted_list_of_fset list_lru 100 1 2 3 101 4"
  by code_simp

lemma test_take_all_multi_level_children:
  "take_all_multi_level_children sorted_list_of_fset list_lru 100 1 2 3 4"
  by code_simp

lemma test_take_block_with_children:
  "take_block_with_children sorted_list_of_fset list_lru 100 1 2 3 4"
  by code_simp

lemma test_remove_chain_of_children:
  "remove_chain_of_children sorted_list_of_fset list_lru 100 1 2 3 101 4"
  by code_simp

lemma test_remove_all_multi_level_children:
  "remove_all_multi_level_children sorted_list_of_fset list_lru 100 1 2 3 4"
  by code_simp

lemma test_remove_multi_chains:
  "remove_multi_chains sorted_list_of_fset list_lru 100 1 2 3 4 101 5 102 6 103 7"
  by code_simp

lemma test_evict_with_gap: "evict_with_gap list_lru 100 1 2 3 101 4"
  by code_simp

lemma test_simple_eviction: "simple_eviction list_lru 100 1 2 3 101 4"
  by code_simp

end
