(* ===== verification/Node_Args.thy ===== *)
theory Node_Args
  imports Provider
begin

text \<open>
  The small parts of the node binary that compute: the arguments with their defaults,
  \<open>src/bin/ress/src/cli.rs\<close>, and the minimal eth RPC interface beside the engine API,
  \<open>src/bin/ress/src/rpc.rs\<close>.

  Paths are strings. Expanding a path, the directories of the platform and the files of secrets
  are library code, arguments of the definitions.
\<close>

section \<open>Arguments\<close>

type_synonym path = string
type_synonym ip_addr = string
type_synonym socket_addr = "ip_addr \<times> 16 word"
type_synonym jwt_secret = bytes

record chain_path =
  cp_dir :: path
  cp_chain :: string

record ress_network_args =
  na_addr :: ip_addr
  na_port :: "16 word"
  na_p2p_secret_key :: "path option"
  na_max_active_connections :: u64
  na_trusted_peers :: "string list"

definition listener_addr :: "ress_network_args \<Rightarrow> socket_addr" where
  "listener_addr args = (na_addr args, na_port args)"

text \<open>The method \<open>p2p_secret\<close> of a data directory is reth code, an argument.\<close>

definition network_secret_path :: "ress_network_args \<Rightarrow> (chain_path \<Rightarrow> path) \<Rightarrow> chain_path \<Rightarrow> path" where
  "network_secret_path args p2p_secret data_dir =
     (case na_p2p_secret_key args of Some p \<Rightarrow> p | None \<Rightarrow> p2p_secret data_dir)"

record ress_rpc_args =
  ra_auth_addr :: ip_addr
  ra_auth_port :: "16 word"
  ra_auth_jwtsecret :: "path option"

definition auth_rpc_addr :: "ress_rpc_args \<Rightarrow> socket_addr" where
  "auth_rpc_addr args = (ra_auth_addr args, ra_auth_port args)"

text \<open>The secret is read from the given file, which must exist, or read or created at the default path.
  The state \<open>'w\<close> is the file system.\<close>

definition auth_jwt_secret ::
  "ress_rpc_args \<Rightarrow> (path \<Rightarrow> 'w \<Rightarrow> (string + jwt_secret) \<times> 'w) \<Rightarrow> (path \<Rightarrow> 'w \<Rightarrow> (string + jwt_secret) \<times> 'w)
     \<Rightarrow> path \<Rightarrow> 'w \<Rightarrow> (string + jwt_secret) \<times> 'w" where
  "auth_jwt_secret args from_file get_or_create default_jwt_path w =
     (case ra_auth_jwtsecret args of
        Some fpath \<Rightarrow> from_file fpath w
      | None \<Rightarrow> get_or_create default_jwt_path w)"

record debug_args =
  debug_consensus_url :: "string option"
  rpc_network_adapter_url :: "string option"

section \<open>The data directory\<close>

text \<open>\<open>PathBuf::join\<close>: an absolute path replaces, and a separator is put where none is.\<close>

definition path_join :: "path \<Rightarrow> string \<Rightarrow> path" where
  "path_join root name =
     (if name \<noteq> [] \<and> List.hd name = CHR ''/'' then name
      else if root = [] \<or> last root = CHR ''/'' then root @ name
      else root @ ''/'' @ name)"

definition data_dir :: "path option \<Rightarrow> path option" where
  "data_dir dirs_data_dir = map_option (\<lambda>root. path_join root ''ress'') dirs_data_dir"

definition database_path :: "path option \<Rightarrow> path option" where
  "database_path dirs_data_dir = map_option (\<lambda>root. path_join root ''db'') (data_dir dirs_data_dir)"

text \<open>An optional platform path. \<open>PlatformPath::default\<close> is the argument \<open>default_path\<close>.\<close>

datatype maybe_platform_path = MaybePlatformPath "path option"

definition mpp_default :: maybe_platform_path where
  "mpp_default = MaybePlatformPath None"

fun unwrap_or_chain_default :: "path \<Rightarrow> string \<Rightarrow> maybe_platform_path \<Rightarrow> chain_path" where
  "unwrap_or_chain_default default_path chain (MaybePlatformPath p) =
     \<lparr>cp_dir = (case p of Some p \<Rightarrow> p | None \<Rightarrow> path_join default_path chain), cp_chain = chain\<rparr>"

fun mpp_fmt :: "maybe_platform_path \<Rightarrow> string" where
  "mpp_fmt (MaybePlatformPath (Some p)) = p"
| "mpp_fmt (MaybePlatformPath None) = ''default''"

definition mpp_from_str :: "(string \<Rightarrow> string + path) \<Rightarrow> string \<Rightarrow> string + maybe_platform_path" where
  "mpp_from_str platform_path_from_str s =
     (if s = ''default'' then Inr (MaybePlatformPath None)
      else map_sum id (\<lambda>p. MaybePlatformPath (Some p)) (platform_path_from_str s))"

text \<open>The arguments of the node.\<close>

record ress_args =
  args_chain :: chain_spec
  args_datadir :: maybe_platform_path
  args_network :: ress_network_args
  args_rpc :: ress_rpc_args
  args_debug :: debug_args
  args_metrics :: "socket_addr option"

text \<open>What is printed is read back, as clap's default value needs: for the default, and for every path
  that is already expanded and not called \<open>default\<close>.\<close>

lemma mpp_roundtrip:
  "mpp_from_str expand (mpp_fmt mpp_default) = Inr mpp_default"
  "expand p = Inr p \<Longrightarrow> p \<noteq> ''default'' \<Longrightarrow>
     mpp_from_str expand (mpp_fmt (MaybePlatformPath (Some p))) = Inr (MaybePlatformPath (Some p))"
  by (simp_all add: mpp_from_str_def mpp_default_def)

lemma data_dir_below: "data_dir (Some root) = Some (path_join root ''ress'')"
    "database_path (Some root) = Some (path_join (path_join root ''ress'') ''db'')"
  by (simp_all add: data_dir_def database_path_def)

section \<open>The eth interface\<close>

datatype eth_request =
  Eth_syncing
| Eth_chainId
| Eth_blockNumber
| Eth_call bytes
| Eth_getCode bytes
| Eth_getBlockByHash b256 bool
| Eth_getBlockByNumber u64 bool
| Eth_getBlockReceipts bytes
| Eth_sendRawTransaction bytes
| Eth_getTransactionReceipt b256
| Eth_getLogs bytes
| Eth_getProof bytes

datatype eth_response = Not_syncing | Chain_id u64

datatype eth_api_error = Unsupported string

definition not_supported :: "eth_api_error + eth_response" where
  "not_supported = Inl (Unsupported ''method not supported'')"

text \<open>The identifier of a chain is read from reth's specification, the argument \<open>chain_id_of\<close>.\<close>

fun eth_rpc :: "(chain_spec \<Rightarrow> u64) \<Rightarrow> 'd ress_provider \<Rightarrow> eth_request \<Rightarrow> eth_api_error + eth_response" where
  "eth_rpc chain_id_of p Eth_syncing = Inr Not_syncing"
| "eth_rpc chain_id_of p Eth_chainId = Inr (Chain_id (chain_id_of (rp_chain_spec p)))"
| "eth_rpc chain_id_of p Eth_blockNumber = not_supported"
| "eth_rpc chain_id_of p (Eth_call request) = not_supported"
| "eth_rpc chain_id_of p (Eth_getCode address) = not_supported"
| "eth_rpc chain_id_of p (Eth_getBlockByHash h full) = not_supported"
| "eth_rpc chain_id_of p (Eth_getBlockByNumber n full) = not_supported"
| "eth_rpc chain_id_of p (Eth_getBlockReceipts block) = not_supported"
| "eth_rpc chain_id_of p (Eth_sendRawTransaction tx) = not_supported"
| "eth_rpc chain_id_of p (Eth_getTransactionReceipt h) = not_supported"
| "eth_rpc chain_id_of p (Eth_getLogs filter_args) = not_supported"
| "eth_rpc chain_id_of p (Eth_getProof args) = not_supported"

text \<open>The interface answers two methods and does not depend on the blocks the node has.\<close>

lemma eth_rpc_supported:
  "(\<exists>r. eth_rpc chain_id_of p request = Inr r) \<longleftrightarrow> request = Eth_syncing \<or> request = Eth_chainId"
  "rp_chain_spec p' = rp_chain_spec p \<Longrightarrow> eth_rpc chain_id_of p' request = eth_rpc chain_id_of p request"
  by (cases request; simp add: not_supported_def)+

end
