(* ===== verification/Database_Admin.thy ===== *)
theory Database_Admin
  imports Database
begin

text \<open>
  The administration of the bytecode store, the rest of
  \<open>src/crates/provider/src/database.rs\<close>: opening it with its arguments, the metrics of its table,
  and the unit test of the file as a program over the model.

  Creating the environment and reading the statistics are calls of reth and libmdbx, the fields of
  \<open>env_ops\<close>. The conversion \<open>as f64\<close> is the argument \<open>f64\<close>. Sizes are \<open>usize\<close>, 64 bit words whose
  arithmetic wraps. The registry of gauges is a map from a name with its labels to a value.
\<close>

section \<open>Opening\<close>

record database_arguments =
  growth_step :: "u64 option"
  geometry_max_size :: "u64 option"

record table_stats =
  ts_page_size :: u32
  ts_leaf_pages :: u64
  ts_branch_pages :: u64
  ts_overflow_pages :: u64
  ts_entries :: u64

type_synonym mdbx_error = string

record ('d, 'v) env_ops =
  default_arguments :: database_arguments
  create_db :: "string \<Rightarrow> database_arguments \<Rightarrow> db_error + 'd"
  create_tables_for :: "string list \<Rightarrow> 'd \<Rightarrow> db_error + 'd"
  env_view :: "'d \<Rightarrow> db_error + 'v"
  open_db :: "string \<Rightarrow> 'v \<Rightarrow> mdbx_error + u32"
  db_stat :: "u32 \<Rightarrow> 'v \<Rightarrow> mdbx_error + table_stats"
  read_error :: "mdbx_error \<Rightarrow> db_error"

definition Tables :: "string list" where
  "Tables = [''Bytecodes'']"

definition db_new_with_args :: "('d, 'v) env_ops \<Rightarrow> string \<Rightarrow> database_arguments \<Rightarrow> db_error + 'd" where
  "db_new_with_args ops path args =
     (case create_db ops path args of
        Inl e \<Rightarrow> Inl e
      | Inr database \<Rightarrow> create_tables_for ops Tables database)"

definition db_new :: "('d, 'v) env_ops \<Rightarrow> string \<Rightarrow> db_error + 'd" where
  "db_new ops path =
     db_new_with_args ops path
       ((default_arguments ops)\<lparr>growth_step := Some (1024 * 1024 * 1024),
                                geometry_max_size := Some (64 * 1024 * 1024 * 1024)\<rparr>)"

section \<open>Metrics\<close>

type_synonym label = "string \<times> string"
type_synonym 'f gauge_metric = "string \<times> 'f \<times> label list"
type_synonym 'f gauge_registry = "string \<times> label list \<Rightarrow> 'f"

definition db_collect_metrics ::
  "('d, 'v) env_ops \<Rightarrow> (u64 \<Rightarrow> 'f) \<Rightarrow> 'd \<Rightarrow> db_error + 'f gauge_metric list" where
  "db_collect_metrics ops f64 d =
     (case env_view ops d of
        Inl e \<Rightarrow> Inl e
      | Inr tx \<Rightarrow>
          (let table = ''Bytecodes''; table_label = (''table'', table)
           in case open_db ops table tx of
                Inl e \<Rightarrow> Inl (read_error ops e)
              | Inr table_db \<Rightarrow>
                  (case db_stat ops table_db tx of
                     Inl e \<Rightarrow> Inl (read_error ops e)
                   | Inr stats \<Rightarrow>
                       let page_size = ucast (ts_page_size stats);
                           leaf_pages = ts_leaf_pages stats;
                           branch_pages = ts_branch_pages stats;
                           overflow_pages = ts_overflow_pages stats;
                           num_pages = leaf_pages + branch_pages + overflow_pages;
                           table_size = page_size * num_pages;
                           entries = ts_entries stats
                       in Inr [(''db.table_size'', f64 table_size, [table_label]),
                               (''db.table_pages'', f64 leaf_pages, [table_label, (''type'', ''leaf'')]),
                               (''db.table_pages'', f64 branch_pages, [table_label, (''type'', ''branch'')]),
                               (''db.table_pages'', f64 overflow_pages, [table_label, (''type'', ''overflow'')]),
                               (''db.table_entries'', f64 entries, [table_label])])))"

definition db_gauge_metrics :: "('d, 'v) env_ops \<Rightarrow> (u64 \<Rightarrow> 'f) \<Rightarrow> 'd \<Rightarrow> 'f gauge_metric list" where
  "db_gauge_metrics ops f64 d = (case db_collect_metrics ops f64 d of Inl e \<Rightarrow> [] | Inr m \<Rightarrow> m)"

definition db_report_metrics ::
  "('d, 'v) env_ops \<Rightarrow> (u64 \<Rightarrow> 'f) \<Rightarrow> 'd \<Rightarrow> 'f gauge_registry \<Rightarrow> 'f gauge_registry" where
  "db_report_metrics ops f64 d gauges =
     fold (\<lambda>(name, v, labels) gauges. gauges((name, labels) := v)) (db_gauge_metrics ops f64 d) gauges"

text \<open>No two of the five metrics share a gauge, so each keeps the value that was reported.\<close>

lemma report_keeps_values:
  assumes "distinct (map (\<lambda>(name, v, labels). (name, labels)) ms)" "(name, v, labels) \<in> set ms"
  shows "fold (\<lambda>(name, v, labels) gauges. gauges((name, labels) := v)) ms gauges (name, labels) = v"
  using assms
proof (induction ms arbitrary: gauges)
  case (Cons m ms)
  have other: "fold (\<lambda>(name, v, labels) gauges. gauges((name, labels) := v)) ms g k = g k"
    if "k \<notin> (\<lambda>(name, v, labels). (name, labels)) ` set ms" for g k
    using that by (induction ms arbitrary: g) (auto split: prod.splits)
  show ?case
  proof (cases "(name, v, labels) \<in> set ms")
    case True
    with Cons show ?thesis by (cases m) simp
  next
    case False
    with Cons.prems have "m = (name, v, labels)" by simp
    moreover from this Cons.prems(1) have "(name, labels) \<notin> (\<lambda>(name, v, labels). (name, labels)) ` set ms" by simp
    ultimately show ?thesis using other [of "(name, labels)" "gauges((name, labels) := v)"]
      by (simp add: fun_upd_same del: fun_upd_apply)
  qed
qed simp

text \<open>A report sets every gauge it collected, and an error changes none. The size of the table is
  exact as long as it fits into 64 bits.\<close>

lemma db_report_metrics_sets:
  assumes "db_collect_metrics ops f64 d = Inr ms" "(name, v, labels) \<in> set ms"
  shows "db_report_metrics ops f64 d gauges (name, labels) = v"
proof -
  have "distinct (map (\<lambda>(name, v, labels). (name, labels)) ms)"
    using assms(1) by (auto simp: db_collect_metrics_def Let_def split: sum.splits)
  then show ?thesis
    unfolding db_report_metrics_def db_gauge_metrics_def assms(1)
    using report_keeps_values [OF _ assms(2)] by simp
qed

lemma db_report_metrics_error:
  "db_collect_metrics ops f64 d = Inl e \<Longrightarrow> db_report_metrics ops f64 d gauges = gauges"
  by (simp add: db_report_metrics_def db_gauge_metrics_def)

lemma table_size_exact:
  fixes page_size leaf branch overflow :: u64
  assumes "unat page_size * (unat leaf + unat branch + unat overflow) < 2 ^ 64" "page_size \<noteq> 0"
  shows "unat (page_size * (leaf + branch + overflow)) = unat page_size * (unat leaf + unat branch + unat overflow)"
    (is "_ = ?p * ?n")
proof -
  have "?n \<le> ?p * ?n" using assms(2) by (cases "unat page_size") (simp_all add: unat_eq_zero)
  then have n: "?n < 2 ^ 64" using assms(1) by (rule le_less_trans)
  then have "unat (leaf + branch + overflow) = ?n" by (simp add: unat_word_ariths)
  with assms(1) show ?thesis by (simp add: unat_word_ariths)
qed

section \<open>The unit test\<close>

text \<open>\<open>bytecode_persistence\<close> as a program: \<open>None\<close> when an \<open>unwrap\<close> fails, otherwise whether all
  assertions hold. The bytecode and its expected hash are arguments.\<close>

definition bytecode_persistence ::
  "codec \<Rightarrow> ('d, 't) db_ops \<Rightarrow> bytes \<Rightarrow> b256 \<Rightarrow> 'd \<Rightarrow> bool option" where
  "bytecode_persistence c ops code expected d =
     (let bytecode = new_raw c code; code_hash = code_hash_slow c bytecode
      in case (db_bytecode_exists ops d code_hash, db_missing_code_hashes ops d {|code_hash|}) of
           (Inr exists_before, Inr missing_before) \<Rightarrow>
             (case db_insert_bytecode ops code_hash bytecode d of
                (Inl e, d) \<Rightarrow> None
              | (Inr _, d) \<Rightarrow>
                  (case (db_bytecode_exists ops d code_hash, db_missing_code_hashes ops d {|code_hash|},
                         db_get_bytecode ops d code_hash) of
                     (Inr exists_after, Inr missing_after, Inr (Some stored)) \<Rightarrow>
                       Some (code_hash = expected \<and> \<not> exists_before \<and> missing_before = {|code_hash|} \<and>
                             exists_after \<and> missing_after = {||} \<and>
                             original_bytes c stored = original_bytes c bytecode)
                   | _ \<Rightarrow> None))
         | _ \<Rightarrow> None)"

text \<open>The test passes on every database that keeps its promises and is empty at first, whenever no call
  fails.\<close>

lemma bytecode_persistence_passes:
  assumes spec: "db_spec ops (original_bytes c) table seen" and empty: "table d = Map.empty"
    and hash: "code_hash_slow c (new_raw c code) = expected"
    and run: "bytecode_persistence c ops code expected d = Some passed"
  shows passed
proof -
  let ?b = "new_raw c code" and ?h = "code_hash_slow c (new_raw c code)"
  obtain before missing where before: "db_bytecode_exists ops d ?h = Inr before"
      "db_missing_code_hashes ops d {|?h|} = Inr missing"
    using run by (auto simp: bytecode_persistence_def Let_def split: sum.splits)
  obtain u d' where d': "db_insert_bytecode ops ?h ?b d = (Inr u, d')"
    using run before by (cases "db_insert_bytecode ops ?h ?b d")
      (auto simp: bytecode_persistence_def Let_def split: sum.splits)
  obtain after missing' stored where after: "db_bytecode_exists ops d' ?h = Inr after"
      "db_missing_code_hashes ops d' {|?h|} = Inr missing'" "db_get_bytecode ops d' ?h = Inr (Some stored)"
    using run before d' by (auto simp: bytecode_persistence_def Let_def split: sum.splits option.splits)
  note table = db_insert_table(1) [OF spec d']
  have "\<not> before" using before(1) empty
    by (auto dest: db_exists_table [OF spec])
  moreover have "missing = {|?h|}" using db_missing_table [OF spec before(2)] empty by (auto simp: fset_eq_iff)
  moreover have "missing' = {||}" using db_missing_table [OF spec after(2)] table by (auto simp: fset_eq_iff)
  moreover have "after" "original_bytes c stored = original_bytes c ?b"
    using db_exists_table [OF spec after(1)] db_get_table [OF spec after(3)] table by simp_all
  ultimately show ?thesis using run before d' after hash by (simp add: bytecode_persistence_def Let_def)
qed

end
