(* ===== verification/Rpc_Adapter.thy ===== *)
theory Rpc_Adapter
  imports Fetch_Correct
begin

text \<open>
  The adapter that answers the requests of the node from an RPC endpoint in place of peers,
  \<open>src/crates/testing/src/rpc_adapter.rs\<close>.

  The endpoint, the RLP lengths and the limits of reth are the fields of \<open>rpc_deps\<close>. A block of
  the RPC types has the header and the parts of the body the adapter copies. The answers to the
  requests that \<open>FuturesOrdered\<close> runs at the same time are taken in the order of the queue. A served
  body has no ommers, so \<open>rpc_withdrawals\<close> is all of its \<open>body_rest\<close>. The tasks the adapter spawns
  share only the bytecode cache, and only a witness changes it; \<open>ra_run\<close> runs them one after the other.
\<close>

section \<open>The endpoint\<close>

datatype block_id = Block_hash b256 | Block_number u64

datatype transactions_kind = Hashes | Full

record rpc_block =
  rpc_header :: header
  rpc_transactions :: "bytes list"
  rpc_withdrawals :: bytes

record debug_execution_witness =
  dw_state :: "bytes list"
  dw_codes :: "bytes list"

record rpc_deps =
  rd_codec :: codec
  get_block :: "block_id \<Rightarrow> transactions_kind \<Rightarrow> string + rpc_block option"
  debug_executionWitness :: "u64 \<Rightarrow> string + debug_execution_witness"
  header_length :: "header \<Rightarrow> nat"
  body_length :: "block_body \<Rightarrow> nat"
  MAX_HEADERS_SERVE :: u64
  MAX_BODIES_SERVE :: nat
  SOFT_RESPONSE_LIMIT :: nat

type_synonym bytecode_cache = "b256 \<rightharpoonup> bytes"

definition ra_block :: "rpc_deps \<Rightarrow> block_id \<Rightarrow> transactions_kind \<Rightarrow> rpc_block option" where
  "ra_block R block_id kind = (case get_block R block_id kind of Inl error \<Rightarrow> None | Inr block \<Rightarrow> block)"

section \<open>Headers and bodies\<close>

text \<open>The \<open>while let\<close> loop: it ends at the first block that is missing, or above the soft limit.\<close>

fun ra_take_headers :: "rpc_deps \<Rightarrow> rpc_block option list \<Rightarrow> nat \<Rightarrow> header list \<Rightarrow> header list" where
  "ra_take_headers R (Some block # futs) total_bytes headers =
     (let header = rpc_header block;
          total_bytes = total_bytes + header_length R header;
          headers = headers @ [header]
      in if total_bytes > SOFT_RESPONSE_LIMIT R then headers else ra_take_headers R futs total_bytes headers)"
| "ra_take_headers R _ total_bytes headers = headers"

definition ra_on_headers_request :: "rpc_deps \<Rightarrow> get_headers \<Rightarrow> header list" where
  "ra_on_headers_request R request =
     (case ra_block R (Block_hash (start_hash request)) Hashes of
        None \<Rightarrow> []
      | Some start_block \<Rightarrow>
          let header = rpc_header start_block;
              start_block_number = number header;
              total_bytes = header_length R header;
              headers = [header]
          in if limit request \<le> 1 then headers
             else let end_block_number = saturating_sub start_block_number (min (limit request - 1) (MAX_HEADERS_SERVE R));
                      futs = map (\<lambda>n. ra_block R (Block_number (of_nat n)) Hashes)
                               (rev [unat end_block_number..<unat start_block_number])
                  in ra_take_headers R futs total_bytes headers)"

fun ra_take_bodies :: "rpc_deps \<Rightarrow> rpc_block option list \<Rightarrow> nat \<Rightarrow> block_body list \<Rightarrow> block_body list" where
  "ra_take_bodies R (Some block # futs) total_bytes bodies =
     (let b = \<lparr>transactions = rpc_transactions block, body_rest = rpc_withdrawals block\<rparr>;
          total_bytes = total_bytes + body_length R b;
          bodies = bodies @ [b]
      in if length bodies \<ge> MAX_BODIES_SERVE R \<or> total_bytes > SOFT_RESPONSE_LIMIT R then bodies
         else ra_take_bodies R futs total_bytes bodies)"
| "ra_take_bodies R _ total_bytes bodies = bodies"

definition ra_on_block_bodies_request :: "rpc_deps \<Rightarrow> b256 list \<Rightarrow> block_body list" where
  "ra_on_block_bodies_request R request =
     ra_take_bodies R (map (\<lambda>h. ra_block R (Block_hash h) Full) request) 0 []"

section \<open>Serving requests\<close>

text \<open>The bytecodes of a witness are kept when their hash is new.\<close>

fun ra_keep_codes :: "codec \<Rightarrow> bytes list \<Rightarrow> bytecode_cache \<Rightarrow> bytecode_cache" where
  "ra_keep_codes c [] cache = cache"
| "ra_keep_codes c (code # codes) cache =
     (let h = code_hash_slow c (new_raw c code)
      in ra_keep_codes c codes (if cache h = None then cache(h \<mapsto> code) else cache))"

definition ra_on_witness_request :: "rpc_deps \<Rightarrow> b256 \<Rightarrow> bytecode_cache \<Rightarrow> bytes list option \<times> bytecode_cache" where
  "ra_on_witness_request R h cache =
     (case ra_block R (Block_hash h) Hashes of
        None \<Rightarrow> (None, cache)
      | Some block \<Rightarrow>
          (case debug_executionWitness R (number (rpc_header block)) of
             Inl error \<Rightarrow> (None, cache)
           | Inr w \<Rightarrow> (Some (dw_state w), ra_keep_codes (rd_codec R) (dw_codes w) cache)))"

datatype peer_response =
  Headers_sent oneshot "header list"
| Bodies_sent oneshot "block_body list"
| Bytecode_sent oneshot bytes
| Witness_sent oneshot "bytes list"

fun ra_serve :: "rpc_deps \<Rightarrow> peer_request \<Rightarrow> bytecode_cache \<Rightarrow> peer_response \<times> bytecode_cache" where
  "ra_serve R (GetHeaders request tx) cache = (Headers_sent tx (ra_on_headers_request R request), cache)"
| "ra_serve R (GetBlockBodies request tx) cache = (Bodies_sent tx (ra_on_block_bodies_request R request), cache)"
| "ra_serve R (GetBytecode h tx) cache =
     (Bytecode_sent tx (case cache h of None \<Rightarrow> [] | Some code \<Rightarrow> code), cache)"
| "ra_serve R (GetWitness h tx) cache =
     (case ra_on_witness_request R h cache of
        (maybe_witness, cache) \<Rightarrow>
          (Witness_sent tx (case maybe_witness of None \<Rightarrow> [] | Some w \<Rightarrow> w), cache))"

fun ra_run :: "rpc_deps \<Rightarrow> peer_request list \<Rightarrow> bytecode_cache \<Rightarrow> peer_response list \<times> bytecode_cache" where
  "ra_run R [] cache = ([], cache)"
| "ra_run R (request # requests) cache =
     (let (response, cache) = ra_serve R request cache;
          (responses, cache) = ra_run R requests cache
      in (response # responses, cache))"

section \<open>The headers the adapter serves\<close>

text \<open>The endpoint knows the blocks of a chain up to number \<open>n\<close> by their numbers, and the last by its hash.\<close>

definition serves_chain :: "rpc_deps \<Rightarrow> (nat \<Rightarrow> rpc_block) \<Rightarrow> nat \<Rightarrow> bool" where
  "serves_chain R chain n \<longleftrightarrow>
     n < 2 ^ 64 \<and> number (rpc_header (chain n)) = of_nat n \<and>
     get_block R (Block_hash (hash_slow (rd_codec R) (rpc_header (chain n)))) Hashes = Inr (Some (chain n)) \<and>
     (\<forall>k\<le>n. get_block R (Block_number (of_nat k)) Hashes = Inr (Some (chain k)))"

lemma ra_take_headers_all:
  "acc + sum_list (map (\<lambda>b. header_length R (rpc_header b)) bs) \<le> SOFT_RESPONSE_LIMIT R \<Longrightarrow>
   ra_take_headers R (map Some bs) acc headers = headers @ map rpc_header bs"
  by (induction bs arbitrary: acc headers) (auto simp: Let_def)

lemma rev_upt_falling: "m \<le> n \<Longrightarrow> rev [m..<n] = map (\<lambda>i. n - 1 - i) [0..<n - m]"
  by (rule nth_equalityI) (auto simp: rev_nth)

text \<open>What the adapter answers to a request for \<open>k + 2\<close> headers from block \<open>n\<close>.\<close>

lemma ra_headers_of_chain:
  assumes chain: "serves_chain R chain n" and k: "Suc k \<le> n" "Suc (Suc k) < 2 ^ 64" "of_nat (Suc k) \<le> MAX_HEADERS_SERVE R"
    and small: "(\<Sum>i\<leftarrow>[0..<Suc (Suc k)]. header_length R (rpc_header (chain (n - i)))) \<le> SOFT_RESPONSE_LIMIT R"
  shows "ra_on_headers_request R
      \<lparr>start_hash = hash_slow (rd_codec R) (rpc_header (chain n)), limit = of_nat (Suc (Suc k))\<rparr> =
    map (\<lambda>i. rpc_header (chain (n - i))) [0..<Suc (Suc k)]"
proof -
  have n: "n < 2 ^ 64" "number (rpc_header (chain n)) = of_nat n"
    using chain by (auto simp: serves_chain_def)
  have get: "ra_block R (Block_number (of_nat m)) Hashes = Some (chain m)" if "m \<le> n" for m
    using chain that by (simp add: serves_chain_def ra_block_def)
  have start: "ra_block R (Block_hash (hash_slow (rd_codec R) (rpc_header (chain n)))) Hashes = Some (chain n)"
    using chain by (simp add: serves_chain_def ra_block_def)
  have nat: "unat (of_nat n :: u64) = n" "unat (of_nat (Suc k) :: u64) = Suc k" "unat (of_nat (Suc (Suc k)) :: u64) = Suc (Suc k)"
    using n(1) k(2) by (simp_all add: unat_of_nat del: of_nat_Suc)
  have "\<not> (of_nat (Suc (Suc k)) :: u64) \<le> 1" using nat(3) by (simp add: word_le_nat_alt del: of_nat_Suc)
  moreover have "(of_nat (Suc (Suc k)) :: u64) - 1 = of_nat (Suc k)" by simp
  moreover have "unat (saturating_sub (of_nat n) (of_nat (Suc k))) = n - Suc k"
    using nat by (simp add: unat_saturating_sub del: of_nat_Suc)
  moreover have "map (\<lambda>m. ra_block R (Block_number (of_nat m)) Hashes) (rev [n - Suc k..<n]) =
      map Some (map (\<lambda>i. chain (n - Suc i)) [0..<Suc k])"
    using k(1) by (simp add: rev_upt_falling get comp_def del: upt_Suc)
  moreover have "header_length R (rpc_header (chain n)) +
      sum_list (map (\<lambda>b. header_length R (rpc_header b)) (map (\<lambda>i. chain (n - Suc i)) [0..<Suc k])) \<le> SOFT_RESPONSE_LIMIT R"
    using small by (simp add: upt_conv_Cons [of 0 "Suc (Suc k)"] map_Suc_upt [symmetric] comp_def del: upt_Suc)
  ultimately show ?thesis
    using start n(2) k(3) nat(1) ra_take_headers_all [of "header_length R (rpc_header (chain n))" R
        "map (\<lambda>i. chain (n - Suc i)) [0..<Suc k]" "[rpc_header (chain n)]"]
    by (simp add: ra_on_headers_request_def Let_def min_def upt_conv_Cons [of 0 "Suc (Suc k)"]
      map_Suc_upt [symmetric] comp_def del: upt_Suc of_nat_Suc)
qed

text \<open>(C38) The adapter and the header range future fit together: asked for at least two and at most the
  served maximum of headers of a chain the endpoint has, the adapter answers with exactly that many
  headers in falling order from the start hash, and the future accepts the answer at once, provided
  the chain is valid and the response stays below the soft limit.\<close>

theorem adapter_feeds_range:
  assumes "serves_chain R chain n" "Suc k \<le> n" "Suc (Suc k) < 2 ^ 64" "of_nat (Suc k) \<le> MAX_HEADERS_SERVE R"
    and "(\<Sum>i\<leftarrow>[0..<Suc (Suc k)]. header_length R (rpc_header (chain (n - i)))) \<le> SOFT_RESPONSE_LIMIT R"
    and "fd_codec D = rd_codec R"
    and "validate_header_range D (rev (map (\<lambda>i. seal_slow (rd_codec R) (rpc_header (chain (n - i)))) [0..<Suc (Suc k)]))"
    and "request = \<lparr>start_hash = hash_slow (rd_codec R) (rpc_header (chain n)), limit = of_nat (Suc (Suc k))\<rparr>"
  shows "hr_poll D (hr_new delay request) [Inr (ra_on_headers_request R request)] =
    Ready (map (\<lambda>i. seal_slow (rd_codec R) (rpc_header (chain (n - i)))) [0..<Suc (Suc k)])"
proof -
  have served: "ra_on_headers_request R request = map (\<lambda>i. rpc_header (chain (n - i))) [0..<Suc (Suc k)]"
    using ra_headers_of_chain [OF assms(1-5)] assms(8) by simp
  have "List.hd (ra_on_headers_request R request) = rpc_header (chain n)"
    by (simp add: served upt_conv_Cons del: upt_Suc)
  moreover have "unat (limit request) = Suc (Suc k)" using assms(3,8) by (simp add: unat_of_nat del: of_nat_Suc)
  moreover have "start_hash request = hash_slow (rd_codec R) (rpc_header (chain n))" by (simp add: assms(8))
  ultimately have "hr_on_response D (hr_new delay request) (Inr (ra_on_headers_request R request)) =
      Accepted (map (seal_slow (fd_codec D)) (ra_on_headers_request R request))"
    using assms(6,7) by (intro hr_on_response_accepts) (simp_all add: served comp_def rev_map del: upt_Suc)
  then show ?thesis by (simp add: served assms(6) comp_def del: upt_Suc)
qed

section \<open>The bytecodes the adapter serves\<close>

text \<open>A cached bytecode is stored under its own hash.\<close>

definition cache_ok_codes :: "codec \<Rightarrow> bytecode_cache \<Rightarrow> bool" where
  "cache_ok_codes c cache \<longleftrightarrow> (\<forall>h code. cache h = Some code \<longrightarrow> code_hash_slow c (new_raw c code) = h)"

lemma cache_ok_codes_add:
  "cache_ok_codes c cache \<Longrightarrow> cache_ok_codes c (cache(code_hash_slow c (new_raw c code) \<mapsto> code))"
  by (auto simp: cache_ok_codes_def)

lemma ra_keep_codes_ok:
  "cache_ok_codes c cache \<Longrightarrow> cache_ok_codes c (ra_keep_codes c codes cache)"
  "dom (ra_keep_codes c codes cache) = dom cache \<union> (\<lambda>code. code_hash_slow c (new_raw c code)) ` set codes"
proof -
  show "cache_ok_codes c cache \<Longrightarrow> cache_ok_codes c (ra_keep_codes c codes cache)"
    by (induction codes arbitrary: cache) (simp_all add: cache_ok_codes_add Let_def)
  show "dom (ra_keep_codes c codes cache) = dom cache \<union> (\<lambda>code. code_hash_slow c (new_raw c code)) ` set codes"
    by (induction codes arbitrary: cache) (auto simp: Let_def)
qed

lemma ra_serve_ok: "cache_ok_codes (rd_codec R) cache \<Longrightarrow> cache_ok_codes (rd_codec R) (snd (ra_serve R request cache))"
  by (cases request) (auto simp: ra_on_witness_request_def intro: ra_keep_codes_ok(1) split: option.split sum.split)

lemma ra_run_ok: "cache_ok_codes (rd_codec R) cache \<Longrightarrow> cache_ok_codes (rd_codec R) (snd (ra_run R requests cache))"
  by (induction requests arbitrary: cache) (auto simp: Let_def case_prod_unfold ra_serve_ok)

text \<open>After a witness was served, the bytecode future gets every bytecode of it from the adapter.\<close>

lemma adapter_feeds_bytecode:
  assumes "cache_ok_codes (rd_codec R) cache" "fd_codec D = rd_codec R"
    and "ra_block R (Block_hash h) Hashes = Some block" "debug_executionWitness R (number (rpc_header block)) = Inr w"
    and "code \<in> set (dw_codes w)" "code_hash = code_hash_slow (rd_codec R) (new_raw (rd_codec R) code)"
  shows "\<exists>served bytecode. fst (ra_serve R (GetBytecode code_hash tx) (snd (ra_serve R (GetWitness h tx') cache))) =
      Bytecode_sent tx served \<and> bf_poll D (bf_new delay code_hash) [Inr served] = Ready bytecode"
proof -
  let ?cache = "snd (ra_serve R (GetWitness h tx') cache)"
  have cache: "?cache = ra_keep_codes (rd_codec R) (dw_codes w) cache"
    using assms(3,4) by (simp add: ra_on_witness_request_def)
  then obtain served where "?cache code_hash = Some served"
    using ra_keep_codes_ok(2) [of "rd_codec R" "dw_codes w" cache] assms(5,6) by (auto simp: dom_def)
  moreover have "code_hash_slow (rd_codec R) (new_raw (rd_codec R) served) = code_hash"
    using ra_serve_ok [OF assms(1), of "GetWitness h tx'"] calculation by (auto simp: cache_ok_codes_def)
  ultimately show ?thesis using assms(2) by (simp add: bf_new_def Let_def)
qed

section \<open>Witnesses\<close>

definition sample_rpc :: rpc_deps where
  "sample_rpc = \<lparr>rd_codec = plain_codec,
     get_block = \<lambda>h _. Inr (case h of
         Block_hash h \<Rightarrow> if h = 3 then Some \<lparr>rpc_header = sample_header 1 1 [], rpc_transactions = [], rpc_withdrawals = []\<rparr> else None
       | Block_number n \<Rightarrow>
           if n = 0 then Some \<lparr>rpc_header = sample_header 0 0 [], rpc_transactions = [], rpc_withdrawals = []\<rparr>
           else if n = 1 then Some \<lparr>rpc_header = sample_header 1 1 [], rpc_transactions = [], rpc_withdrawals = []\<rparr> else None),
     debug_executionWitness = \<lambda>_. Inl ''unsupported'', header_length = \<lambda>_. 500, body_length = \<lambda>_. 0,
     MAX_HEADERS_SERVE = 1024, MAX_BODIES_SERVE = 1024, SOFT_RESPONSE_LIMIT = 2097152\<rparr>"

definition sample_rpc_chain :: "nat \<Rightarrow> rpc_block" where
  "sample_rpc_chain k = \<lparr>rpc_header = (if k = 0 then sample_header 0 0 [] else sample_header 1 1 []),
     rpc_transactions = [], rpc_withdrawals = []\<rparr>"

theorem adapter_feeds_range_witness:
  "hr_poll sample_fetch (hr_new 50 \<lparr>start_hash = 3, limit = 2\<rparr>)
     [Inr (ra_on_headers_request sample_rpc \<lparr>start_hash = 3, limit = 2\<rparr>)] =
   Ready [seal_slow plain_codec (sample_header 1 1 []), seal_slow plain_codec (sample_header 0 0 [])]"
proof -
  have chain: "serves_chain sample_rpc sample_rpc_chain 1"
    by (simp add: serves_chain_def sample_rpc_def sample_rpc_chain_def sample_header_def plain_codec_def)
      (auto simp: le_Suc_eq)
  show ?thesis
    using adapter_feeds_range [OF chain, of 0 sample_fetch _ 50]
    by (simp add: sample_rpc_def sample_rpc_chain_def sample_fetch_simps)
qed

end
