(* ===== verification/Node_Launch.thy ===== *)
theory Node_Launch
  imports Launch Node_Args Database_Admin Rpc_Adapter "HOL-Library.Sublist"
begin

text \<open>
  The start of the node, \<open>src/bin/ress/src/launch.rs\<close>: which parts are started, in which order, and
  what happens when one of them fails.

  A step of the launcher returns a result and the list of the parts it started, the type
  \<open>launching\<close>; \<open>lbind\<close> is the operator \<open>?\<close>, which ends the launch at the first error. Opening sockets and
  files and setting up the network of reth are library calls, fields of \<open>launch_deps\<close>. The event loop
  at the end of \<open>launch\<close> runs until the node is stopped and is not part of the model; of the metrics
  endpoint the model has the service that answers a request.
\<close>

section \<open>Steps that may fail\<close>

type_synonym launch_error = string
type_synonym ('e, 'a) launching = "(launch_error + 'a) \<times> 'e list"

definition lift :: "launch_error + 'a \<Rightarrow> ('e, 'a) launching" where
  "lift r = (r, [])"

definition started :: "'e \<Rightarrow> ('e, unit) launching" where
  "started e = (Inr (), [e])"

definition lbind :: "('e, 'a) launching \<Rightarrow> ('a \<Rightarrow> ('e, 'b) launching) \<Rightarrow> ('e, 'b) launching" where
  "lbind m f =
     (case m of
        (Inl e, tr) \<Rightarrow> (Inl e, tr)
      | (Inr x, tr) \<Rightarrow> (case f x of (r, tr') \<Rightarrow> (r, tr @ tr')))"

section \<open>The launcher\<close>

type_synonym secret_key = bytes

datatype request_server = Rpc_network_adapter string | Ress_network_manager

datatype 'd launch_event =
  Database_opened path
| Metrics_endpoint socket_addr
| Sub_protocol_added u64
| Peer_added string socket_addr
| Network_spawned
| Request_server_spawned request_server
| Engine_spawned "'d ress_provider"
| Auth_server_started socket_addr
| Debug_consensus_started string

record ('d, 'v, 'u) launch_deps =
  ld_codec :: codec
  ld_env :: "('d, 'v) env_ops"
  ld_db :: "('d, 'u) db_ops"
  chain_name :: "chain_spec \<Rightarrow> string"
  platform_path_default :: path
  dir_db :: "chain_path \<Rightarrow> path"
  dir_p2p_secret :: "chain_path \<Rightarrow> path"
  dir_jwt :: "chain_path \<Rightarrow> path"
  bind_listener :: "socket_addr \<Rightarrow> launch_error + unit"
  get_secret_key :: "path \<Rightarrow> launch_error + secret_key"
  network_manager_new :: "secret_key \<Rightarrow> socket_addr \<Rightarrow> chain_spec \<Rightarrow> launch_error + unit"
  resolve_blocking :: "string \<Rightarrow> launch_error + socket_addr"
  rpc_adapter_new :: "string \<Rightarrow> launch_error + unit"
  jwt_from_file :: "path \<Rightarrow> launch_error + jwt_secret"
  get_or_create_jwt :: "path \<Rightarrow> launch_error + jwt_secret"
  merge_auth_methods :: "launch_error + unit"
  start_server :: "jwt_secret \<Rightarrow> socket_addr \<Rightarrow> launch_error + unit"
  rpc_block_provider_new :: "string \<Rightarrow> launch_error + unit"

definition start_prometheus_server ::
  "('d, 'v, 'u) launch_deps \<Rightarrow> socket_addr \<Rightarrow> ('d launch_event, unit) launching" where
  "start_prometheus_server L addr =
     lbind (lift (bind_listener L addr)) (\<lambda>_. started (Metrics_endpoint addr))"

text \<open>A request to the metrics endpoint: the gauges of the database are brought up to date and the
  registry is rendered.\<close>

record metrics_response =
  mr_content_type :: string
  mr_body :: string

definition prometheus_service ::
  "('d, 'v) env_ops \<Rightarrow> (u64 \<Rightarrow> 'f) \<Rightarrow> ('f gauge_registry \<Rightarrow> string) \<Rightarrow> 'd \<Rightarrow> 'f gauge_registry
     \<Rightarrow> metrics_response \<times> 'f gauge_registry" where
  "prometheus_service ops f64 render database gauges =
     (let gauges = db_report_metrics ops f64 database gauges
      in (\<lparr>mr_content_type = ''text/plain'', mr_body = render gauges\<rparr>, gauges))"

text \<open>The loop over the trusted peers.\<close>

fun add_trusted_peers ::
  "('d, 'v, 'u) launch_deps \<Rightarrow> string list \<Rightarrow> ('d launch_event, unit) launching" where
  "add_trusted_peers L [] = lift (Inr ())"
| "add_trusted_peers L (peer # peers) =
     lbind (lift (resolve_blocking L peer)) (\<lambda>addr.
     lbind (started (Peer_added peer addr)) (\<lambda>_.
     add_trusted_peers L peers))"

definition launch_network ::
  "('d, 'v, 'u) launch_deps \<Rightarrow> ress_args \<Rightarrow> secret_key \<Rightarrow> u64 \<Rightarrow> string list \<Rightarrow> ('d launch_event, unit) launching" where
  "launch_network L args secret max_active_connections trusted_peers =
     lbind (lift (network_manager_new L secret (listener_addr (args_network args)) (args_chain args))) (\<lambda>_.
     lbind (started (Sub_protocol_added max_active_connections)) (\<lambda>_.
     lbind (add_trusted_peers L trusted_peers) (\<lambda>_.
     lbind (started Network_spawned) (\<lambda>_.
     case rpc_network_adapter_url (args_debug args) of
       Some rpc_url \<Rightarrow>
         lbind (lift (rpc_adapter_new L rpc_url)) (\<lambda>_. started (Request_server_spawned (Rpc_network_adapter rpc_url)))
     | None \<Rightarrow> started (Request_server_spawned Ress_network_manager)))))"

definition start_auth_server ::
  "('d, 'v, 'u) launch_deps \<Rightarrow> ress_args \<Rightarrow> jwt_secret \<Rightarrow> ('d launch_event, unit) launching" where
  "start_auth_server L args jwt_key =
     (let auth_socket = auth_rpc_addr (args_rpc args)
      in lbind (lift (merge_auth_methods L)) (\<lambda>_.
         lbind (lift (start_server L jwt_key auth_socket)) (\<lambda>_.
         started (Auth_server_started auth_socket))))"

text \<open>The blocks of the debug client; \<open>body_rest\<close> is the withdrawals, there are no ommers.\<close>

definition rpc_to_primitive_block :: "rpc_block \<Rightarrow> header \<times> block_body" where
  "rpc_to_primitive_block b =
     (rpc_header b, \<lparr>transactions = rpc_transactions b, body_rest = rpc_withdrawals b\<rparr>)"

definition start_debug_consensus ::
  "('d, 'v, 'u) launch_deps \<Rightarrow> ress_args \<Rightarrow> ('d launch_event, unit) launching" where
  "start_debug_consensus L args =
     (case debug_consensus_url (args_debug args) of
        Some url \<Rightarrow> lbind (lift (rpc_block_provider_new L url)) (\<lambda>_. started (Debug_consensus_started url))
      | None \<Rightarrow> lift (Inr ()))"

definition launch :: "('d, 'v, 'u) launch_deps \<Rightarrow> ress_args \<Rightarrow> ('d launch_event, unit) launching" where
  "launch L args =
     (let spec = args_chain args;
          data_dir = unwrap_or_chain_default (platform_path_default L) (chain_name L spec) (args_datadir args);
          db_path = dir_db L data_dir
      in lbind (lift (db_new (ld_env L) db_path)) (\<lambda>database.
         lbind (started (Database_opened db_path)) (\<lambda>_.
         lbind (case args_metrics args of
                  Some addr \<Rightarrow> start_prometheus_server L addr
                | None \<Rightarrow> lift (Inr ())) (\<lambda>_.
         case launch_provider (ld_codec L) (ld_db L) spec database of
           (inserted, provider) \<Rightarrow>
             lbind (lift inserted) (\<lambda>_.
             lbind (lift (get_secret_key L (network_secret_path (args_network args) (dir_p2p_secret L) data_dir))) (\<lambda>secret.
             lbind (launch_network L args secret (na_max_active_connections (args_network args))
                      (na_trusted_peers (args_network args))) (\<lambda>_.
             lbind (started (Engine_spawned provider)) (\<lambda>_.
             lbind (lift (fst (auth_jwt_secret (args_rpc args) (\<lambda>p w. (jwt_from_file L p, w))
                      (\<lambda>p w. (get_or_create_jwt L p, w)) (dir_jwt L data_dir) ()))) (\<lambda>jwt_key.
             lbind (start_auth_server L args jwt_key) (\<lambda>_.
             start_debug_consensus L args))))))))))"

text \<open>What the endpoint renders is up to date: each gauge of the table has the value just collected.\<close>

lemma prometheus_service_current:
  assumes "db_collect_metrics ops f64 d = Inr ms" "(name, v, labels) \<in> set ms"
  obtains gauges' where "prometheus_service ops f64 render d gauges =
      (\<lparr>mr_content_type = ''text/plain'', mr_body = render gauges'\<rparr>, gauges')" "gauges' (name, labels) = v"
  using db_report_metrics_sets [OF assms] by (auto simp: prometheus_service_def Let_def)

section \<open>What is started, and in which order\<close>

datatype part = P_database | P_metrics | P_protocol | P_peer | P_network | P_server bool | P_engine | P_auth | P_debug

fun part_of :: "'d launch_event \<Rightarrow> part" where
  "part_of (Database_opened _) = P_database"
| "part_of (Metrics_endpoint _) = P_metrics"
| "part_of (Sub_protocol_added _) = P_protocol"
| "part_of (Peer_added _ _) = P_peer"
| "part_of Network_spawned = P_network"
| "part_of (Request_server_spawned (Rpc_network_adapter _)) = P_server True"
| "part_of (Request_server_spawned Ress_network_manager) = P_server False"
| "part_of (Engine_spawned _) = P_engine"
| "part_of (Auth_server_started _) = P_auth"
| "part_of (Debug_consensus_started _) = P_debug"

text \<open>The parts the arguments ask for.\<close>

definition network_parts :: "ress_args \<Rightarrow> part list" where
  "network_parts args =
     P_protocol # replicate (length (na_trusted_peers (args_network args))) P_peer @
     [P_network, P_server (rpc_network_adapter_url (args_debug args) \<noteq> None)]"

definition launch_parts :: "ress_args \<Rightarrow> part list" where
  "launch_parts args =
     [P_database] @ (if args_metrics args = None then [] else [P_metrics]) @ network_parts args @
     [P_engine, P_auth] @ (if debug_consensus_url (args_debug args) = None then [] else [P_debug])"

text \<open>A step starts the parts it should, or the first of them up to an error.\<close>

definition starts :: "('d launch_event, 'a) launching \<Rightarrow> part list \<Rightarrow> bool" where
  "starts m ps \<longleftrightarrow>
     (case fst m of Inr _ \<Rightarrow> map part_of (snd m) = ps | Inl _ \<Rightarrow> prefix (map part_of (snd m)) ps)"

lemma starts_lift: "starts (lift r) []"
  by (simp add: starts_def lift_def split: sum.split)

lemma starts_started: "part_of e = p \<Longrightarrow> starts (started e) [p]"
  by (simp add: starts_def started_def)

lemma starts_lbind:
  assumes "starts m ps" "\<And>x. starts (f x) qs"
  shows "starts (lbind m f) (ps @ qs)"
proof (cases m)
  case (Pair r tr)
  show ?thesis
  proof (cases r)
    case (Inl e)
    with Pair assms(1) show ?thesis by (auto simp: starts_def lbind_def prefix_append)
  next
    case (Inr x)
    with Pair assms(1) assms(2) [of x] show ?thesis
      by (cases "f x") (auto simp: starts_def lbind_def split: sum.splits)
  qed
qed

lemmas starts_steps = starts_lbind starts_lift starts_started

lemma starts_peers: "starts (add_trusted_peers L peers) (replicate (length peers) P_peer)"
proof (induction peers)
  case (Cons peer peers)
  have "starts (add_trusted_peers L (peer # peers)) ([] @ [P_peer] @ replicate (length peers) P_peer)"
    unfolding add_trusted_peers.simps by (intro starts_steps Cons.IH) simp
  then show ?case by simp
qed (simp add: starts_lift)

lemma starts_optional:
  assumes "\<And>x. u = Some x \<Longrightarrow> starts (f x) ps" "u = None \<Longrightarrow> starts m qs"
  shows "starts (case u of Some x \<Rightarrow> f x | None \<Rightarrow> m) (if u = None then qs else ps)"
  using assms by (auto split: option.split)

lemma starts_network:
  "starts (launch_network L args secret m (na_trusted_peers (args_network args))) (network_parts args)"
proof -
  let ?url = "rpc_network_adapter_url (args_debug args)"
  have "starts (launch_network L args secret m (na_trusted_peers (args_network args)))
      ([] @ [P_protocol] @ replicate (length (na_trusted_peers (args_network args))) P_peer @
       [P_network] @ (if ?url = None then [P_server False] else [] @ [P_server True]))"
    unfolding launch_network_def by (intro starts_steps starts_peers starts_optional) simp_all
  then show ?thesis by (auto simp: network_parts_def split: if_splits)
qed

lemma starts_launch: "starts (launch L args) (launch_parts args)"
proof -
  let ?debug = "debug_consensus_url (args_debug args)"
  have "starts (launch L args)
      ([] @ [P_database] @ (if args_metrics args = None then [] else [] @ [P_metrics]) @ [] @ [] @
       network_parts args @ [P_engine] @ [] @ ([] @ [] @ [P_auth]) @ (if ?debug = None then [] else [] @ [P_debug]))"
    unfolding launch_def start_prometheus_server_def start_auth_server_def start_debug_consensus_def Let_def
      case_prod_unfold
    by (intro starts_steps starts_network starts_optional) simp_all
  then show ?thesis by (simp add: launch_parts_def cong: if_cong)
qed

text \<open>The events of a step, read through \<open>lbind\<close>.\<close>

lemma starts_set: "starts m ps \<Longrightarrow> set (map part_of (snd m)) \<subseteq> set ps"
  by (cases "fst m") (simp_all add: starts_def set_mono_prefix del: set_map)

lemma lbind_events:
  "e \<in> set (snd (lbind m f)) \<longleftrightarrow> e \<in> set (snd m) \<or> (\<exists>x. fst m = Inr x \<and> e \<in> set (snd (f x)))"
  by (auto simp: lbind_def split: prod.splits sum.splits)

lemma no_engine_elsewhere:
  "Engine_spawned p \<notin> set (snd (launch_network L args secret m (na_trusted_peers (args_network args))))"
  "Engine_spawned p \<notin> set (snd (start_prometheus_server L addr))"
  "Engine_spawned p \<notin> set (snd (start_auth_server L args jwt))"
  "Engine_spawned p \<notin> set (snd (start_debug_consensus L args))"
proof -
  have "P_engine \<notin> set (network_parts args)" by (auto simp: network_parts_def)
  with starts_set [OF starts_network] show
    "Engine_spawned p \<notin> set (snd (launch_network L args secret m (na_trusted_peers (args_network args))))"
    by (metis image_subset_iff part_of.simps(8) set_map)
qed (auto simp: start_prometheus_server_def start_auth_server_def start_debug_consensus_def Let_def lift_def
  started_def lbind_events split: option.splits)

lemma engine_provider:
  assumes "Engine_spawned p \<in> set (snd (launch L args))"
  obtains d where "db_new (ld_env L) (dir_db L (unwrap_or_chain_default (platform_path_default L)
      (chain_name L (args_chain args)) (args_datadir args))) = Inr d"
    "launch_provider (ld_codec L) (ld_db L) (args_chain args) d = (Inr (), p)"
  using assms
  by (auto simp: launch_def Let_def lbind_events lift_def started_def no_engine_elsewhere case_prod_unfold
    split: option.splits) (metis old.unit.exhaust prod.collapse that)+

text \<open>(C25) The start of the node and its error path: the parts come up in the order database, metrics,
  network with its peers, exactly one server for the node's requests, engine, authenticated RPC
  and debug client, each only when it is asked for; an error stops the launch there, so that what
  runs is a first part of that list, and in particular no RPC call is accepted before the engine
  runs. Whenever the engine is started it has the provider in which the genesis block is stored
  and canonical and every genesis bytecode was inserted.\<close>

theorem launch_ordered:
  "(case launch L args of (r, tr) \<Rightarrow>
     (case r of Inr _ \<Rightarrow> map part_of tr = launch_parts args | Inl e \<Rightarrow> prefix (map part_of tr) (launch_parts args)) \<and>
     (\<forall>p. Engine_spawned p \<in> set tr \<longrightarrow>
        (\<exists>d. launch_provider (ld_codec L) (ld_db L) (args_chain args) d = (Inr (), p)) \<and>
        executed_blocks p = fmupd (genesis_hash (args_chain args)) (genesis_block (args_chain args)) fmempty \<and>
        canonical p = [0 \<mapsto> genesis_hash (args_chain args)]))"
proof (cases "launch L args")
  case (Pair r tr)
  have "(\<exists>d. launch_provider (ld_codec L) (ld_db L) (args_chain args) d = (Inr (), p)) \<and>
      executed_blocks p = fmupd (genesis_hash (args_chain args)) (genesis_block (args_chain args)) fmempty \<and>
      canonical p = [0 \<mapsto> genesis_hash (args_chain args)]" if engine: "Engine_spawned p \<in> set tr" for p
  proof -
    from engine Pair have "Engine_spawned p \<in> set (snd (launch L args))" by simp
    then obtain d where "launch_provider (ld_codec L) (ld_db L) (args_chain args) d = (Inr (), p)"
      by (rule engine_provider)
    with launch_provider_views [of "ld_codec L" "ld_db L" "args_chain args" d] show ?thesis by auto
  qed
  with Pair starts_launch [of L args] show ?thesis by (cases r) (simp_all add: starts_def)
qed

section \<open>Witness\<close>

text \<open>A node whose authenticated server cannot be started.\<close>

definition sample_launch :: "((b256 \<times> bytecode) list, unit, (b256 \<times> bytecode) list) launch_deps" where
  "sample_launch = \<lparr>ld_codec = plain_codec, ld_env = \<lparr>default_arguments = \<lparr>growth_step = None, geometry_max_size = None\<rparr>,
       create_db = \<lambda>_ _. Inr [], create_tables_for = \<lambda>_ d. Inr d, env_view = \<lambda>_. Inr (), open_db = \<lambda>_ _. Inr 0,
       db_stat = \<lambda>_ _. Inl ''no table'', read_error = id\<rparr>,
     ld_db = map_db, chain_name = \<lambda>_. ''mainnet'', platform_path_default = ''/ress'', dir_db = cp_dir,
     dir_p2p_secret = cp_dir, dir_jwt = cp_dir, bind_listener = \<lambda>_. Inr (), get_secret_key = \<lambda>_. Inr [],
     network_manager_new = \<lambda>_ _ _. Inr (), resolve_blocking = \<lambda>_. Inr (''127.0.0.1'', 30303),
     rpc_adapter_new = \<lambda>_. Inr (), jwt_from_file = \<lambda>_. Inr [], get_or_create_jwt = \<lambda>_. Inr [],
     merge_auth_methods = Inr (), start_server = \<lambda>_ _. Inl ''address in use'', rpc_block_provider_new = \<lambda>_. Inr ()\<rparr>"

definition sample_args :: "chain_spec \<Rightarrow> ress_args" where
  "sample_args spec = \<lparr>args_chain = spec, args_datadir = mpp_default,
     args_network = \<lparr>na_addr = ''0.0.0.0'', na_port = 30303, na_p2p_secret_key = None,
       na_max_active_connections = 256, na_trusted_peers = [''enode'']\<rparr>,
     args_rpc = \<lparr>ra_auth_addr = ''127.0.0.1'', ra_auth_port = 8551, ra_auth_jwtsecret = None\<rparr>,
     args_debug = \<lparr>debug_consensus_url = None, rpc_network_adapter_url = None\<rparr>, args_metrics = None\<rparr>"

definition sample_chain_spec :: chain_spec where
  "sample_chain_spec = \<lparr>genesis_header = header.truncate (sample_block 1 0 0), genesis_hash = 1, genesis_codes = []\<rparr>"

theorem launch_ordered_witness:
  "\<exists>tr p. launch sample_launch (sample_args sample_chain_spec) = (Inl ''address in use'', tr) \<and>
     map part_of tr = [P_database, P_protocol, P_peer, P_network, P_server False, P_engine] \<and>
     Engine_spawned p \<in> set tr \<and> canonical p = [0 \<mapsto> 1]"
proof -
  obtain p where inserted: "launch_provider plain_codec map_db sample_chain_spec [] = (Inr (), p)"
    by (simp add: launch_provider_def sample_chain_spec_def rp_new_def launch_insert_genesis_def)
  obtain tr where tr: "launch sample_launch (sample_args sample_chain_spec) = (Inl ''address in use'', tr)"
    "map part_of tr = [P_database, P_protocol, P_peer, P_network, P_server False, P_engine]" "Engine_spawned p \<in> set tr"
    by (simp add: launch_def sample_args_def sample_launch_def lbind_def lift_def started_def db_new_def
      db_new_with_args_def mpp_default_def network_secret_path_def launch_network_def auth_jwt_secret_def
      start_auth_server_def inserted)
  moreover have "canonical p = [0 \<mapsto> 1]"
    using launch_ordered [where L = sample_launch and args = "sample_args sample_chain_spec"] tr
    by (simp add: sample_args_def) (simp add: sample_chain_spec_def)
  ultimately show ?thesis by (intro exI [of _ tr] exI [of _ p] conjI)
qed

end
