(* ===== verification/Forwarder.thy ===== *)
theory Forwarder
  imports Ress_Prelude "HOL-Library.Sublist"
begin

text \<open>
  The proxy that puts a ress node beside a reth node, \<open>src/bin/adapter/src/main.rs\<close>: a request goes
  to reth, and an engine request to ress as well, whose answer gets the payload identifier of
  reth's.

  JSON values are a datatype, their parser and printer and the HTTP client parameters, the fields
  of \<open>proxy_deps\<close>. An \<open>unwrap\<close> that fails is the outcome \<open>Panic\<close>. The result of the handler has
  the requests it sent, in order. Of \<open>main\<close> the model has the two listeners and what they serve.
\<close>

section \<open>JSON and HTTP\<close>

datatype json =
  JNull
| JBool bool
| JNumber string
| JString string
| JArray "json list"
| JObject "(string, json) fmap"

fun json_get :: "string \<Rightarrow> json \<Rightarrow> json option" where
  "json_get key (JObject m) = fmlookup m key"
| "json_get key _ = None"

fun json_as_str :: "json \<Rightarrow> string option" where
  "json_as_str (JString s) = Some s"
| "json_as_str _ = None"

type_synonym header_map = "(string \<times> string) list"
type_synonym hyper_error = string

record http_request =
  rq_uri :: string
  rq_method :: string
  rq_headers :: header_map
  rq_body :: "bytes"

record http_response =
  rs_status :: nat
  rs_headers :: header_map
  rs_body :: "hyper_error + bytes"

text \<open>An incoming request: reading its body may fail.\<close>

record incoming_request =
  in_method :: string
  in_headers :: header_map
  in_body :: "hyper_error + bytes"

type_synonym payload_id = string

record proxy_deps =
  from_slice :: "bytes \<Rightarrow> json option"
  to_vec :: "json \<Rightarrow> bytes"
  payload_response_of :: "json \<Rightarrow> payload_id option option"
  http_send :: "http_request \<Rightarrow> http_response option"

datatype forwarded = Responded http_response | Failed hyper_error | Panic

definition RETH_AUTH :: string where "RETH_AUTH = ''http://127.0.0.1:8651''"
definition RETH_HTTP :: string where "RETH_HTTP = ''http://127.0.0.1:8544''"
definition RESS_AUTH :: string where "RESS_AUTH = ''http://127.0.0.1:8552''"
definition CONTENT_LENGTH :: string where "CONTENT_LENGTH = ''content-length''"

text \<open>\<open>usize::to_string\<close>.\<close>

fun decimal :: "nat \<Rightarrow> string" where
  "decimal n = (if n < 10 then [char_of (48 + n)] else decimal (n div 10) @ [char_of (48 + n mod 10)])"

declare decimal.simps [simp del]

section \<open>The handler\<close>

definition is_engine_method :: "json \<Rightarrow> bool" where
  "is_engine_method request_body =
     (case Option.bind (json_get ''method'' request_body) json_as_str of
        Some m \<Rightarrow> prefix ''engine'' m \<and> \<not> prefix ''engine_get'' m
      | None \<Rightarrow> False)"

definition build_request :: "incoming_request \<Rightarrow> bytes \<Rightarrow> string \<Rightarrow> http_request" where
  "build_request req whole_body uri =
     \<lparr>rq_uri = uri, rq_method = in_method req, rq_headers = in_headers req, rq_body = whole_body\<rparr>"

text \<open>The replacement of the payload identifier in the answer of ress.\<close>

definition with_payload_id :: "payload_id \<Rightarrow> json \<Rightarrow> json" where
  "with_payload_id reth_payload_id ress_top_level =
     (case ress_top_level of
        JObject obj \<Rightarrow>
          (case fmlookup obj ''result'' of
             Some (JObject result_map) \<Rightarrow>
               JObject (fmupd ''result'' (JObject (fmupd ''payloadId'' (JString reth_payload_id) result_map)) obj)
           | _ \<Rightarrow> ress_top_level)
      | _ \<Rightarrow> ress_top_level)"

definition with_content_length :: "nat \<Rightarrow> header_map \<Rightarrow> header_map" where
  "with_content_length n hs = filter (\<lambda>(k, v). k \<noteq> CONTENT_LENGTH) hs @ [(CONTENT_LENGTH, decimal n)]"

definition merge_responses :: "proxy_deps \<Rightarrow> bytes \<Rightarrow> http_response \<Rightarrow> bytes \<Rightarrow> forwarded" where
  "merge_responses F reth_body ress_parts ress_body =
     (case from_slice F reth_body of
        None \<Rightarrow> Panic
      | Some top_level \<Rightarrow>
          (case Option.bind (json_get ''result'' top_level) (payload_response_of F) of
             Some (Some reth_payload_id) \<Rightarrow>
               (case from_slice F ress_body of
                  None \<Rightarrow> Panic
                | Some ress_top_level \<Rightarrow>
                    let new_body = to_vec F (with_payload_id reth_payload_id ress_top_level)
                    in Responded (ress_parts\<lparr>rs_headers := with_content_length (length new_body) (rs_headers ress_parts),
                                             rs_body := Inr new_body\<rparr>))
           | _ \<Rightarrow> Responded (ress_parts\<lparr>rs_body := Inr ress_body\<rparr>)))"

definition forward_request ::
  "proxy_deps \<Rightarrow> incoming_request \<Rightarrow> bool \<Rightarrow> http_request list \<times> forwarded" where
  "forward_request F req is_auth_server =
     (let reth_uri = (if is_auth_server then RETH_AUTH else RETH_HTTP)
      in case in_body req of
           Inl error \<Rightarrow> ([], Failed error)
         | Inr whole_body \<Rightarrow>
             (case from_slice F whole_body of
                None \<Rightarrow> ([], Panic)
              | Some request_body \<Rightarrow>
                  let reth_req = build_request req whole_body reth_uri
                  in case http_send F reth_req of
                       None \<Rightarrow> ([reth_req], Panic)
                     | Some reth_res \<Rightarrow>
                         if \<not> is_engine_method request_body then ([reth_req], Responded reth_res)
                         else
                           (case rs_body reth_res of
                              Inl error \<Rightarrow> ([reth_req], Failed error)
                            | Inr reth_body \<Rightarrow>
                                let ress_req = build_request req whole_body RESS_AUTH
                                in case http_send F ress_req of
                                     None \<Rightarrow> ([reth_req, ress_req], Panic)
                                   | Some ress_res \<Rightarrow>
                                       (case rs_body ress_res of
                                          Inl error \<Rightarrow> ([reth_req, ress_req], Failed error)
                                        | Inr ress_body \<Rightarrow>
                                            ([reth_req, ress_req], merge_responses F reth_body ress_res ress_body)))))"

section \<open>The listeners\<close>

datatype listener = Auth_listener | Http_listener

fun listener_port :: "listener \<Rightarrow> nat" where
  "listener_port Auth_listener = 8551"
| "listener_port Http_listener = 8545"

text \<open>What the loops of the two tasks meet, in the order of time: a request on a connection of a
  listener, or \<open>None\<close> when accepting a connection fails, whose \<open>unwrap\<close> ends the task and with it the
  proxy. A request that makes the handler panic ends its own connection only.\<close>

fun serve_listeners ::
  "proxy_deps \<Rightarrow> (listener \<times> incoming_request option) list \<Rightarrow> (listener \<times> http_request list \<times> forwarded) list" where
  "serve_listeners F [] = []"
| "serve_listeners F ((l, None) # arrivals) = []"
| "serve_listeners F ((l, Some req) # arrivals) =
     (l, forward_request F req (l = Auth_listener)) # serve_listeners F arrivals"

definition adapter_main ::
  "(nat \<Rightarrow> string + unit) \<Rightarrow> proxy_deps \<Rightarrow> (listener \<times> incoming_request option) list
     \<Rightarrow> string + (listener \<times> http_request list \<times> forwarded) list" where
  "adapter_main tcp_bind F arrivals =
     (case tcp_bind (listener_port Auth_listener) of
        Inl e \<Rightarrow> Inl e
      | Inr _ \<Rightarrow>
          (case tcp_bind (listener_port Http_listener) of
             Inl e \<Rightarrow> Inl e
           | Inr _ \<Rightarrow> Inr (serve_listeners F arrivals)))"

section \<open>What the proxy answers\<close>

text \<open>The authenticated port of reth is reached through the authenticated listener only.\<close>

lemma forward_request_uris:
  "forward_request F req auth = (calls, r) \<Longrightarrow>
     set (map rq_uri calls) \<subseteq> {if auth then RETH_AUTH else RETH_HTTP, RESS_AUTH}"
  by (auto simp: forward_request_def build_request_def Let_def split: sum.splits option.splits if_splits)

lemma serve_listeners_uris:
  "(l, calls, r) \<in> set (serve_listeners F arrivals) \<Longrightarrow> l = Http_listener \<Longrightarrow> RETH_AUTH \<notin> set (map rq_uri calls)"
proof (induction F arrivals rule: serve_listeners.induct)
  case (3 F k req arrivals)
  have "RETH_AUTH \<noteq> RETH_HTTP" "RETH_AUTH \<noteq> RESS_AUTH" by (simp_all add: RETH_AUTH_def RETH_HTTP_def RESS_AUTH_def)
  then have "RETH_AUTH \<notin> set (map rq_uri calls)" if "forward_request F req False = (calls, r)"
    using forward_request_uris [OF that] by auto
  with 3 show ?case by auto
qed simp_all

lemma content_length_once:
  "filter (\<lambda>(k, v). k = CONTENT_LENGTH) (with_content_length n hs) = [(CONTENT_LENGTH, decimal n)]"
proof -
  have "filter (\<lambda>(k, v). k = CONTENT_LENGTH) (filter (\<lambda>(k, v). k \<noteq> CONTENT_LENGTH) hs) = []"
    by (induction hs) auto
  then show ?thesis by (simp add: with_content_length_def)
qed

lemma other_headers_kept:
  "filter (\<lambda>(k, v). k \<noteq> CONTENT_LENGTH) (with_content_length n hs) = filter (\<lambda>(k, v). k \<noteq> CONTENT_LENGTH) hs"
  by (simp add: with_content_length_def)

text \<open>The payload identifier in the answer of reth, if there is one.\<close>

definition reth_payload_id :: "proxy_deps \<Rightarrow> bytes \<Rightarrow> payload_id option" where
  "reth_payload_id F reth_body =
     (case Option.bind (from_slice F reth_body) (json_get ''result'') of
        None \<Rightarrow> None
      | Some r \<Rightarrow> (case payload_response_of F r of Some (Some x) \<Rightarrow> Some x | _ \<Rightarrow> None))"

text \<open>\<open>obj'\<close> is \<open>obj\<close> but for the payload identifier of its result.\<close>

definition same_but_payload_id :: "payload_id \<Rightarrow> json \<Rightarrow> json \<Rightarrow> bool" where
  "same_but_payload_id x obj obj' \<longleftrightarrow>
     (\<forall>key. key \<noteq> ''result'' \<longrightarrow> json_get key obj' = json_get key obj) \<and>
     (case json_get ''result'' obj of
        Some (JObject m) \<Rightarrow> json_get ''result'' obj' = Some (JObject (fmupd ''payloadId'' (JString x) m))
      | _ \<Rightarrow> obj' = obj)"

lemma with_payload_id_same: "same_but_payload_id x obj (with_payload_id x obj)"
  by (cases obj) (auto simp: same_but_payload_id_def with_payload_id_def split: option.split json.split)

text \<open>The answer the proxy gives: that of ress as it is when reth names no payload identifier, and with
  reth's identifier and its own content length otherwise.\<close>

definition ress_answer :: "proxy_deps \<Rightarrow> bytes \<Rightarrow> http_response \<Rightarrow> bytes \<Rightarrow> http_response \<Rightarrow> bool" where
  "ress_answer F reth_body ress_res ress_body r \<longleftrightarrow>
     (case reth_payload_id F reth_body of
        None \<Rightarrow> r = ress_res\<lparr>rs_body := Inr ress_body\<rparr>
      | Some x \<Rightarrow> \<exists>obj obj' new_body.
          from_slice F ress_body = Some obj \<and> same_but_payload_id x obj obj' \<and> new_body = to_vec F obj' \<and>
          rs_status r = rs_status ress_res \<and> rs_body r = Inr new_body \<and>
          filter (\<lambda>(k, v). k = CONTENT_LENGTH) (rs_headers r) = [(CONTENT_LENGTH, decimal (length new_body))] \<and>
          filter (\<lambda>(k, v). k \<noteq> CONTENT_LENGTH) (rs_headers r) =
            filter (\<lambda>(k, v). k \<noteq> CONTENT_LENGTH) (rs_headers ress_res))"

lemma merge_responses_answer:
  assumes "merge_responses F reth_body ress_res ress_body = Responded r"
  shows "ress_answer F reth_body ress_res ress_body r"
proof (cases "reth_payload_id F reth_body")
  case None
  then show ?thesis
    using assms by (auto simp: merge_responses_def reth_payload_id_def ress_answer_def split: option.splits)
next
  case (Some x)
  then obtain obj where "from_slice F ress_body = Some obj"
    "r = ress_res\<lparr>rs_headers := with_content_length (length (to_vec F (with_payload_id x obj))) (rs_headers ress_res),
       rs_body := Inr (to_vec F (with_payload_id x obj))\<rparr>"
    using assms by (auto simp: merge_responses_def reth_payload_id_def Let_def bind_eq_Some_conv split: option.splits)
  then show ?thesis
    using Some with_payload_id_same by (auto simp: ress_answer_def content_length_once other_headers_kept)
qed

text \<open>(C39) What the proxy answers: a request that is not an engine method, and one that reads a payload,
  goes to reth alone and gets reth's response unchanged; an engine method goes to reth and then to
  ress with the same method, headers and body, and is answered by ress: unchanged when reth's
  answer has no payload identifier, and otherwise with exactly that identifier put into its result,
  every other field kept, and exactly one content length, that of the new body. The README of the
  adapter says the response of reth is sent back in both cases.\<close>

theorem forward_request_answers:
  assumes "in_body req = Inr whole_body" "from_slice F whole_body = Some request"
    and "forward_request F req auth = (calls, Responded r)"
  shows "if is_engine_method request
    then \<exists>reth_res reth_body ress_res ress_body.
      calls = [build_request req whole_body (if auth then RETH_AUTH else RETH_HTTP), build_request req whole_body RESS_AUTH] \<and>
      http_send F (calls ! 0) = Some reth_res \<and> rs_body reth_res = Inr reth_body \<and>
      http_send F (calls ! 1) = Some ress_res \<and> rs_body ress_res = Inr ress_body \<and>
      ress_answer F reth_body ress_res ress_body r
    else calls = [build_request req whole_body (if auth then RETH_AUTH else RETH_HTTP)] \<and>
      http_send F (calls ! 0) = Some r"
  using assms
  by (auto simp: forward_request_def Let_def split: option.splits sum.splits if_splits
    dest: merge_responses_answer)

definition sample_proxy :: proxy_deps where
  "sample_proxy = \<lparr>
     from_slice = \<lambda>bs. if bs = [1] then Some (JObject (fmupd ''method'' (JString ''engine_newPayloadV3'') fmempty))
       else if bs = [2] then Some (JObject (fmupd ''result'' (JObject fmempty) fmempty)) else None,
     to_vec = \<lambda>_. [3, 3], payload_response_of = \<lambda>_. Some (Some ''0x07''),
     http_send = \<lambda>rq. Some \<lparr>rs_status = 200, rs_headers = [(CONTENT_LENGTH, ''1'')], rs_body = Inr [2]\<rparr>\<rparr>"

theorem forward_request_answers_witness:
  "\<exists>calls r. forward_request sample_proxy \<lparr>in_method = ''POST'', in_headers = [], in_body = Inr [1]\<rparr> True = (calls, Responded r) \<and>
     length calls = 2 \<and> rs_status r = 200 \<and> rs_body r = Inr [3, 3] \<and>
     filter (\<lambda>(k, v). k = CONTENT_LENGTH) (rs_headers r) = [(CONTENT_LENGTH, ''2'')]"
proof -
  let ?req = "\<lparr>in_method = ''POST'', in_headers = [], in_body = Inr [1]\<rparr>"
  have "\<exists>calls r. forward_request sample_proxy ?req True = (calls, Responded r)"
    by (simp add: forward_request_def sample_proxy_def is_engine_method_def merge_responses_def Let_def)
  then obtain calls r where calls: "forward_request sample_proxy ?req True = (calls, Responded r)" by blast
  have "is_engine_method (JObject (fmupd ''method'' (JString ''engine_newPayloadV3'') fmempty))"
    by (simp add: is_engine_method_def)
  with forward_request_answers [OF _ _ calls, of "[1]"]
  have "length calls = 2" "ress_answer sample_proxy [2] \<lparr>rs_status = 200, rs_headers = [(CONTENT_LENGTH, ''1'')], rs_body = Inr [2]\<rparr> [2] r"
    by (auto simp: sample_proxy_def)
  moreover have "decimal 2 = ''2''" by code_simp
  ultimately show ?thesis
    using calls
    by (auto simp: sample_proxy_def ress_answer_def reth_payload_id_def numeral_2_eq_2)
qed

end
