(* ===== verification/Spec2Isabelle.thy ===== *)
theory Spec2Isabelle
  imports Engine_Refines Tree_Errors Buffer_Tests Node_Launch Forwarder
begin

text \<open>
  A verification development of ress, the stateless Ethereum execution client.

  \<^bold>\<open>The program.\<close> A consensus client sends payloads and forkchoice updates. Ress keeps no state of
  accounts: for every block it fetches a witness, the part of the state trie the block touches,
  executes the block over it and compares the resulting state root with the header. The parts are
  these; an arrow means that the left part calls the right one.

  \<^item> the consensus engine (\<open>engine.rs\<close>) \<open>\<rightarrow>\<close> the engine tree (\<open>tree/mod.rs\<close>), the downloader
    (\<open>download/mod.rs\<close>) and the channels of the engine API;
  \<^item> the engine tree \<open>\<rightarrow>\<close> the block buffer (\<open>tree/block_buffer.rs\<close>), the provider, the executor, the
    state root (\<open>tree/root.rs\<close>);
  \<^item> the executor (\<open>evm/executor.rs\<close>) \<open>\<rightarrow>\<close> the witness database (\<open>evm/db.rs\<close>) \<open>\<rightarrow>\<close> the provider;
  \<^item> the provider (\<open>provider.rs\<close>) \<open>\<rightarrow>\<close> the chain state (\<open>chain_state.rs\<close>), the bytecode database
    (\<open>database.rs\<close>);
  \<^item> the downloader \<open>\<rightarrow>\<close> its futures (\<open>download/futs.rs\<close>) \<open>\<rightarrow>\<close> the network handle (\<open>handle.rs\<close>) \<open>\<rightarrow>\<close> the
    network manager (\<open>manager.rs\<close>), or the RPC adapter (\<open>rpc_adapter.rs\<close>) in its place;
  \<^item> around the node: the launcher (\<open>launch.rs\<close>), the arguments (\<open>cli.rs\<close>), the eth interface
    (\<open>rpc.rs\<close>) and the proxy that puts ress beside reth (\<open>bin/adapter/src/main.rs\<close>).

  \<^bold>\<open>The theories and the sources.\<close> A struct is a record with the fields of the struct, a method a
  function on the record under its Rust name with the prefix of its type. A method that changes its
  receiver returns it. Errors are values of a sum or an option, panics values of their own.

  \<^item> \<open>Ress_Prelude\<close>: machine words, finite maps for the collections of the standard library, iteration
    orders, the locale \<open>invariant_system\<close> (reachable states of a step relation satisfy an invariant)
    and the collections \<open>view_simps\<close> and \<open>wf_intros\<close>.
  \<^item> \<open>Primitives\<close>: headers, blocks and \<open>witness.rs\<close>. Hashing and decoding are the record \<open>codec\<close>.
  \<^item> \<open>Ancestry\<close>, \<open>Block_Index\<close>: chains of parent hashes (locale \<open>header_chain\<close>) and secondary indexes,
    shared by the chain state, the buffer and the tree.
  \<^item> \<open>Chain_State\<close>: \<open>chain_state.rs\<close>, prefix \<open>cs_\<close>. \<open>Database\<close>, \<open>Database_Admin\<close>:
    \<open>database.rs\<close>, prefix \<open>db_\<close>, the operations on bytecodes, and the opening and the metrics of the
    database with the unit test of the file. \<open>Provider\<close>: \<open>provider.rs\<close>, prefix \<open>rp_\<close>.
  \<^item> \<open>Block_Buffer\<close>, \<open>Buffer_Drain\<close>, \<open>Buffer_Correct\<close>, \<open>Buffer_Tests\<close>: \<open>block_buffer.rs\<close>, prefix \<open>bb_\<close>, its
    two loops over children as instances of the locales \<open>child_drain\<close> and \<open>child_collect\<close>, its theorems,
    and the unit tests of the file, run on the model.
  \<^item> \<open>Tree_Outcome\<close>, \<open>State_Root\<close>, \<open>Evm\<close>: \<open>outcome.rs\<close>, \<open>root.rs\<close> (prefix \<open>sr_\<close>), \<open>db.rs\<close> and
    \<open>executor.rs\<close> (prefixes \<open>wd_\<close> and \<open>be_\<close>).
  \<^item> \<open>Engine_Tree\<close>: every method of \<open>tree/mod.rs\<close>, prefix \<open>et_\<close>. \<open>Tree_Canonical\<close>, \<open>Tree_Invariant\<close>,
    \<open>Tree_Handlers\<close>, \<open>Canonical_Index\<close>, \<open>Launch\<close>, \<open>Tree_Machine\<close>, \<open>Tree_Answers\<close>, \<open>Tree_Errors\<close>: its proofs,
    with what the launcher stores and the tree as a machine \<open>et_step\<close>: its handlers, and the changes the
    engine makes to it directly, with the sync to a finalized block (\<open>et_sync_finalized\<close>, \<open>engine.rs\<close>)
    among them. The parameter \<open>trust\<close> of the machine says which blocks the consensus layer may name as
    finalized in which state. The locale \<open>chain_view\<close> holds the proofs about the handlers once for every
    condition on the canonical chain, \<open>sync_view\<close> extends it by the sync; \<open>Canonical_Index\<close> and
    \<open>Tree_Machine\<close> have their four interpretations each.
  \<^item> \<open>Network\<close>: \<open>handle.rs\<close> and \<open>manager.rs\<close>, prefix \<open>nm_\<close>.
  \<^item> \<open>Fetch\<close>, \<open>Fetch_Correct\<close>: the six futures of \<open>futs.rs\<close>, prefixes \<open>ff_ hr_ fa_ fr_ bf_ wf_\<close>; the
    locale \<open>retrying\<close> is the contract of a future that retries one request.
  \<^item> \<open>Downloader\<close>, \<open>Downloader_Correct\<close>: \<open>download/mod.rs\<close>, prefix \<open>dl_\<close>; the locale \<open>download_kind\<close> is
    what its loops need of a kind of future, interpreted on all four.
  \<^item> \<open>Engine\<close>, \<open>Engine_Answers\<close>, \<open>Engine_Correct\<close>, \<open>Engine_Sync\<close>, \<open>Engine_Refines\<close>: \<open>engine.rs\<close>, prefix
    \<open>ce_\<close>, the whole engine as a machine \<open>ce_step\<close>, the sync to a finalized block, and the refinement of
    the tree machine by the engine.
  \<^item> \<open>Rpc_Adapter\<close> (\<open>ra_\<close>), \<open>Forwarder\<close>, \<open>Node_Args\<close>, \<open>Node_Launch\<close>: \<open>rpc_adapter.rs\<close>, the proxy, \<open>cli.rs\<close>
    with \<open>rpc.rs\<close>, and \<open>launch.rs\<close>.

  \<^bold>\<open>What is shown.\<close>

  \<^item> Safety of the whole node (\<open>engine_reachable_safe\<close>): in every reachable state each stored block is
    the genesis, a finalized block the consensus layer vouches for, or was executed over the state of
    its parent with the state root of its header.
  \<^item> The engine refines the tree machine (\<open>engine_refines_tree\<close>), so that what is shown of every reachable
    tree holds of the tree in a running engine.
  \<^item> Every call of the engine API is answered exactly once (\<open>engine_answers_once\<close>), every handler
    returns (\<open>et_reachable_responsive\<close>), and what the answers say is true of the state
    (\<open>et_forkchoice_valid\<close>, \<open>et_new_payload_answer\<close>, \<open>et_forkchoice_download\<close>).
  \<^item> Error paths: an INVALID verdict on a payload changes nothing but the invalid-header cache, and one on
    a well-formed block that is new to the cache and not buffered sticks
    (\<open>et_invalid_payload_sticks\<close>), a failed start of the node leaves a first part of it running in which
    no call is accepted before the engine runs (\<open>launch_ordered\<close>), and failed calls of the database and
    of peers are part of every statement about them.
  \<^item> After the sync to a finalized block the EVM can read the hashes of its ancestors
    (\<open>finalized_sync_block_hashes\<close>).
  \<^item> The canonical chain (\<open>et_reachable_consistent\<close>, \<open>et_on_new_head_correct\<close>, \<open>et_make_canonical_consistent\<close>,
    \<open>et_is_fork_correct\<close>): hashes are always filed under their number; they are the ancestors of the head
    as long as each finalized block synced to descends from the head at the time; before the first sync
    the index is exact on the stored blocks. A sync off the chain of the head leaves the hashes of the
    abandoned chain in the index (\<open>sync_leaves_abandoned\<close>).
  \<^item> Downloads: only checked data is handed out, nothing is lost or asked for twice at a time, and
    peers can make a future wait but not lie (\<open>downloader_answers\<close>, \<open>full_block_fetched\<close>,
    \<open>finalized_fetched\<close>, \<open>bytecode_fetched\<close>, \<open>range_fetched\<close>). The manager keeps every request
    (\<open>nm_poll_conserves\<close>) and serves connections in turn.
  \<^item> Chain state and buffer: well-formedness of all reachable states and the exact effect of each
    operation. State root: independent of the order in which parallel workers finish.
  \<^item> Faults and places where the documentation says something else: \<open>bb_remove_children_skips_parent\<close>,
    \<open>range_misaligned\<close>, \<open>finalized_needs_ancestors\<close>, \<open>sync_leaves_abandoned\<close>, the blocks at the number in
    \<open>bb_evict_old_blocks_exact\<close>, the response sent back in \<open>forward_request_answers\<close>, and the unreachable
    case in \<open>et_forkchoice_valid\<close>.

  \<^bold>\<open>Hypotheses.\<close> Code of reth, revm and other crates is a parameter. What is relied on is named:
  \<open>lru_spec\<close> (the LRU map of schnellru), \<open>db_spec\<close> (transactions: a failed commit
  changes nothing, a read gives the original bytes of what was written), \<open>tree_deps_spec\<close> (the consensus rules
  check that a number follows the parent's, the invalid-header cache and the forkchoice tracker),
  \<open>cache_keeps\<close> (a new entry of the invalid-header cache is found by the next lookup),
  \<open>engine_deps_spec\<close> (recovering senders keeps the block), \<open>validate_header_range_spec\<close>,
  \<open>independent_storages\<close> and \<open>account_leaf_spec\<close> (sparse tries), \<open>iteration_order\<close>. Collision resistance
  is stated for the blocks at hand only: \<open>authentic\<close> (the header with a given hash is \<open>hdr\<close>, and a parent
  hash ranks below the hash that commits to it). Each theorem with a hypothesis has a witness in
  which the parameters are concrete functions.

  \<^bold>\<open>Loops, bounds and fuel.\<close> Walks along parent hashes have no bound in the sources. They are
  \<open>partial_function (option)\<close>, \<open>None\<close> meaning that they do not return, and the theorems prove that they
  do return, by induction on the number of the block or its rank. No definition has fuel. A future is
  polled with the list of the answers it will read; when the list is used up it is pending and keeps its
  state, so longer runs are sequences of polls. The loop of the engine takes the list of the
  environments its rounds meet, each round being total in reachable states. Numbers of blocks are 64 bit
  words; where a number wraps, the theorems say so (\<open>next_number\<close>). Metrics counters are natural numbers.

  \<^bold>\<open>Not modelled.\<close> Logging, durations and timers (of a timer the model has whether it expired), the
  histograms of metrics, the event loop at the end of the launcher, the parsing of arguments by clap,
  \<open>build.rs\<close>, the \<open>main\<close> function of the node and the reth binary: they are input and output over library
  code and hold no state of the program. \<open>witness_rpc.rs\<close> is a serialisation shape without operations.
  The tasks of the RPC adapter run one after the other in the model; they share the bytecode cache only.
\<close>

end
